(* ===== verification/Distfs_Prelude.thy ===== *)
theory Distfs_Prelude
  imports Main "HOL-Library.Monad_Syntax" "HOL-Library.Char_ord"
begin

text \<open>
  What every component shares: the constants of common/consts.h, the error codes of
  common/error_code.h, unsigned machine arithmetic with its wrap-around written out, and
  bounded accesses to character buffers. The result \<open>None\<close> of an operation stands for
  undefined behaviour of the C++ program (an access outside a buffer, \<open>back()\<close> of an empty
  list); \<open>Some\<close> carries what the call returns.
\<close>

subsection \<open>Constants and error codes\<close>

type_synonym byte = char
type_synonym bytes = "byte list"

definition CHUNK_SIZE_BYTES :: nat where
  "CHUNK_SIZE_BYTES = 1024 * 1024 * 4"

definition WIRE_CHUNK_SIZE_BYTES :: nat where
  "WIRE_CHUNK_SIZE_BYTES = 1024 * 410"

datatype ErrorCode =
    OK
  | NOT_FOUND
  | ACCESS_DENIED
  | TOO_LONG
  | NO_DATA
  | BAD_TYPE
  | INTERNAL_ERROR
  | NOT_IMPLEMENTED

lemma chunk_size_pos [simp]: "0 < CHUNK_SIZE_BYTES"
  by (simp add: CHUNK_SIZE_BYTES_def)

lemma chunk_size_neq0 [simp]: "CHUNK_SIZE_BYTES \<noteq> 0"
  by (simp add: CHUNK_SIZE_BYTES_def)

lemma chunk_size_lt_32: "CHUNK_SIZE_BYTES < 2 ^ 32"
  by (simp add: CHUNK_SIZE_BYTES_def)

text \<open>Addresses inside the chunk of an address.\<close>

lemma address_in_chunk:
  assumes "p div CHUNK_SIZE_BYTES = n" and "p mod CHUNK_SIZE_BYTES + k \<le> CHUNK_SIZE_BYTES"
    and "p \<le> a" and "a < p + k"
  shows "a div CHUNK_SIZE_BYTES = n" and "a mod CHUNK_SIZE_BYTES = p mod CHUNK_SIZE_BYTES + (a - p)"
proof -
  let ?C = CHUNK_SIZE_BYTES
  have "a = (p mod ?C + (a - p)) + n * ?C"
    using assms(1,3) div_mult_mod_eq [of p ?C] by simp
  moreover have "p mod ?C + (a - p) < ?C" using assms(2,3,4) by simp
  ultimately show "a div ?C = n" "a mod ?C = p mod ?C + (a - p)"
    using div_mult_self3 [of ?C n "p mod ?C + (a - p)"] mod_mult_self3 [of n ?C "p mod ?C + (a - p)"]
    by (simp_all add: add.commute)
qed

subsection \<open>Unsigned machine arithmetic\<close>

text \<open>
  The value an unsigned \<open>w\<close>-bit variable holds after being assigned the mathematical
  result \<open>x\<close>: \<open>wrap 32\<close> for \<open>uint32_t\<close>, \<open>wrap 64\<close> for \<open>usize\<close>.
\<close>

definition wrap :: "nat \<Rightarrow> int \<Rightarrow> nat" where
  "wrap w x = nat (x mod 2 ^ w)"

lemma wrap_lt [simp]: "wrap w x < 2 ^ w"
proof -
  have "x mod 2 ^ w < (2 ^ w :: int)" by simp
  then have "nat (x mod 2 ^ w) < nat (2 ^ w)" by (simp add: nat_less_iff)
  then show ?thesis by (simp add: wrap_def nat_power_eq)
qed

lemma wrap_exact: "0 \<le> x \<Longrightarrow> x < 2 ^ w \<Longrightarrow> wrap w x = nat x"
  by (simp add: wrap_def)

lemma wrap_of_nat: "n < 2 ^ w \<Longrightarrow> wrap w (int n) = n"
  by (simp add: wrap_exact)

lemma wrap_add: "a + b < 2 ^ w \<Longrightarrow> wrap w (int a + int b) = a + b"
  using wrap_of_nat [of "a + b" w] by simp

lemma wrap_diff: "b \<le> a \<Longrightarrow> a < 2 ^ w \<Longrightarrow> wrap w (int a - int b) = a - b"
  using wrap_of_nat [of "a - b" w] by (simp add: of_nat_diff)

lemma wrap_negative:
  assumes "x < 0" and "- (2 ^ w) \<le> x"
  shows "wrap w x = nat (x + 2 ^ w)"
proof -
  have "x mod 2 ^ w = (x + 2 ^ w) mod 2 ^ w" by simp
  also have "\<dots> = x + 2 ^ w" using assms by (intro mod_pos_pos_trivial) auto
  finally show ?thesis by (simp add: wrap_def)
qed

lemma wrap_le: "0 \<le> x \<Longrightarrow> wrap w x \<le> nat x"
  by (simp add: wrap_def nat_mono zmod_le_nonneg_dividend)

subsection \<open>Numbers in memory\<close>

text \<open>The \<open>k\<close> bytes of an unsigned number, least significant first, and back.\<close>

primrec le_bytes :: "nat \<Rightarrow> nat \<Rightarrow> bytes" where
  "le_bytes 0 n = []"
| "le_bytes (Suc k) n = char_of (n mod 256) # le_bytes k (n div 256)"

primrec le_val :: "bytes \<Rightarrow> nat" where
  "le_val [] = 0"
| "le_val (b # bs) = of_char b + 256 * le_val bs"

lemma length_le_bytes [simp]: "length (le_bytes k n) = k"
  by (induction k arbitrary: n) simp_all

lemma le_val_le_bytes [simp]: "le_val (le_bytes k n) = n mod 256 ^ k"
  by (induction k arbitrary: n) (simp_all add: mod_mult2_eq)

subsection \<open>Maps\<close>

lemma restrict_map_UNIV [simp]: "m |` UNIV = m"
  by (simp add: restrict_map_def)

subsection \<open>Character buffers\<close>

text \<open>
  \<open>memcpy\<close> of \<open>src\<close> to position \<open>off\<close> of the buffer, and of \<open>n\<close> characters from
  position \<open>off\<close> of a buffer. An access outside the buffer is undefined.
\<close>

definition blit :: "bytes \<Rightarrow> nat \<Rightarrow> bytes \<Rightarrow> bytes option" where
  "blit buf off src =
     (if off + length src \<le> length buf
      then Some (take off buf @ src @ drop (off + length src) buf) else None)"

definition slice :: "bytes \<Rightarrow> nat \<Rightarrow> nat \<Rightarrow> bytes option" where
  "slice buf off n = (if off + n \<le> length buf then Some (take n (drop off buf)) else None)"

text \<open>
  \<^verbatim>\<open>new char[CHUNK_SIZE_BYTES]\<close>. Only its length is used: the code reads of such a
  buffer what a call has written to it before.
\<close>

definition new_buffer :: bytes where
  "new_buffer = replicate CHUNK_SIZE_BYTES (CHR 0x00)"

lemma length_new_buffer [simp]: "length new_buffer = CHUNK_SIZE_BYTES"
  by (simp add: new_buffer_def)

named_theorems buf_simps "reads and writes of character buffers within their bounds"

lemma blit_Some [buf_simps]:
  "off + length src \<le> length buf \<Longrightarrow>
     blit buf off src = Some (take off buf @ src @ drop (off + length src) buf)"
  by (simp add: blit_def)

lemma blit_length: "blit buf off src = Some buf' \<Longrightarrow> length buf' = length buf"
  by (auto simp: blit_def split: if_splits)

lemma blit_nth:
  "blit buf off src = Some buf' \<Longrightarrow> i < length buf \<Longrightarrow>
     buf' ! i = (if off \<le> i \<and> i < off + length src then src ! (i - off) else buf ! i)"
  by (auto simp: blit_def nth_append min_def split: if_splits)

lemma blit_blit:
  assumes "off + length a + length b \<le> length buf"
  shows "blit (take off buf @ a @ drop (off + length a) buf) (off + length a) b =
         Some (take off buf @ (a @ b) @ drop (off + length (a @ b)) buf)"
  using assms by (simp add: blit_def ac_simps)

lemma slice_Some [buf_simps]:
  "off + n \<le> length buf \<Longrightarrow> slice buf off n = Some (take n (drop off buf))"
  by (simp add: slice_def)

lemma slice_length: "slice buf off n = Some d \<Longrightarrow> length d = n"
  by (auto simp: slice_def split: if_splits)

end
