(* ===== verification/Posix_Model.thy ===== *)
theory Posix_Model
  imports Distfs_Prelude
begin

text \<open>
  The part of the POSIX file interface the program uses: \<open>open\<close>, \<open>read\<close>, \<open>write\<close>,
  \<open>unlink\<close> and \<open>mkdir\<close>, over an explicit world. The world holds the regular files, the
  directories and the decisions the system will take on the calls to come: a call may fail
  (\<open>Fault\<close>), transfer fewer bytes than asked for (\<open>Short\<close>) or run in full.
\<close>

datatype os_choice = Fault | Short nat | Full

record world =
  files :: "string \<rightharpoonup> bytes"
  dirs :: "string set"
  choices :: "os_choice list"

datatype errno = ENOENT | EEXIST | EOTHER

definition pop_choice :: "world \<Rightarrow> os_choice \<times> world" where
  "pop_choice w = (case choices w of [] \<Rightarrow> (Full, w) | c # cs \<Rightarrow> (c, w\<lparr>choices := cs\<rparr>))"

text \<open>How many of \<open>n > 0\<close> available bytes a call that succeeds transfers: at least one.\<close>

fun transfer :: "os_choice \<Rightarrow> nat \<Rightarrow> nat" where
  "transfer Fault n = 0"
| "transfer (Short k) n = min n (Suc k)"
| "transfer Full n = n"

definition parent_dir :: "string \<Rightarrow> string" where
  "parent_dir p = rev (tl (dropWhile (\<lambda>c. c \<noteq> CHR ''/'') (rev p)))"

definition has_parent :: "world \<Rightarrow> string \<Rightarrow> bool" where
  "has_parent w p = (parent_dir p = [] \<or> parent_dir p \<in> dirs w)"

text \<open>\<open>open(p, O_RDONLY)\<close>: the descriptor is the content still to be read.\<close>

definition sys_open_rd :: "string \<Rightarrow> world \<Rightarrow> (errno + bytes) \<times> world" where
  "sys_open_rd p w =
     (let (c, w') = pop_choice w in
      if c = Fault then (Inl EOTHER, w')
      else case files w' p of None \<Rightarrow> (Inl ENOENT, w') | Some d \<Rightarrow> (Inr d, w'))"

text \<open>\<open>read(fd, _, n)\<close>: the result, the bytes read, the content left in the descriptor.\<close>

definition sys_read :: "bytes \<Rightarrow> nat \<Rightarrow> world \<Rightarrow> int \<times> bytes \<times> bytes \<times> world" where
  "sys_read rest n w =
     (let (c, w') = pop_choice w in
      if c = Fault then (-1, [], rest, w')
      else let k = transfer c (min n (length rest)) in (int k, take k rest, drop k rest, w'))"

text \<open>\<open>open(p, O_WRONLY | O_CREAT | O_TRUNC)\<close>: the descriptor is the path.\<close>

definition sys_open_wr :: "string \<Rightarrow> world \<Rightarrow> (errno + string) \<times> world" where
  "sys_open_wr p w =
     (let (c, w') = pop_choice w in
      if c = Fault \<or> p \<in> dirs w' then (Inl EOTHER, w')
      else if \<not> has_parent w' p then (Inl ENOENT, w')
      else (Inr p, w'\<lparr>files := (files w')(p \<mapsto> [])\<rparr>))"

text \<open>\<open>write(fd, src, n)\<close> appends to what was written since the truncation.\<close>

definition sys_write :: "string \<Rightarrow> bytes \<Rightarrow> nat \<Rightarrow> world \<Rightarrow> (int \<times> world) option" where
  "sys_write p src n w =
     (let (c, w') = pop_choice w in
      if c = Fault then Some (-1, w')
      else let k = transfer c n in
        case slice src 0 k of None \<Rightarrow> None
        | Some d \<Rightarrow>
            Some (int k, w'\<lparr>files := (files w')(p \<mapsto> (case files w' p of None \<Rightarrow> d | Some f \<Rightarrow> f @ d))\<rparr>))"

definition sys_unlink :: "string \<Rightarrow> world \<Rightarrow> errno option \<times> world" where
  "sys_unlink p w =
     (let (c, w') = pop_choice w in
      if c = Fault then (Some EOTHER, w')
      else case files w' p of None \<Rightarrow> (Some ENOENT, w')
           | Some _ \<Rightarrow> (None, w'\<lparr>files := (files w')(p := None)\<rparr>))"

definition sys_mkdir :: "string \<Rightarrow> world \<Rightarrow> errno option \<times> world" where
  "sys_mkdir p w =
     (let (c, w') = pop_choice w in
      if c = Fault then (Some EOTHER, w')
      else if p \<in> dirs w' \<or> files w' p \<noteq> None then (Some EEXIST, w')
      else if \<not> has_parent w' p then (Some ENOENT, w')
      else (None, w'\<lparr>dirs := insert p (dirs w')\<rparr>))"

subsection \<open>Schedules without failures\<close>

definition no_fault :: "world \<Rightarrow> bool" where
  "no_fault w = (Fault \<notin> set (choices w))"

definition same_fs :: "world \<Rightarrow> world \<Rightarrow> bool" where
  "same_fs w w' = (files w' = files w \<and> dirs w' = dirs w)"

lemma same_fs_refl [simp]: "same_fs w w"
  by (simp add: same_fs_def)

lemma same_fs_trans [trans]: "same_fs u v \<Longrightarrow> same_fs v w \<Longrightarrow> same_fs u w"
  by (simp add: same_fs_def)

lemma no_fault_files_dirs [simp]:
  "no_fault (w\<lparr>files := f\<rparr>) = no_fault w" "no_fault (w\<lparr>dirs := d\<rparr>) = no_fault w"
  by (simp_all add: no_fault_def)

lemma pop_choice_same_fs: "pop_choice w = (c, w') \<Longrightarrow> same_fs w w'"
  by (auto simp: pop_choice_def same_fs_def split: list.splits)

lemma pop_choice_no_fault:
  "pop_choice w = (c, w') \<Longrightarrow> no_fault w \<Longrightarrow> c \<noteq> Fault \<and> no_fault w'"
  by (auto simp: pop_choice_def no_fault_def split: list.splits)

lemma transfer_le: "transfer c n \<le> n"
  by (cases c) auto

lemma transfer_pos: "c \<noteq> Fault \<Longrightarrow> 0 < n \<Longrightarrow> 0 < transfer c n"
  by (cases c) auto

lemma sys_read_le:
  assumes "sys_read rest n w = (res, got, rest', w')"
  shows "res \<le> int n"
proof -
  obtain c v where "pop_choice w = (c, v)" by fastforce
  moreover have "transfer c (min n (length rest)) \<le> n"
    using transfer_le [of c "min n (length rest)"] by simp
  ultimately show ?thesis
    using assms by (auto simp: sys_read_def Let_def split: if_splits)
qed

text \<open>A fault-free \<open>read\<close> takes a prefix, which is empty only at the end of the file.\<close>

lemma sys_read_ok:
  assumes "no_fault w"
  obtains k w' where "sys_read rest n w = (int k, take k rest, drop k rest, w')"
    and "k \<le> n" and "k \<le> length rest" and "0 < n \<Longrightarrow> rest \<noteq> [] \<Longrightarrow> 0 < k"
    and "no_fault w'" and "same_fs w w'"
proof -
  obtain c w' where cw: "pop_choice w = (c, w')" by fastforce
  have nf: "c \<noteq> Fault" "no_fault w'" using pop_choice_no_fault [OF cw assms] by auto
  let ?k = "transfer c (min n (length rest))"
  have "?k \<le> min n (length rest)" by (rule transfer_le)
  moreover have "0 < n \<Longrightarrow> rest \<noteq> [] \<Longrightarrow> 0 < ?k"
    using nf(1) by (intro transfer_pos) auto
  ultimately show thesis
    using nf pop_choice_same_fs [OF cw] by (intro that [of ?k w']) (auto simp: sys_read_def cw Let_def)
qed

lemma sys_open_rd_ok:
  assumes "no_fault w"
  obtains w' where "sys_open_rd p w =
      ((case files w p of None \<Rightarrow> Inl ENOENT | Some d \<Rightarrow> Inr d), w')"
    and "no_fault w'" and "same_fs w w'"
proof -
  obtain c w' where cw: "pop_choice w = (c, w')" by fastforce
  show thesis
    using pop_choice_no_fault [OF cw assms] pop_choice_same_fs [OF cw]
    by (intro that [of w']) (auto simp: sys_open_rd_def cw same_fs_def split: option.splits)
qed

end
