(* ===== verification/Chunk_Files.thy ===== *)
theory Chunk_Files
  imports Posix_Model
begin

text \<open>
  The file level of data/chunk_store.cc: the path of a chunk, the loops that read and write
  a file completely, the creation of the directories above a file and the parsing of file
  names back into chunk ids. Everything here works on the world of \<open>Posix_Model\<close>; the class
  itself is in \<open>Chunk_Store\<close>.
\<close>

subsection \<open>File names\<close>

definition PATH_MAX :: nat where
  "PATH_MAX = 4096"

definition hex_digits :: string where
  "hex_digits = ''0123456789ABCDEF''"

text \<open>\<open>printf("%X")\<close> of an unsigned number.\<close>

fun to_hex :: "nat \<Rightarrow> string" where
  "to_hex n = (if n < 16 then [hex_digits ! n] else to_hex (n div 16) @ [hex_digits ! (n mod 16)])"

declare to_hex.simps [simp del]

definition id_to_path :: "string \<Rightarrow> nat \<Rightarrow> string" where
  "id_to_path base i =
     take (PATH_MAX - 1)
       (base @ ''/'' @ to_hex (i mod 256) @ ''/'' @ to_hex ((i div 256) mod 256) @ ''/'' @ to_hex i)"

subsection \<open>Copy loops\<close>

text \<open>
  \<^verbatim>\<open>do { res = read(fd, buffer, max_size); max_size -= res; buffer += res; *size += res; }
  while (max_size > 0 && res > 0);\<close>
  with \<open>uint32_t max_size\<close> and a counter of \<open>wd\<close> bits. The result holds \<open>res\<close>, the unread
  rest of the file, \<open>max_size\<close>, the buffer and the counter.
\<close>

function read_loop ::
    "nat \<Rightarrow> bytes \<Rightarrow> nat \<Rightarrow> bytes \<Rightarrow> nat \<Rightarrow> nat \<Rightarrow> world \<Rightarrow>
     (int \<times> bytes \<times> nat \<times> bytes \<times> nat \<times> world) option" where
  "read_loop wd rest max_size buf off sz w =
     (case sys_read rest max_size w of
        (res, got, rest', w') \<Rightarrow>
          (case blit buf off got of
             None \<Rightarrow> None
           | Some buf' \<Rightarrow>
               let max_size' = wrap 32 (int max_size - res);
                   sz' = wrap wd (int sz + res)
               in if 0 < max_size' \<and> 0 < res
                  then read_loop wd rest' max_size' buf' (off + nat res) sz' w'
                  else Some (res, rest', max_size', buf', sz', w')))"
  by pat_completeness auto
termination
proof (relation "measure (\<lambda>(wd, rest, max_size, buf, off, sz, w). max_size)", goal_cases)
  case 1
  show ?case by simp
next
  case (2 wd rest max_size buf off sz w res y got y' rest' w' buf' max_size' sz')
  then have r: "sys_read rest max_size w = (res, got, rest', w')" by simp
  have "max_size' \<le> nat (int max_size - res)"
    using sys_read_le [OF r] 2 by (simp add: wrap_le)
  also have "\<dots> < max_size" using 2 sys_read_le [OF r] by auto
  finally show ?case by simp
qed

declare read_loop.simps [simp del]

text \<open>
  \<^verbatim>\<open>do { res = write(fd, buffer, size); size -= res; buffer += res; }
  while (size > 0 && res > 0);\<close>
\<close>

function write_loop :: "string \<Rightarrow> bytes \<Rightarrow> nat \<Rightarrow> world \<Rightarrow> (int \<times> nat \<times> world) option" where
  "write_loop fd src sz w =
     (case sys_write fd src sz w of
        None \<Rightarrow> None
      | Some (res, w') \<Rightarrow>
          let sz' = wrap 32 (int sz - res)
          in if 0 < sz' \<and> 0 < res then write_loop fd (drop (nat res) src) sz' w'
             else Some (res, sz', w'))"
  by pat_completeness auto
termination
proof (relation "measure (\<lambda>(fd, src, sz, w). sz)", goal_cases)
  case 1
  show ?case by simp
next
  case (2 fd src sz w p res w' sz')
  then have r: "sys_write fd src sz w = Some (res, w')" by simp
  obtain c v where "pop_choice w = (c, v)" by fastforce
  with r have "res \<le> int sz"
    using transfer_le [of c sz]
    by (auto simp: sys_write_def Let_def split: if_splits option.splits)
  with 2 have "sz' \<le> nat (int sz - res)" "nat (int sz - res) < sz"
    by (auto simp: wrap_le)
  then show ?case by simp
qed

declare write_loop.simps [simp del]

lemma read_loop_ok:
  assumes "no_fault w" and "0 < max_size" and "max_size < 2 ^ 32"
    and "off + max_size \<le> length buf" and "sz + max_size < 2 ^ wd"
  shows "\<exists>res w'. read_loop wd rest max_size buf off sz w =
           (let n = min max_size (length rest)
            in Some (res, drop n rest, max_size - n,
                 take off buf @ take n rest @ drop (off + n) buf, sz + n, w')) \<and>
         no_fault w' \<and> same_fs w w' \<and> 0 \<le> res \<and> (res = 0 \<longleftrightarrow> length rest < max_size)"
  using assms
proof (induction max_size arbitrary: rest buf off sz w rule: less_induct)
  case (less m)
  obtain k w' where r: "sys_read rest m w = (int k, take k rest, drop k rest, w')"
    and k: "k \<le> m" "k \<le> length rest" "0 < m \<Longrightarrow> rest \<noteq> [] \<Longrightarrow> 0 < k"
    and w': "no_fault w'" "same_fs w w'"
    using sys_read_ok [OF less.prems(1)] by metis
  let ?buf = "take off buf @ take k rest @ drop (off + k) buf"
  have b: "blit buf off (take k rest) = Some ?buf" using k less.prems(4) by (simp add: blit_def)
  have m': "wrap 32 (int m - int k) = m - k" using k(1) less.prems(3) by (intro wrap_diff) auto
  have s': "wrap wd (int sz + int k) = sz + k" using k(1) less.prems(5) by (intro wrap_add) auto
  have step: "read_loop wd rest m buf off sz w =
      (if 0 < m - k \<and> 0 < k then read_loop wd (drop k rest) (m - k) ?buf (off + k) (sz + k) w'
       else Some (int k, drop k rest, m - k, ?buf, sz + k, w'))"
    by (simp add: read_loop.simps [of wd rest m] r b m' s' Let_def)
  show ?case
  proof (cases "0 < m - k \<and> 0 < k")
    case True
    have lbuf: "off + k + (m - k) \<le> length ?buf" using k less.prems(4) by simp
    have p: "m - k < m" "0 < m - k" "m - k < 2 ^ 32" "sz + k + (m - k) < 2 ^ wd"
      using True k less.prems by auto
    obtain res v where ih:
      "read_loop wd (drop k rest) (m - k) ?buf (off + k) (sz + k) w' =
         (let n = min (m - k) (length (drop k rest))
          in Some (res, drop n (drop k rest), m - k - n,
               take (off + k) ?buf @ take n (drop k rest) @ drop (off + k + n) ?buf, sz + k + n, v))"
      "no_fault v" "same_fs w' v" "0 \<le> res" "res = 0 \<longleftrightarrow> length (drop k rest) < m - k"
      using less.IH [OF p(1) w'(1) p(2,3) lbuf p(4), of "drop k rest"] by blast
    let ?n = "min (m - k) (length rest - k)"
    have n: "min m (length rest) = k + ?n" using k True by auto
    have "take (off + k) ?buf @ take ?n (drop k rest) @ drop (off + k + ?n) ?buf =
        take off buf @ take (k + ?n) rest @ drop (off + (k + ?n)) buf"
      using k lbuf less.prems(4) by (simp add: take_add ac_simps)
    then have "read_loop wd rest m buf off sz w =
        Some (res, drop (k + ?n) rest, m - (k + ?n), take off buf @ take (k + ?n) rest @ drop (off + (k + ?n)) buf, sz + (k + ?n), v)"
      using ih(1) True by (simp add: step Let_def ac_simps)
    moreover have "res = 0 \<longleftrightarrow> length rest < m" using ih(5) k by auto
    ultimately show ?thesis
      using ih(2,4) same_fs_trans [OF w'(2) ih(3)] unfolding n Let_def by blast
  next
    case False
    then consider "k = m" "0 < k" | "k = 0" "rest = []" using k less.prems(2) by fastforce
    then show ?thesis
    proof cases
      case 1
      then have "min m (length rest) = m" using k by simp
      then show ?thesis using 1 k w' by (auto simp: step)
    next
      case 2
      then show ?thesis using w' less.prems(2,4) step by auto
    qed
  qed
qed

lemma sys_write_ok:
  assumes "no_fault w" and "n \<le> length src" and "files w p = Some d"
  obtains k w' where "sys_write p src n w = Some (int k, w')" and "k \<le> n" and "0 < n \<Longrightarrow> 0 < k"
    and "no_fault w'" and "dirs w' = dirs w" and "files w' = (files w)(p \<mapsto> d @ take k src)"
proof -
  obtain c v where cv: "pop_choice w = (c, v)" by fastforce
  let ?k = "transfer c n"
  have k: "?k \<le> n" "0 < n \<Longrightarrow> 0 < ?k" and c: "c \<noteq> Fault" "no_fault v"
    using transfer_le transfer_pos pop_choice_no_fault [OF cv assms(1)] by auto
  have v: "files v = files w" "dirs v = dirs w"
    using pop_choice_same_fs [OF cv] by (auto simp: same_fs_def)
  show thesis
    using k c v assms(2,3)
    by (intro that [of ?k "v\<lparr>files := (files v)(p \<mapsto> d @ take ?k src)\<rparr>"])
      (auto simp: sys_write_def cv Let_def slice_def)
qed

lemma write_loop_ok:
  assumes "no_fault w" and "n \<le> length src" and "n < 2 ^ 32" and "files w p = Some d"
  shows "\<exists>res w'. write_loop p src n w = Some (res, 0, w') \<and> 0 \<le> res \<and> no_fault w' \<and>
           dirs w' = dirs w \<and> files w' = (files w)(p \<mapsto> d @ take n src)"
  using assms
proof (induction n arbitrary: src w d rule: less_induct)
  case (less n)
  obtain k w' where r: "sys_write p src n w = Some (int k, w')" and k: "k \<le> n" "0 < n \<Longrightarrow> 0 < k"
    and w': "no_fault w'" "dirs w' = dirs w" "files w' = (files w)(p \<mapsto> d @ take k src)"
    using sys_write_ok [OF less.prems(1,2,4)] by metis
  have n': "wrap 32 (int n - int k) = n - k" using k(1) less.prems(3) by (intro wrap_diff) auto
  have step: "write_loop p src n w =
      (if 0 < n - k \<and> 0 < k then write_loop p (drop k src) (n - k) w' else Some (int k, n - k, w'))"
    by (simp add: write_loop.simps [of p src] r n' Let_def)
  show ?case
  proof (cases "0 < n - k \<and> 0 < k")
    case True
    have p: "n - k < n" "n - k \<le> length (drop k src)" "n - k < 2 ^ 32"
        "files w' p = Some (d @ take k src)"
      using True k less.prems w'(3) by auto
    obtain res v where ih: "write_loop p (drop k src) (n - k) w' = Some (res, 0, v)" "0 \<le> res"
        "no_fault v" "dirs v = dirs w'"
        "files v = (files w')(p \<mapsto> (d @ take k src) @ take (n - k) (drop k src))"
      using less.IH [OF p(1) w'(1) p(2-4)] by blast
    have "take k src @ take (n - k) (drop k src) = take n src"
      using k(1) take_add [of k "n - k" src] by simp
    then show ?thesis using ih w' True step by auto
  next
    case False
    then have "n = k" using k by fastforce
    then show ?thesis using step w' by auto
  qed
qed

subsection \<open>Directories on the way to a file\<close>

text \<open>
  \<open>create_base_dir\<close>: \<open>buff\<close> is what was copied so far, the second argument the rest of the
  path (\<open>path_buf\<close>, never empty since a chunk path contains a slash); each prefix of the path
  that ends before a slash is created unless it exists.
\<close>

function create_base_dir :: "string \<Rightarrow> string \<Rightarrow> world \<Rightarrow> ErrorCode \<times> world" where
  "create_base_dir buff [] w = (OK, w)"
| "create_base_dir buff (c # path_buf) w =
     (let next = dropWhile (\<lambda>x. x \<noteq> CHR ''/'') path_buf in
      if next = [] then (OK, w)
      else
        let buff' = buff @ c # takeWhile (\<lambda>x. x \<noteq> CHR ''/'') path_buf in
        case sys_mkdir buff' w of
          (res, w') \<Rightarrow>
            if res \<noteq> None \<and> res \<noteq> Some EEXIST then (INTERNAL_ERROR, w')
            else create_base_dir buff' next w')"
  by pat_completeness auto
termination
  by (relation "measure (\<lambda>(buff, path_buf, w). length path_buf)")
    (auto simp: less_Suc_eq_le length_dropWhile_le)

declare create_base_dir.simps(2) [simp del]

lemma dropWhile_no_slash: "CHR ''/'' \<notin> set b \<Longrightarrow> dropWhile (\<lambda>c. c \<noteq> CHR ''/'') (rev b) = []"
  by (auto simp: dropWhile_eq_Nil_conv)

lemma parent_dir_snoc:
  "CHR ''/'' \<notin> set b \<Longrightarrow> parent_dir (a @ CHR ''/'' # b) = a"
  by (simp add: parent_dir_def dropWhile_append3 dropWhile_no_slash)

lemma parent_dir_plain: "CHR ''/'' \<notin> set b \<Longrightarrow> parent_dir b = []"
  by (simp add: parent_dir_def dropWhile_no_slash)

lemma sys_mkdir_ok:
  assumes "no_fault w" and "files w p = None" and "has_parent w p"
  obtains r w' where "sys_mkdir p w = (r, w')" and "r = None \<or> r = Some EEXIST"
    and "no_fault w'" and "files w' = files w" and "dirs w' = insert p (dirs w)"
proof -
  obtain c v where cv: "pop_choice w = (c, v)" by fastforce
  have v: "files v = files w" "dirs v = dirs w" "c \<noteq> Fault" "no_fault v"
    using pop_choice_same_fs [OF cv] pop_choice_no_fault [OF cv assms(1)] by (auto simp: same_fs_def)
  show thesis
  proof (cases "p \<in> dirs w")
    case True
    then show thesis using v by (intro that [of "Some EEXIST" v]) (auto simp: sys_mkdir_def cv)
  next
    case False
    then show thesis
      using v assms by (intro that [of None "v\<lparr>dirs := insert p (dirs v)\<rparr>"])
        (auto simp: sys_mkdir_def cv has_parent_def)
  qed
qed

text \<open>
  When no prefix of the path is a regular file, every directory is there afterwards, no
  file changed, and the new directories are proper prefixes of the path.
\<close>

lemma create_base_dir_ok:
  assumes "no_fault w"
    and "\<And>q r. buff @ p = q @ CHR ''/'' # r \<Longrightarrow> files w q = None"
    and "buff = [] \<or> buff \<in> dirs w \<and> (\<exists>r. p = CHR ''/'' # r)"
    and "p \<noteq> []"
  shows "\<exists>w'. create_base_dir buff p w = (OK, w') \<and> no_fault w' \<and> files w' = files w \<and>
           dirs w \<subseteq> dirs w' \<and> has_parent w' (buff @ p) \<and>
           (\<forall>q \<in> dirs w' - dirs w. \<exists>r. buff @ p = q @ CHR ''/'' # r)"
  using assms
proof (induction buff p w rule: create_base_dir.induct)
  case (1 buff w)
  then show ?case by simp
next
  case (2 buff c cs w)
  let ?seg = "takeWhile (\<lambda>x. x \<noteq> CHR ''/'') cs" and ?next = "dropWhile (\<lambda>x. x \<noteq> CHR ''/'') cs"
  let ?buff = "buff @ c # ?seg"
  have nosep: "CHR ''/'' \<notin> set ?seg" by (auto dest: set_takeWhileD)
  have parent: "parent_dir ?buff = [] \<or> parent_dir ?buff \<in> dirs w"
  proof (cases "c = CHR ''/''")
    case True
    then show ?thesis using nosep "2.prems"(3) parent_dir_snoc [of ?seg buff] by auto
  next
    case False
    then have "buff = []" using "2.prems"(3) by auto
    then show ?thesis using nosep False parent_dir_plain [of "c # ?seg"] by auto
  qed
  show ?case
  proof (cases "?next = []")
    case True
    then have "?seg = cs" by (metis append_Nil2 takeWhile_dropWhile_id)
    with parent have "has_parent w (buff @ c # cs)" by (simp only: has_parent_def)
    moreover have "create_base_dir buff (c # cs) w = (OK, w)" using True
      by (simp only: create_base_dir.simps(2) Let_def if_True simp_thms)
    ultimately show ?thesis using "2.prems"(1) by blast
  next
    case False
    then obtain x r where xr: "?next = x # r" by (meson neq_Nil_conv)
    then have "x = CHR ''/''" by (simp add: dropWhile_eq_Cons_conv)
    with xr have nx: "?next = CHR ''/'' # r" by simp
    have "cs = ?seg @ CHR ''/'' # r" by (simp flip: nx)
    then have whole: "buff @ c # cs = ?buff @ CHR ''/'' # r" by simp
    obtain res w1 where m: "sys_mkdir ?buff w = (res, w1)" "res = None \<or> res = Some EEXIST"
      and w1: "no_fault w1" "files w1 = files w" "dirs w1 = insert ?buff (dirs w)"
      using sys_mkdir_ok [OF "2.prems"(1) "2.prems"(2) [OF whole]] parent
      unfolding has_parent_def by metis
    have "\<exists>w'. create_base_dir ?buff ?next w1 = (OK, w') \<and> no_fault w' \<and> files w' = files w1 \<and>
        dirs w1 \<subseteq> dirs w' \<and> has_parent w' (?buff @ ?next) \<and>
        (\<forall>q \<in> dirs w' - dirs w1. \<exists>r. ?buff @ ?next = q @ CHR ''/'' # r)"
      by (rule "2.IH" [OF refl False refl m(1) [symmetric]])
        (use m(2) w1 "2.prems"(2) whole nx in auto)
    then obtain w' where w': "create_base_dir ?buff ?next w1 = (OK, w')" "no_fault w'" "files w' = files w1"
        "dirs w1 \<subseteq> dirs w'" "has_parent w' (?buff @ ?next)"
        "\<forall>q \<in> dirs w' - dirs w1. \<exists>r. ?buff @ ?next = q @ CHR ''/'' # r"
      by blast
    have "create_base_dir buff (c # cs) w = (OK, w')"
      using False m w'(1) by (auto simp: create_base_dir.simps(2) Let_def)
    moreover have "\<exists>r. buff @ c # cs = q @ CHR ''/'' # r" if "q \<in> dirs w' - dirs w" for q
      using that w'(6) w1(3) whole nx by (cases "q = ?buff") auto
    ultimately show ?thesis using w'(2-5) w1 whole nx by auto
  qed
qed

subsection \<open>Reading a chunk id from a file name\<close>

text \<open>The C library's \<open>strtol(s, &ptr, 16)\<close>: the value and the string \<open>ptr\<close> points to.\<close>

definition is_space :: "char \<Rightarrow> bool" where
  "is_space c = (c \<in> {CHR 0x20, CHR 0x09, CHR 0x0A, CHR 0x0B, CHR 0x0C, CHR 0x0D})"

definition hex_val :: "char \<Rightarrow> nat option" where
  "hex_val c =
     (let n = of_char c in
      if 48 \<le> n \<and> n \<le> 57 then Some (n - 48)
      else if 65 \<le> n \<and> n \<le> 70 then Some (n - 55)
      else if 97 \<le> n \<and> n \<le> 102 then Some (n - 87) else None)"

fun read_hex :: "string \<Rightarrow> nat \<Rightarrow> nat \<times> string" where
  "read_hex [] n = (n, [])"
| "read_hex (c # cs) n =
     (case hex_val c of None \<Rightarrow> (n, c # cs) | Some d \<Rightarrow> read_hex cs (16 * n + d))"

definition strtol16 :: "string \<Rightarrow> int \<times> string" where
  "strtol16 s =
     (let t = dropWhile is_space s;
          (neg, t) = (case t of c # r \<Rightarrow> if c = CHR ''-'' then (True, r) else if c = CHR ''+'' then (False, r) else (False, t)
                      | [] \<Rightarrow> (False, t));
          t = (case t of a # x # d # r \<Rightarrow>
                  if a = CHR ''0'' \<and> x \<in> {CHR ''x'', CHR ''X''} \<and> hex_val d \<noteq> None then d # r else t
                | _ \<Rightarrow> t)
      in if t = [] \<or> hex_val (hd t) = None then (0, s)
         else let (n, r) = read_hex t 0
              in (max (- (2 ^ 63)) (min (2 ^ 63 - 1) (if neg then - int n else int n)), r))"

lemma hex_digit_props:
  "d < 16 \<Longrightarrow> hex_val (hex_digits ! d) = Some d \<and> hex_digits ! d \<noteq> CHR ''/'' \<and>
     \<not> is_space (hex_digits ! d) \<and> hex_digits ! d \<notin> {CHR ''-'', CHR ''+'', CHR ''x'', CHR ''X'', CHR ''.''}"
proof -
  assume "d < 16"
  then have "d \<in> set [0..<16]" by simp
  moreover have "\<forall>d \<in> set [0..<16]. hex_val (hex_digits ! d) = Some d \<and> hex_digits ! d \<noteq> CHR ''/'' \<and>
     \<not> is_space (hex_digits ! d) \<and> hex_digits ! d \<notin> {CHR ''-'', CHR ''+'', CHR ''x'', CHR ''X'', CHR ''.''}"
    by (simp add: upt_rec hex_val_def hex_digits_def is_space_def)
  ultimately show ?thesis by blast
qed

lemma to_hex_chars: "c \<in> set (to_hex n) \<Longrightarrow> \<exists>d < 16. c = hex_digits ! d"
proof (induction n rule: to_hex.induct)
  case (1 n)
  show ?case
  proof (cases "n < 16")
    case True
    then show ?thesis using "1.prems" by (auto simp: to_hex.simps [of n])
  next
    case False
    then have "c \<in> set (to_hex (n div 16)) \<or> c = hex_digits ! (n mod 16)"
      using "1.prems" by (auto simp: to_hex.simps [of n])
    then show ?thesis using "1.IH" [OF False] by (metis mod_less_divisor zero_less_numeral)
  qed
qed

lemma to_hex_nonempty [simp]: "to_hex n \<noteq> []"
  by (simp add: to_hex.simps [of n])

lemma to_hex_no_slash: "CHR ''/'' \<notin> set (to_hex n)"
  using to_hex_chars hex_digit_props by metis

lemma read_hex_append:
  "\<forall>c \<in> set s. hex_val c \<noteq> None \<Longrightarrow> read_hex (s @ t) n = read_hex t (fst (read_hex s n))"
  by (induction s arbitrary: n) (auto split: option.splits)

lemma read_hex_to_hex: "read_hex (to_hex n) 0 = (n, [])"
proof (induction n rule: to_hex.induct)
  case (1 n)
  show ?case
  proof (cases "n < 16")
    case True
    then show ?thesis using hex_digit_props by (simp add: to_hex.simps [of n])
  next
    case False
    have "\<forall>c \<in> set (to_hex (n div 16)). hex_val c \<noteq> None"
      using to_hex_chars hex_digit_props by (metis option.distinct(1))
    then show ?thesis
      using "1.IH" [OF False] False hex_digit_props [of "n mod 16"]
      by (simp add: to_hex.simps [of n] read_hex_append)
  qed
qed

lemma to_hex_inj: "to_hex m = to_hex n \<Longrightarrow> m = n"
  using read_hex_to_hex by (metis prod.inject)

lemma strtol16_to_hex:
  assumes "n < 2 ^ 63"
  shows "strtol16 (to_hex n) = (int n, [])"
proof -
  obtain c cs where s: "to_hex n = c # cs" by (cases "to_hex n") auto
  have dig: "\<exists>d < 16. x = hex_digits ! d" if "x \<in> set (c # cs)" for x
    using to_hex_chars that s by metis
  have c: "hex_val c \<noteq> None" "\<not> is_space c" "c \<noteq> CHR ''-''" "c \<noteq> CHR ''+''"
    using dig [of c] hex_digit_props by auto
  have x: "x \<in> set cs \<Longrightarrow> x \<noteq> CHR ''x'' \<and> x \<noteq> CHR ''X''" for x
    using dig [of x] hex_digit_props by auto
  have pre: "(case c # cs of a # x # d # r \<Rightarrow>
      if a = CHR ''0'' \<and> x \<in> {CHR ''x'', CHR ''X''} \<and> hex_val d \<noteq> None then d # r else c # cs
      | _ \<Rightarrow> c # cs) = c # cs"
    using x by (auto split: list.splits)
  have "read_hex (c # cs) 0 = (n, [])" using read_hex_to_hex [of n] s by simp
  then show ?thesis
    using assms c pre by (simp add: strtol16_def s Let_def del: read_hex.simps)
qed

subsection \<open>Chunk paths\<close>

lemma to_hex_length: "n < 16 ^ k \<Longrightarrow> 0 < k \<Longrightarrow> length (to_hex n) \<le> k"
proof (induction k arbitrary: n)
  case 0
  then show ?case by simp
next
  case (Suc k)
  show ?case
  proof (cases "n < 16")
    case True
    then show ?thesis by (simp add: to_hex.simps [of n])
  next
    case False
    then have "0 < k" using Suc.prems(1) by (cases k) auto
    moreover have "n div 16 < 16 ^ k" using Suc.prems(1) by (simp add: less_mult_imp_div_less mult.commute)
    ultimately show ?thesis using Suc.IH [of "n div 16"] False by (simp add: to_hex.simps [of n])
  qed
qed

text \<open>With a base path of this length no chunk path is cut off at \<open>PATH_MAX\<close>.\<close>

definition short_base :: "string \<Rightarrow> bool" where
  "short_base base = (length base \<le> 4000)"

lemma id_to_path_full:
  assumes "short_base base" and "i < 2 ^ 32"
  shows "id_to_path base i =
    base @ ''/'' @ to_hex (i mod 256) @ ''/'' @ to_hex ((i div 256) mod 256) @ ''/'' @ to_hex i"
proof -
  have "length (to_hex (i mod 256)) \<le> 2" "length (to_hex ((i div 256) mod 256)) \<le> 2"
    "length (to_hex i) \<le> 8"
    using assms(2) by (auto intro!: to_hex_length)
  then show ?thesis using assms(1) by (simp add: id_to_path_def short_base_def PATH_MAX_def)
qed

lemma last_segment_eq:
  assumes "a @ CHR ''/'' # s = b @ CHR ''/'' # t" and "CHR ''/'' \<notin> set s" and "CHR ''/'' \<notin> set t"
  shows "s = t"
proof -
  have "takeWhile (\<lambda>c. c \<noteq> CHR ''/'') (rev s @ CHR ''/'' # rev a) = rev s"
    using assms(2) by (subst takeWhile_append2) auto
  moreover have "takeWhile (\<lambda>c. c \<noteq> CHR ''/'') (rev t @ CHR ''/'' # rev b) = rev t"
    using assms(3) by (subst takeWhile_append2) auto
  moreover have "rev s @ CHR ''/'' # rev a = rev t @ CHR ''/'' # rev b"
    using arg_cong [OF assms(1), of rev] by simp
  ultimately show ?thesis by simp
qed

lemma id_to_path_inj:
  assumes "short_base base" "i < 2 ^ 32" "j < 2 ^ 32" and "id_to_path base i = id_to_path base j"
  shows "i = j"
proof -
  define p where "p k = base @ ''/'' @ to_hex (k mod 256) @ ''/'' @ to_hex ((k div 256) mod 256)" for k
  have "p i @ CHR ''/'' # to_hex i = p j @ CHR ''/'' # to_hex j"
    using assms(4) id_to_path_full [OF assms(1,2)] id_to_path_full [OF assms(1,3)] by (simp add: p_def)
  then have "to_hex i = to_hex j" by (rule last_segment_eq) (rule to_hex_no_slash)+
  then show ?thesis by (rule to_hex_inj)
qed

lemma count_slashes_id_to_path:
  assumes "short_base base" and "i < 2 ^ 32"
  shows "count_list (id_to_path base i) (CHR ''/'') = count_list base (CHR ''/'') + 3"
  by (simp add: id_to_path_full [OF assms] count_list_0_iff to_hex_no_slash)

lemma id_to_path_prefix:
  assumes "short_base base" "i < 2 ^ 32" "j < 2 ^ 32" and "id_to_path base i = q @ CHR ''/'' # r"
  shows "q \<noteq> id_to_path base j"
  using count_slashes_id_to_path [OF assms(1,2)] count_slashes_id_to_path [OF assms(1,3)]
  unfolding assms(4) by auto

lemma id_to_path_nonempty:
  "short_base base \<Longrightarrow> i < 2 ^ 32 \<Longrightarrow> id_to_path base i \<noteq> []"
  by (simp add: id_to_path_full)

subsection \<open>The loops when calls may fail\<close>

lemma read_loop_defined:
  assumes "off + max_size \<le> length buf" and "max_size < 2 ^ 32"
  shows "\<exists>res rest' m buf' sz' w'. read_loop wd rest max_size buf off sz w = Some (res, rest', m, buf', sz', w') \<and>
           same_fs w w' \<and> length buf' = length buf"
  using assms
proof (induction max_size arbitrary: rest buf off sz w rule: less_induct)
  case (less m)
  obtain res got rest' w' where r: "sys_read rest m w = (res, got, rest', w')" by (metis prod_cases4)
  have got: "res = int (length got) \<and> length got \<le> m \<or> res = -1 \<and> got = []" and fs: "same_fs w w'"
  proof -
    obtain c v where cv: "pop_choice w = (c, v)" by fastforce
    have "transfer c (min m (length rest)) \<le> min m (length rest)" by (rule transfer_le)
    then show "res = int (length got) \<and> length got \<le> m \<or> res = -1 \<and> got = []" "same_fs w w'"
      using r pop_choice_same_fs [OF cv] by (auto simp: sys_read_def cv Let_def split: if_splits)
  qed
  obtain buf' where b: "blit buf off got = Some buf'" "length buf' = length buf"
    using got less.prems(1) by (auto simp: blit_def)
  show ?case
  proof (cases "0 < wrap 32 (int m - res) \<and> 0 < res")
    case False
    then show ?thesis
      using b fs by (auto simp: read_loop.simps [of wd rest m] r Let_def)
  next
    case True
    then have m': "wrap 32 (int m - res) = m - length got" "0 < length got" "length got < m"
      using got less.prems(2) wrap_diff [of "length got" m 32] by auto
    have p: "m - length got < m" "off + length got + (m - length got) \<le> length buf'" "m - length got < 2 ^ 32"
      using m' b less.prems by auto
    have "nat res = length got" using got True by auto
    then show ?thesis
      using less.IH [OF p, of rest' "wrap wd (int sz + res)" w'] True b m' same_fs_trans [OF fs]
      by (force simp: read_loop.simps [of wd rest m] r Let_def)
  qed
qed

lemma write_loop_defined:
  assumes "n \<le> length src" and "n < 2 ^ 32" and "files w p \<noteq> None"
  shows "\<exists>res m w'. write_loop p src n w = Some (res, m, w') \<and> dirs w' = dirs w \<and>
           files w' p \<noteq> None \<and> (\<forall>q. q \<noteq> p \<longrightarrow> files w' q = files w q)"
  using assms
proof (induction n arbitrary: src w rule: less_induct)
  case (less n)
  obtain c v where cv: "pop_choice w = (c, v)" by fastforce
  have v: "files v = files w" "dirs v = dirs w"
    using pop_choice_same_fs [OF cv] by (auto simp: same_fs_def)
  show ?case
  proof (cases "c = Fault")
    case True
    then show ?thesis
      using v less.prems(3) by (simp add: write_loop.simps [of p src n] sys_write_def cv Let_def)
  next
    case False
    let ?k = "transfer c n"
    obtain d where d: "files w p = Some d" using less.prems(3) by blast
    let ?w = "v\<lparr>files := (files v)(p \<mapsto> d @ take ?k src)\<rparr>"
    have k: "?k \<le> n" by (rule transfer_le)
    have "sys_write p src n w = Some (int ?k, ?w)"
      using False k less.prems(1) d v by (simp add: sys_write_def cv Let_def slice_def)
    moreover have n': "wrap 32 (int n - int ?k) = n - ?k" using k less.prems(2) by (rule wrap_diff)
    ultimately have step: "write_loop p src n w =
        (if 0 < n - ?k \<and> 0 < ?k then write_loop p (drop ?k src) (n - ?k) ?w else Some (int ?k, n - ?k, ?w))"
      by (simp add: write_loop.simps [of p src] Let_def)
    show ?thesis
    proof (cases "0 < n - ?k \<and> 0 < ?k")
      case True
      then have p: "n - ?k < n" "n - ?k \<le> length (drop ?k src)" "n - ?k < 2 ^ 32" "files ?w p \<noteq> None"
        using less.prems by auto
      show ?thesis using less.IH [OF p] True v step by auto
    next
      case False
      then show ?thesis using v step by auto
    qed
  qed
qed

lemma create_base_dir_files: "create_base_dir buff p w = (err, w') \<Longrightarrow> files w' = files w"
proof (induction buff p w rule: create_base_dir.induct)
  case (1 buff w)
  then show ?case by simp
next
  case (2 buff c cs w)
  have m: "sys_mkdir b w = (r, v) \<Longrightarrow> files v = files w" for b r v
    using pop_choice_same_fs [of w]
    by (auto simp: sys_mkdir_def same_fs_def split: prod.splits if_splits)
  show ?case
    using "2.prems" "2.IH" m
    by (auto simp: create_base_dir.simps(2) Let_def split: if_splits prod.splits)
qed

end
