(* ===== verification/Chunk_Map.thy ===== *)
theory Chunk_Map
  imports Distfs_Prelude
begin

text \<open>
  The interface between a chunk store and its clients, as a locale. ChunkStore provides it
  for the raw file contents, CompressedStore for the decompressed contents; ChunkBuilder and
  ChunkProvider are clients. A store is seen as a finite map from chunk ids to contents.
  Writing a chunk may evict others (the set \<open>E\<close>); \<open>room s K\<close> says that all ids below \<open>K\<close>
  fit together, so that writing one of them evicts nothing. \<open>storable\<close> are the contents the
  store can hold.
\<close>

record 's chunk_ops =
  read_op :: "nat \<Rightarrow> bytes \<Rightarrow> nat \<Rightarrow> 's \<Rightarrow> (ErrorCode \<times> bytes \<times> nat \<times> 's) option"
  write_op :: "nat \<Rightarrow> bytes \<Rightarrow> nat \<Rightarrow> 's \<Rightarrow> (ErrorCode \<times> 's) option"
  avail_op :: "'s \<Rightarrow> nat set"
  remove_op :: "nat \<Rightarrow> 's \<Rightarrow> ErrorCode \<times> 's"

text \<open>The four operations as one value, and the laws its clients rely on.\<close>

locale chunk_map =
  fixes rd :: "nat \<Rightarrow> bytes \<Rightarrow> nat \<Rightarrow> 's \<Rightarrow> (ErrorCode \<times> bytes \<times> nat \<times> 's) option"
    and wr :: "nat \<Rightarrow> bytes \<Rightarrow> nat \<Rightarrow> 's \<Rightarrow> (ErrorCode \<times> 's) option"
    and avail :: "'s \<Rightarrow> nat set"
    and lookup :: "'s \<Rightarrow> nat \<Rightarrow> bytes option"
    and inv :: "'s \<Rightarrow> bool"
    and room :: "'s \<Rightarrow> nat \<Rightarrow> bool"
    and storable :: "bytes \<Rightarrow> bool"
  assumes read_ok:
    "inv s \<Longrightarrow> lookup s i = Some d \<Longrightarrow> CHUNK_SIZE_BYTES \<le> length buffer \<Longrightarrow>
       \<exists>s'. rd i buffer sz s = Some (OK, d @ drop (length d) buffer, length d, s') \<and> inv s' \<and>
         lookup s' = lookup s \<and> room s' = room s"
    and read_missing:
    "inv s \<Longrightarrow> i < 2 ^ 32 \<Longrightarrow> lookup s i = None \<Longrightarrow>
       \<exists>s'. rd i buffer sz s = Some (NOT_FOUND, buffer, sz, s') \<and> inv s' \<and>
         lookup s' = lookup s \<and> room s' = room s"
    and write_ok:
    "inv s \<Longrightarrow> i < 2 ^ 32 \<Longrightarrow> n \<le> length buffer \<Longrightarrow> storable (take n buffer) \<Longrightarrow>
       \<exists>s' E. wr i buffer n s = Some (OK, s') \<and> inv s' \<and> i \<notin> E \<and>
         lookup s' = (lookup s |` (- E))(i \<mapsto> take n buffer) \<and>
         (\<forall>K. room s K \<longrightarrow> i < K \<longrightarrow> E = {} \<and> room s' K)"
    and avail_dom: "inv s \<Longrightarrow> avail s = dom (lookup s)"
    and lookup_32: "inv s \<Longrightarrow> lookup s i = Some d \<Longrightarrow> i < 2 ^ 32"
    and lookup_length: "inv s \<Longrightarrow> lookup s i = Some d \<Longrightarrow> length d \<le> CHUNK_SIZE_BYTES"
    and storable_length: "storable d \<Longrightarrow> length d \<le> CHUNK_SIZE_BYTES"
begin

text \<open>Writing with room for the chunk is a plain map update, and what was written is read back.\<close>

lemma write_room:
  assumes "inv s" "room s K" "i < K" "i < 2 ^ 32" "n \<le> length buffer" "storable (take n buffer)"
  obtains s' where "wr i buffer n s = Some (OK, s')" and "inv s'" and "room s' K"
    and "lookup s' = (lookup s)(i \<mapsto> take n buffer)"
proof -
  obtain s' E where w: "wr i buffer n s = Some (OK, s')" "inv s'"
      "lookup s' = (lookup s |` (- E))(i \<mapsto> take n buffer)"
      "\<forall>K. room s K \<longrightarrow> i < K \<longrightarrow> E = {} \<and> room s' K"
    using write_ok [OF assms(1,4,5,6)] by blast
  with assms(2,3) have "E = {}" "room s' K" by auto
  with w show thesis by (intro that) auto
qed

lemma read_after_write:
  assumes "inv s" "i < 2 ^ 32" "n \<le> length buffer" "storable (take n buffer)"
    and "CHUNK_SIZE_BYTES \<le> length buffer'"
  shows "\<exists>s' s''. wr i buffer n s = Some (OK, s') \<and>
    rd i buffer' sz s' = Some (OK, take n buffer @ drop n buffer', n, s'')"
proof -
  obtain s' E where w: "wr i buffer n s = Some (OK, s')" "inv s'"
      "lookup s' = (lookup s |` (- E))(i \<mapsto> take n buffer)"
    using write_ok [OF assms(1-4)] by blast
  then have "lookup s' i = Some (take n buffer)" by simp
  from read_ok [OF w(2) this assms(5), of sz] show ?thesis using w(1) assms(3) by auto
qed

end

text \<open>
  A store beside an environment it does not touch, which is \<open>good\<close>, is the same chunk map.
\<close>

definition env_read ::
    "(nat \<Rightarrow> bytes \<Rightarrow> nat \<Rightarrow> 's \<Rightarrow> (ErrorCode \<times> bytes \<times> nat \<times> 's) option) \<Rightarrow>
     nat \<Rightarrow> bytes \<Rightarrow> nat \<Rightarrow> 's \<times> 'e \<Rightarrow> (ErrorCode \<times> bytes \<times> nat \<times> 's \<times> 'e) option" where
  "env_read rd i buffer sz x =
     map_option (\<lambda>(err, buffer', n, s). (err, buffer', n, s, snd x)) (rd i buffer sz (fst x))"

definition env_write ::
    "(nat \<Rightarrow> bytes \<Rightarrow> nat \<Rightarrow> 's \<Rightarrow> (ErrorCode \<times> 's) option) \<Rightarrow>
     nat \<Rightarrow> bytes \<Rightarrow> nat \<Rightarrow> 's \<times> 'e \<Rightarrow> (ErrorCode \<times> 's \<times> 'e) option" where
  "env_write wr i buffer n x = map_option (\<lambda>(err, s). (err, s, snd x)) (wr i buffer n (fst x))"

context chunk_map
begin

lemma env_chunk_map:
  "chunk_map (env_read rd) (env_write wr) (\<lambda>x. avail (fst x)) (\<lambda>x. lookup (fst x)) (\<lambda>x. inv (fst x) \<and> good (snd x))
     (\<lambda>x. room (fst x)) storable"
proof (unfold_locales, goal_cases)
  case (1 x i d buffer sz)
  then show ?case using read_ok [of "fst x" i d buffer sz] by (fastforce simp: env_read_def)
next
  case (2 x i buffer sz)
  then show ?case using read_missing [of "fst x" i buffer sz] by (fastforce simp: env_read_def)
next
  case (3 x i n buffer)
  then obtain s' E where "wr i buffer n (fst x) = Some (OK, s')" "inv s'" "i \<notin> E"
      "lookup s' = (lookup (fst x) |` (- E))(i \<mapsto> take n buffer)"
      "\<forall>K. room (fst x) K \<longrightarrow> i < K \<longrightarrow> E = {} \<and> room s' K"
    using write_ok [of "fst x" i n buffer] by blast
  then show ?case using 3 by (intro exI [of _ "(s', snd x)"] exI [of _ E]) (simp add: env_write_def)
next
  case (4 x)
  then show ?case by (simp add: avail_dom)
next
  case (5 x i d)
  then show ?case using lookup_32 [of "fst x" i d] by simp
next
  case (6 x i d)
  then show ?case using lookup_length [of "fst x" i d] by simp
next
  case (7 d)
  then show ?case by (rule storable_length)
qed

end

end
