(* ===== verification/Lru_Collector.thy ===== *)
theory Lru_Collector
  imports Distfs_Prelude
begin

text \<open>
  common/lru_collector.cc. The collector keeps a list of chunk ids, most recently used
  first, and a map from an id to its node of the list. A node is modelled by its address
  and its value, so that an iterator is an address and \<open>erase(it)\<close> removes that very node;
  erasing a dangling iterator and \<open>back()\<close> of an empty list are undefined (\<open>None\<close>). The
  \<open>remover\<close> callback acts on the state \<open>'w\<close> of the object that owns the collector.
\<close>

subsection \<open>State and operations\<close>

record LruCollector =
  lru_size :: nat
  queue :: "(nat \<times> nat) list"
  iterators :: "nat \<rightharpoonup> nat"
  next_node :: nat

definition lru_new :: "nat \<Rightarrow> LruCollector" where
  "lru_new sz = \<lparr>lru_size = sz, queue = [], iterators = Map.empty, next_node = 0\<rparr>"

definition list_erase :: "(nat \<times> nat) list \<Rightarrow> nat \<Rightarrow> (nat \<times> nat) list option" where
  "list_erase q it =
     (if it \<in> fst ` set q then Some (filter (\<lambda>n. fst n \<noteq> it) q) else None)"

definition push_front :: "nat \<Rightarrow> LruCollector \<Rightarrow> LruCollector" where
  "push_front i c =
     c\<lparr>queue := (next_node c, i) # queue c,
       iterators := (iterators c)(i \<mapsto> next_node c),
       next_node := Suc (next_node c)\<rparr>"

definition lru_update ::
    "(nat \<Rightarrow> 'w \<Rightarrow> 'w) \<Rightarrow> nat \<Rightarrow> LruCollector \<Rightarrow> 'w \<Rightarrow> (LruCollector \<times> 'w) option" where
  "lru_update remover i c w =
     (case iterators c i of
        None \<Rightarrow>
          if lru_size c \<le> length (queue c) then
            (if queue c = [] then None
             else let last_id = snd (last (queue c));
                      c' = c\<lparr>queue := butlast (queue c),
                             iterators := (iterators c)(last_id := None)\<rparr>
                  in Some (push_front i c', remover last_id w))
          else Some (push_front i c, w)
      | Some it \<Rightarrow>
          (case list_erase (queue c) it of
             None \<Rightarrow> None
           | Some q \<Rightarrow> Some (push_front i (c\<lparr>queue := q\<rparr>), w)))"

definition lru_remove :: "nat \<Rightarrow> LruCollector \<Rightarrow> LruCollector" where
  "lru_remove i c = c\<lparr>iterators := (iterators c)(i := None)\<rparr>"

subsection \<open>Invariant\<close>

text \<open>The ids the collector holds, most recently used first.\<close>

definition lru_ids :: "LruCollector \<Rightarrow> nat list" where
  "lru_ids c = map snd (queue c)"

text \<open>
  Node addresses are distinct and older than the next one to be allocated, ids are distinct,
  and the iterator map is exactly the inverse of the list.
\<close>

definition lru_inv :: "LruCollector \<Rightarrow> bool" where
  "lru_inv c \<longleftrightarrow>
     distinct (map fst (queue c)) \<and> distinct (lru_ids c) \<and>
     (\<forall>n \<in> set (queue c). fst n < next_node c) \<and>
     (\<forall>i it. iterators c i = Some it \<longleftrightarrow> (it, i) \<in> set (queue c)) \<and>
     length (queue c) \<le> lru_size c"

text \<open>The recency list alone: what an update makes of it, and the id it evicts.\<close>

definition recency_update :: "nat \<Rightarrow> nat \<Rightarrow> nat list \<Rightarrow> nat list \<times> nat option" where
  "recency_update sz i ids =
     (if i \<in> set ids then (i # remove1 i ids, None)
      else if sz \<le> length ids then (i # butlast ids, Some (last ids))
      else (i # ids, None))"

lemma lru_inv_new [simp]: "lru_inv (lru_new sz)"
  by (simp add: lru_inv_def lru_new_def lru_ids_def)

lemma lru_ids_new [simp]: "lru_ids (lru_new sz) = []"
  by (simp add: lru_new_def lru_ids_def)

lemma lru_size_new [simp]: "lru_size (lru_new sz) = sz"
  by (simp add: lru_new_def)

lemma lru_ids_push_front [simp]: "lru_ids (push_front i c) = i # lru_ids c"
  by (simp add: lru_ids_def push_front_def)

lemma lru_size_push_front [simp]: "lru_size (push_front i c) = lru_size c"
  by (simp add: push_front_def)

lemma lru_ids_distinct: "lru_inv c \<Longrightarrow> distinct (lru_ids c)"
  by (simp add: lru_inv_def)

lemma lru_ids_bound: "lru_inv c \<Longrightarrow> length (lru_ids c) \<le> lru_size c"
  by (simp add: lru_inv_def lru_ids_def)

lemma lru_iterators_iff:
  assumes "lru_inv c"
  shows "iterators c i = None \<longleftrightarrow> i \<notin> set (lru_ids c)"
proof -
  have "i \<in> set (lru_ids c) \<longleftrightarrow> (\<exists>it. (it, i) \<in> set (queue c))"
    by (force simp: lru_ids_def)
  then show ?thesis
    using assms by (metis lru_inv_def option.exhaust option.distinct(1))
qed

text \<open>Pushing a fresh id keeps the invariant when there is room for it.\<close>

lemma lru_inv_push_front:
  assumes inv: "lru_inv c" and new: "i \<notin> set (lru_ids c)" and room: "length (queue c) < lru_size c"
  shows "lru_inv (push_front i c)"
proof -
  have old: "\<And>it. (it, i) \<notin> set (queue c)" using new by (force simp: lru_ids_def)
  have "next_node c \<notin> fst ` set (queue c)" using inv by (auto simp: lru_inv_def)
  then show ?thesis
    using inv new room old
    by (auto simp: lru_inv_def push_front_def lru_ids_def less_Suc_eq)
qed

lemma filter_node_remove1:
  assumes "distinct (map fst q)" "distinct (map snd q)" "(it, i) \<in> set q"
  shows "map snd (filter (\<lambda>n. fst n \<noteq> it) q) = remove1 i (map snd q)"
  using assms
proof (induction q)
  case Nil
  then show ?case by simp
next
  case (Cons n q)
  show ?case
  proof (cases "fst n = it")
    case True
    have "n = (it, i)"
    proof (rule ccontr)
      assume "n \<noteq> (it, i)"
      with Cons.prems(3) have "it \<in> set (map fst q)" by force
      with Cons.prems(1) True show False by simp
    qed
    moreover have "filter (\<lambda>n. fst n \<noteq> it) q = q"
      using Cons.prems(1) True by (auto simp: filter_id_conv image_iff)
    ultimately show ?thesis by simp
  next
    case False
    then have "(it, i) \<in> set q" using Cons.prems(3) by auto
    moreover from this have "i \<in> set (map snd q)" by force
    with Cons.prems(2) have "snd n \<noteq> i" by auto
    ultimately show ?thesis using Cons False by simp
  qed
qed

text \<open>A hit: the node is removed and pushed again at the front.\<close>

lemma lru_update_hit:
  assumes inv: "lru_inv c" and hit: "i \<in> set (lru_ids c)"
  obtains c' where "lru_update remover i c w = Some (c', w)" and "lru_inv c'"
    and "lru_ids c' = i # remove1 i (lru_ids c)" and "lru_size c' = lru_size c"
proof -
  obtain it where it: "(it, i) \<in> set (queue c)" "iterators c i = Some it"
    using inv hit by (auto simp: lru_inv_def lru_ids_def)
  let ?q = "filter (\<lambda>n. fst n \<noteq> it) (queue c)"
  let ?c = "push_front i (c\<lparr>queue := ?q\<rparr>)"
  have d: "distinct (map fst (queue c))" "distinct (map snd (queue c))"
    using inv by (auto simp: lru_inv_def lru_ids_def)
  have ids: "map snd ?q = remove1 i (map snd (queue c))"
    by (rule filter_node_remove1 [OF d it(1)])
  have len: "length ?q < length (queue c)"
    using it(1) by (intro length_filter_less [of "(it, i)"]) auto
  have upd: "lru_update remover i c w = Some (?c, w)"
    using it by (force simp: lru_update_def list_erase_def)
  have dids: "distinct (remove1 i (map snd (queue c)))" "i \<notin> set (remove1 i (map snd (queue c)))"
    using d(2) by simp_all
  have other: "(k, v) \<in> set (queue c) \<Longrightarrow> (k \<noteq> it) = (v \<noteq> i)" for k v
    using d it(1) by (metis (no_types, lifting) eq_key_imp_eq_value inj_on_eq_iff distinct_map prod.inject snd_conv)
  have "lru_inv ?c"
    using inv len dids ids other it
    by (auto simp: lru_inv_def push_front_def lru_ids_def distinct_map_filter less_Suc_eq)
  with upd ids show thesis
    by (intro that [of ?c]) (auto simp: lru_ids_def push_front_def)
qed

text \<open>A miss with room left, and a miss that evicts the least recently used id.\<close>

lemma lru_update_room:
  assumes inv: "lru_inv c" and miss: "i \<notin> set (lru_ids c)"
    and room: "length (lru_ids c) < lru_size c"
  shows "lru_update remover i c w = Some (push_front i c, w)" and "lru_inv (push_front i c)"
proof -
  have "iterators c i = None" using lru_iterators_iff [OF inv] miss by simp
  then show "lru_update remover i c w = Some (push_front i c, w)"
    using room by (simp add: lru_update_def lru_ids_def)
  show "lru_inv (push_front i c)"
    using inv miss room by (intro lru_inv_push_front) (auto simp: lru_ids_def)
qed

lemma lru_inv_drop_last:
  assumes inv: "lru_inv c" and ne: "queue c \<noteq> []"
  defines "c' \<equiv> c\<lparr>queue := butlast (queue c), iterators := (iterators c)(snd (last (queue c)) := None)\<rparr>"
  shows "lru_inv c'" and "lru_ids c' = butlast (lru_ids c)"
proof -
  obtain q l where q: "queue c = q @ [l]" using ne by (metis append_butlast_last_id)
  show "lru_ids c' = butlast (lru_ids c)"
    by (simp add: c'_def lru_ids_def map_butlast)
  show "lru_inv c'"
    using inv by (cases l) (force simp: c'_def q lru_inv_def lru_ids_def)
qed

lemma lru_update_evict:
  assumes inv: "lru_inv c" and miss: "i \<notin> set (lru_ids c)"
    and full: "length (lru_ids c) = lru_size c" and size: "0 < lru_size c"
  obtains c' where "lru_update remover i c w = Some (c', remover (last (lru_ids c)) w)"
    and "lru_inv c'" and "lru_ids c' = i # butlast (lru_ids c)" and "lru_size c' = lru_size c"
proof -
  let ?l = "snd (last (queue c))"
  let ?c = "c\<lparr>queue := butlast (queue c), iterators := (iterators c)(?l := None)\<rparr>"
  have ne: "queue c \<noteq> []" using full size by (auto simp: lru_ids_def)
  have it: "iterators c i = None" using lru_iterators_iff [OF inv] miss by simp
  have l: "last (lru_ids c) = ?l" using ne by (simp add: lru_ids_def last_map)
  note drop = lru_inv_drop_last [OF inv ne]
  have "i \<notin> set (lru_ids ?c)" using miss in_set_butlastD drop(2) by fastforce
  moreover have "length (queue ?c) < lru_size ?c" using full size by (auto simp: lru_ids_def)
  ultimately have "lru_inv (push_front i ?c)" using drop(1) by (intro lru_inv_push_front)
  then show thesis
    using it full ne l drop(2)
    by (intro that [of "push_front i ?c"]) (auto simp: lru_update_def lru_ids_def Let_def push_front_def)
qed

subsection \<open>Refinement to the recency list\<close>

lemma lru_update_recency:
  assumes inv: "lru_inv c" and size: "0 < lru_size c"
    and spec: "recency_update (lru_size c) i (lru_ids c) = (ids, ev)"
  shows "\<exists>c'. lru_update remover i c w =
           Some (c', case ev of None \<Rightarrow> w | Some l \<Rightarrow> remover l w) \<and>
         lru_inv c' \<and> lru_ids c' = ids \<and> lru_size c' = lru_size c"
proof (cases "i \<in> set (lru_ids c)")
  case True
  then have "ids = i # remove1 i (lru_ids c)" "ev = None"
    using spec by (auto simp: recency_update_def)
  with lru_update_hit [OF inv True, of remover w] show ?thesis by (metis option.simps(4))
next
  case miss: False
  show ?thesis
  proof (cases "length (lru_ids c) < lru_size c")
    case True
    then have "ids = i # lru_ids c" "ev = None"
      using spec miss by (auto simp: recency_update_def)
    with lru_update_room(1) [OF inv miss True, of remover w] lru_update_room(2) [OF inv miss True]
    show ?thesis by simp
  next
    case False
    with lru_ids_bound [OF inv] have full: "length (lru_ids c) = lru_size c" by simp
    then have "ids = i # butlast (lru_ids c)" "ev = Some (last (lru_ids c))"
      using spec miss by (auto simp: recency_update_def)
    with lru_update_evict [OF inv miss full size, of remover w] show ?thesis
      by (metis option.simps(5))
  qed
qed

lemma recency_update_members:
  assumes "recency_update sz i ids = (ids', ev)" and "distinct ids" and "length ids \<le> sz" and "0 < sz"
  shows "set ids' = insert i (set ids) - set_option ev"
    and "ev = Some l \<Longrightarrow> l \<in> set ids \<and> l \<noteq> i \<and> i \<notin> set ids \<and> length ids = sz"
proof -
  have last: "ids \<noteq> [] \<Longrightarrow> set (butlast ids) = set ids - {last ids} \<and> last ids \<in> set ids"
    using assms(2) by (cases ids rule: rev_cases) auto
  consider (hit) "i \<in> set ids" "ids' = i # remove1 i ids" "ev = None"
    | (full) "i \<notin> set ids" "length ids = sz" "ids \<noteq> []" "ids' = i # butlast ids" "ev = Some (last ids)"
    | (room) "i \<notin> set ids" "ids' = i # ids" "ev = None"
  proof (cases "i \<in> set ids")
    case True
    with assms(1) show thesis by (intro hit) (simp_all add: recency_update_def)
  next
    case miss: False
    show thesis
    proof (cases "sz \<le> length ids")
      case True
      with miss assms show thesis by (intro full) (auto simp: recency_update_def)
    next
      case False
      with miss assms(1) show thesis by (intro room) (simp_all add: recency_update_def)
    qed
  qed
  then have "set ids' = insert i (set ids) - set_option ev \<and>
      (ev = Some l \<longrightarrow> l \<in> set ids \<and> l \<noteq> i \<and> i \<notin> set ids \<and> length ids = sz)"
  proof cases
    case hit
    then show ?thesis using assms(2) by auto
  next
    case full
    have ne: "last ids \<noteq> i" using full(1,3) last_in_set by metis
    have "set ids' = insert i (set ids - {last ids})" using full(4) last [OF full(3)] by simp
    then show ?thesis using full(1,2,5) last [OF full(3)] ne by auto
  next
    case room
    then show ?thesis by auto
  qed
  then show "set ids' = insert i (set ids) - set_option ev"
    and "ev = Some l \<Longrightarrow> l \<in> set ids \<and> l \<noteq> i \<and> i \<notin> set ids \<and> length ids = sz"
    by blast+
qed

subsection \<open>A sequence of updates\<close>

fun lru_run :: "(nat \<Rightarrow> 'w \<Rightarrow> 'w) \<Rightarrow> nat list \<Rightarrow> LruCollector \<Rightarrow> 'w \<Rightarrow> (LruCollector \<times> 'w) option" where
  "lru_run remover [] c w = Some (c, w)"
| "lru_run remover (i # is) c w =
     (case lru_update remover i c w of None \<Rightarrow> None | Some (c', w') \<Rightarrow> lru_run remover is c' w')"

lemma filter_take_hit:
  assumes "distinct xs" "x \<in> set (take n xs)"
  shows "filter (\<lambda>y. y \<noteq> x) (take n xs) = take (n - 1) (filter (\<lambda>y. y \<noteq> x) xs)"
proof -
  obtain as bs where t: "take n xs = as @ x # bs"
    using assms(2) by (meson split_list)
  let ?cs = "drop n xs"
  have xs: "xs = as @ x # bs @ ?cs"
    using t append_take_drop_id [of n xs] by simp
  have "x \<notin> set as" "x \<notin> set bs" "x \<notin> set ?cs"
    using assms(1) arg_cong [OF xs, of distinct] by auto
  then have id: "filter (\<lambda>y. y \<noteq> x) as = as" "filter (\<lambda>y. y \<noteq> x) bs = bs"
      "filter (\<lambda>y. y \<noteq> x) ?cs = ?cs"
    by (auto simp: filter_id_conv)
  have f: "filter (\<lambda>y. y \<noteq> x) xs = as @ bs @ ?cs"
    using arg_cong [OF xs, of "filter (\<lambda>y. y \<noteq> x)"] id by simp
  have "length (take n xs) = Suc (length as + length bs)" by (simp add: t)
  then have "length (as @ bs) = n - 1 \<or> length (as @ bs) \<le> n - 1 \<and> ?cs = []"
    by (cases "n \<le> length xs") auto
  then show ?thesis by (auto simp: t f id)
qed

lemma recency_update_take:
  assumes "distinct xs" and "0 < sz"
  shows "fst (recency_update sz x (take sz xs)) = take sz (x # filter (\<lambda>y. y \<noteq> x) xs)"
proof (cases "x \<in> set (take sz xs)")
  case True
  have "remove1 x (take sz xs) = filter (\<lambda>y. y \<noteq> x) (take sz xs)"
    using assms(1) by (simp add: distinct_remove1_removeAll removeAll_filter_not_eq neq_commute)
  then show ?thesis
    using True filter_take_hit [OF assms(1) True] assms(2)
    by (cases sz) (simp_all add: recency_update_def)
next
  case False
  have "filter (\<lambda>y. y \<noteq> x) (take sz xs) = take sz xs"
    using False by (auto simp: filter_id_conv)
  then have f: "filter (\<lambda>y. y \<noteq> x) xs = take sz xs @ filter (\<lambda>y. y \<noteq> x) (drop sz xs)"
    by (metis append_take_drop_id filter_append)
  show ?thesis
  proof (cases "sz \<le> length xs")
    case True
    then have "butlast (take sz xs) = take (sz - 1) xs" by (simp add: butlast_take)
    moreover have "take (sz - 1) (filter (\<lambda>y. y \<noteq> x) xs) = take (sz - 1) xs"
      using True by (simp add: f min_def)
    ultimately show ?thesis
      using False True assms(2) by (cases sz) (simp_all add: recency_update_def)
  next
    case short: False
    then have "filter (\<lambda>y. y \<noteq> x) xs = xs" using f by simp
    with False short assms(2) show ?thesis
      by (cases sz) (simp_all add: recency_update_def)
  qed
qed

text \<open>
  After any sequence of updates from an empty collector the list holds the most recently
  used distinct ids, newest first, as many as fit.
\<close>

lemma lru_run_recent:
  assumes "lru_inv c" and "0 < lru_size c"
  shows "\<exists>c' w'. lru_run remover is c w = Some (c', w') \<and> lru_inv c' \<and> lru_size c' = lru_size c \<and>
           lru_ids c' = foldl (\<lambda>ids i. fst (recency_update (lru_size c) i ids)) (lru_ids c) is"
  using assms
proof (induction "is" arbitrary: c w)
  case Nil
  then show ?case by simp
next
  case (Cons i "is")
  obtain ids ev where r: "recency_update (lru_size c) i (lru_ids c) = (ids, ev)" by fastforce
  from lru_update_recency [OF Cons.prems r, of remover w] obtain c' where
    u: "lru_update remover i c w = Some (c', case ev of None \<Rightarrow> w | Some l \<Rightarrow> remover l w)"
    and c': "lru_inv c'" "lru_ids c' = ids" "lru_size c' = lru_size c" by auto
  have "0 < lru_size c'" using c'(3) Cons.prems(2) by simp
  from Cons.IH [OF c'(1) this] show ?case using u c' r by simp
qed

lemma recency_run_take:
  assumes "0 < sz"
  shows "foldl (\<lambda>ids i. fst (recency_update sz i ids)) [] is = take sz (rev (remdups is))"
proof (induction "is" rule: rev_induct)
  case Nil
  then show ?case by simp
next
  case (snoc x xs)
  have "remdups (xs @ [x]) = filter (\<lambda>y. y \<noteq> x) (remdups xs) @ [x]"
    by (induction xs) auto
  then have r: "rev (remdups (xs @ [x])) = x # filter (\<lambda>y. y \<noteq> x) (rev (remdups xs))"
    by (simp add: rev_filter)
  show ?case
    using recency_update_take [of "rev (remdups xs)" sz x] assms by (simp add: snoc r)
qed

subsection \<open>The interface its clients rely on\<close>

text \<open>
  ChunkStore and ChunkProvider use a collector in the same way: they keep a set of keys, let
  the remover delete a key, and call \<open>update\<close> for the key in use. What they rely on is that
  the members behave as a recency list of bounded length.
\<close>

locale eviction_cache =
  fixes update :: "(nat \<Rightarrow> 'w \<Rightarrow> 'w) \<Rightarrow> nat \<Rightarrow> 'c \<Rightarrow> 'w \<Rightarrow> ('c \<times> 'w) option"
    and members :: "'c \<Rightarrow> nat list"
    and inv :: "'c \<Rightarrow> bool"
    and capacity :: "'c \<Rightarrow> nat"
  assumes update_recency:
    "inv c \<Longrightarrow> 0 < capacity c \<Longrightarrow> recency_update (capacity c) i (members c) = (ids, ev) \<Longrightarrow>
       \<exists>c'. update remover i c w = Some (c', case ev of None \<Rightarrow> w | Some l \<Rightarrow> remover l w) \<and>
         inv c' \<and> members c' = ids \<and> capacity c' = capacity c"
    and members_distinct: "inv c \<Longrightarrow> distinct (members c)"
    and members_bounded: "inv c \<Longrightarrow> length (members c) \<le> capacity c"
begin

text \<open>
  An update either leaves the client alone or removes one key, never the updated one, and
  only when the collector is full. The keys stay among the members.
\<close>

lemma update_client:
  assumes c: "inv c" "0 < capacity c"
    and rem: "\<And>l. l \<in> set (members c) \<Longrightarrow> keys (remover l w) = keys w - {l}"
    and sub: "keys w \<subseteq> insert i (set (members c))"
  shows "\<exists>c' w'. update remover i c w = Some (c', w') \<and> inv c' \<and> capacity c' = capacity c \<and>
    i \<in> set (members c') \<and> keys w' \<subseteq> set (members c') \<and>
    (w' = w \<and> set (members c') = insert i (set (members c)) \<or>
      (\<exists>l. w' = remover l w \<and> l \<in> set (members c) \<and> l \<noteq> i \<and> i \<notin> set (members c) \<and>
         length (members c) = capacity c \<and> set (members c') = insert i (set (members c)) - {l}))"
proof -
  obtain ids ev where r: "recency_update (capacity c) i (members c) = (ids, ev)" by fastforce
  obtain c' where
    u: "update remover i c w = Some (c', case ev of None \<Rightarrow> w | Some l \<Rightarrow> remover l w)"
    and c': "inv c'" "members c' = ids" "capacity c' = capacity c"
    using update_recency [OF c r, of remover w] by blast
  note m = recency_update_members [OF r members_distinct [OF c(1)] members_bounded [OF c(1)] c(2)]
  show ?thesis
  proof (cases ev)
    case None
    then show ?thesis using u c' m(1) sub by (intro exI [of _ c'] exI [of _ w]) auto
  next
    case (Some l)
    note l = m(2) [OF Some]
    have "keys (remover l w) \<subseteq> set ids" using rem [of l] l sub m(1) Some by auto
    then show ?thesis
      using u c' m(1) Some l by (intro exI [of _ c'] exI [of _ "remover l w"]) auto
  qed
qed

lemma keys_bounded:
  assumes "inv c" and "K \<subseteq> set (members c)"
  shows "finite K" and "card K \<le> capacity c"
proof -
  show "finite K" using assms(2) finite_subset by blast
  have "card K \<le> card (set (members c))" using assms(2) by (intro card_mono) auto
  also have "\<dots> \<le> capacity c"
    using members_bounded [OF assms(1)] card_length le_trans by blast
  finally show "card K \<le> capacity c" .
qed

end

interpretation lru: eviction_cache lru_update lru_ids lru_inv lru_size
proof unfold_locales
  show "lru_inv c \<Longrightarrow> 0 < lru_size c \<Longrightarrow> recency_update (lru_size c) i (lru_ids c) = (ids, ev) \<Longrightarrow>
      \<exists>c'. lru_update remover i c w = Some (c', case ev of None \<Rightarrow> w | Some l \<Rightarrow> remover l w) \<and>
        lru_inv c' \<and> lru_ids c' = ids \<and> lru_size c' = lru_size c"
    for c i ids ev and remover :: "nat \<Rightarrow> 'w \<Rightarrow> 'w" and w
    by (rule lru_update_recency)
qed (rule lru_ids_distinct lru_ids_bound, assumption)+

lemma lru_update_defined:
  assumes "lru_inv c"
  shows "lru_update remover i c w = None \<longleftrightarrow> lru_size c = 0"
proof (cases "lru_size c = 0")
  case True
  then have "queue c = []" "iterators c i = None"
    using assms lru_iterators_iff [OF assms, of i] lru_ids_bound [OF assms] by (auto simp: lru_ids_def)
  then show ?thesis using True by (simp add: lru_update_def)
next
  case False
  obtain ids ev where r: "recency_update (lru_size c) i (lru_ids c) = (ids, ev)" by fastforce
  show ?thesis using lru_update_recency [OF assms _ r, of remover w] False by auto
qed

subsection \<open>Properties\<close>

text \<open>
  C23: On a collector in a consistent state with a positive size, \<open>update\<close> behaves as an
  update of the recency list: the id moves to (or enters at) the front, and exactly when the
  list is full and the id is new, the least recently used id leaves it and is handed to the
  remover. The pointers between list and map stay consistent.
\<close>

theorem lru_update_refines_recency_list:
  assumes "lru_inv c" and "0 < lru_size c"
    and "recency_update (lru_size c) i (lru_ids c) = (ids, ev)"
  shows "\<exists>c'. lru_update remover i c w =
           Some (c', case ev of None \<Rightarrow> w | Some l \<Rightarrow> remover l w) \<and>
         lru_inv c' \<and> lru_ids c' = ids \<and> lru_size c' = lru_size c"
  using assms by (rule lru.update_recency)

lemma lru_example_run:
  "lru_run (#) [1, 2] (lru_new 2) [] =
     Some (\<lparr>lru_size = 2, queue = [(1, 2), (0, 1)], iterators = [1 \<mapsto> 0, 2 \<mapsto> 1], next_node = 2\<rparr>, [])"
  by (simp add: lru_new_def lru_update_def push_front_def)

lemma lru_inv_example:
  "lru_inv \<lparr>lru_size = 2, queue = [(1, 2), (0, 1)], iterators = [1 \<mapsto> 0, 2 \<mapsto> 1], next_node = 2\<rparr>"
  by (auto simp: lru_inv_def lru_ids_def)

theorem lru_update_refines_recency_list_witness:
  "\<exists>c'. lru_update (#) 7
      \<lparr>lru_size = 2, queue = [(1, 2), (0, 1)], iterators = [1 \<mapsto> 0, 2 \<mapsto> 1], next_node = 2\<rparr> [] =
        Some (c', [1]) \<and> lru_ids c' = [7, 2]"
  using lru_update_refines_recency_list [OF lru_inv_example, of 7 "[7, 2]" "Some 1" "(#)" "[]"]
  by (auto simp: recency_update_def lru_ids_def)

text \<open>
  Starting from an empty collector of positive size, any sequence of updates runs
  without undefined behaviour and leaves exactly the most recently used distinct ids, newest
  first, as many as the size allows: the eviction order is least recently used first.
\<close>

theorem lru_run_keeps_most_recent:
  assumes "0 < sz"
  shows "\<exists>c' w'. lru_run remover is (lru_new sz) w = Some (c', w') \<and> lru_inv c' \<and>
           lru_ids c' = take sz (rev (remdups is))"
  using lru_run_recent [of "lru_new sz" remover "is" w] recency_run_take [OF assms] assms by auto

theorem lru_run_keeps_most_recent_witness:
  "\<exists>c' w'. lru_run (#) [5, 6, 5, 8] (lru_new 2) [] = Some (c', w') \<and> lru_inv c' \<and> lru_ids c' = [8, 5]"
  using lru_run_keeps_most_recent [of 2 "(#)" "[5, 6, 5, 8]" "[]"] by simp

text \<open>
  \<open>update\<close> on a consistent collector is undefined exactly for a collector of size zero,
  where \<open>queue.back()\<close> is called on an empty list.
\<close>

theorem lru_update_undefined_iff_size_zero:
  assumes "lru_inv c"
  shows "lru_update remover i c w = None \<longleftrightarrow> lru_size c = 0"
  using assms by (rule lru_update_defined)

theorem lru_update_undefined_iff_size_zero_witness:
  "lru_update (#) 3 (lru_new 0) [] = None"
  using lru_update_undefined_iff_size_zero [of "lru_new 0" "(#)" 3 "[]"] by simp

text \<open>
  \<open>LruCollector::remove\<close> forgets the iterator but leaves the node in the list, so the
  next use of the removed id, while there is room, puts the id into the list a second time.
\<close>

theorem lru_remove_duplicates_reused_id:
  assumes "lru_inv c" and "i \<in> set (lru_ids c)" and "length (lru_ids c) < lru_size c"
  shows "\<exists>c'. lru_update remover i (lru_remove i c) w = Some (c', w) \<and>
           lru_ids c' = i # lru_ids c \<and> \<not> distinct (lru_ids c')"
  using assms by (simp add: lru_update_def lru_remove_def lru_ids_def push_front_def)

theorem lru_remove_duplicates_reused_id_witness:
  "\<exists>c'. lru_update (#) 1 (lru_remove 1 (push_front 1 (lru_new 3))) [] = Some (c', []) \<and>
        lru_ids c' = [1, 1]"
proof -
  have i: "lru_inv (push_front 1 (lru_new 3))"
    by (rule lru_inv_push_front) (simp, simp, simp add: lru_new_def)
  show ?thesis
    using lru_remove_duplicates_reused_id [OF i, of 1 "(#)" "[]"] by auto
qed

end
