(* ===== verification/Chunk_Store.thy ===== *)
theory Chunk_Store
  imports Chunk_Files Chunk_Map Lru_Collector
begin

text \<open>
  data/chunk_store.cc: chunks as files of a directory tree, one file per chunk id. The
  members of the class are \<open>base_path\<close>, \<open>in_store\<close> and the collector; the file system is
  the field \<open>os\<close> of the same record, since every operation works on it. An operation takes
  the values its output parameters have at the call (\<open>buffer\<close>, \<open>sz\<close>) and returns the values
  they have at its end, so that an output that is not written keeps its old value.
\<close>

subsection \<open>The store\<close>

record chunk_store =
  base_path :: string
  in_store :: "nat set"
  collector :: LruCollector
  os :: world

definition chunk_path :: "chunk_store \<Rightarrow> nat \<Rightarrow> string" where
  "chunk_path s i = id_to_path (base_path s) i"

definition store_remove_chunk :: "nat \<Rightarrow> chunk_store \<Rightarrow> ErrorCode \<times> chunk_store" where
  "store_remove_chunk i s =
     (case sys_unlink (chunk_path s i) (os s) of
        (Some e, w) \<Rightarrow> (if e = ENOENT then NOT_FOUND else INTERNAL_ERROR, s\<lparr>os := w\<rparr>)
      | (None, w) \<Rightarrow> (OK, s\<lparr>os := w, in_store := in_store s - {i}\<rparr>))"

text \<open>
  \<open>collector->update(id)\<close>, with the callback the constructor installed: it removes the
  evicted chunk and ignores the error code.
\<close>

definition store_touch :: "nat \<Rightarrow> chunk_store \<Rightarrow> chunk_store option" where
  "store_touch i s =
     (case lru_update (\<lambda>l t. snd (store_remove_chunk l t)) i (collector s) s of
        None \<Rightarrow> None
      | Some (c, s') \<Rightarrow> Some (s'\<lparr>collector := c\<rparr>))"

definition store_read_chunk ::
    "nat \<Rightarrow> bytes \<Rightarrow> nat \<Rightarrow> chunk_store \<Rightarrow> (ErrorCode \<times> bytes \<times> nat \<times> chunk_store) option" where
  "store_read_chunk i buffer sz s =
     (case sys_open_rd (chunk_path s i) (os s) of
        (Inl e, w) \<Rightarrow>
          Some (if e = ENOENT then NOT_FOUND else INTERNAL_ERROR, buffer, sz, s\<lparr>os := w\<rparr>)
      | (Inr fd, w) \<Rightarrow> do {
          s' \<leftarrow> store_touch i (s\<lparr>os := w\<rparr>);
          (res, rest, max_size, buffer', sz', w') \<leftarrow>
            read_loop 32 fd CHUNK_SIZE_BYTES buffer 0 0 (os s');
          Some (if res = -1 then INTERNAL_ERROR else OK, buffer', sz', s'\<lparr>os := w'\<rparr>)
        })"

definition store_write_chunk ::
    "nat \<Rightarrow> bytes \<Rightarrow> nat \<Rightarrow> chunk_store \<Rightarrow> (ErrorCode \<times> chunk_store) option" where
  "store_write_chunk i buffer sz s =
     (case create_base_dir [] (chunk_path s i) (os s) of
        (err, w) \<Rightarrow>
          if err \<noteq> OK then Some (err, s\<lparr>os := w\<rparr>)
          else case sys_open_wr (chunk_path s i) w of
            (Inl e, w') \<Rightarrow> Some (INTERNAL_ERROR, s\<lparr>os := w'\<rparr>)
          | (Inr fd, w') \<Rightarrow> do {
              (res, left_over, w'') \<leftarrow> write_loop fd buffer sz w';
              if res = -1 then Some (INTERNAL_ERROR, s\<lparr>os := w''\<rparr>)
              else do {
                s' \<leftarrow> store_touch i (s\<lparr>os := w''\<rparr>);
                Some (OK, s'\<lparr>in_store := insert i (in_store s')\<rparr>)
              }
            })"

definition store_available :: "chunk_store \<Rightarrow> nat set" where
  "store_available s = in_store s"

text \<open>
  The constructor. \<open>ls\<close> is the outcome of listing a directory (\<open>None\<close> when \<open>opendir\<close>
  fails); ids are collected from the names two levels down that parse as hexadecimal
  numbers, and then run through the collector in ascending order.
\<close>

definition entry_ids :: "string list \<Rightarrow> nat list" where
  "entry_ids names =
     concat (map (\<lambda>n. case strtol16 n of
         (v, rest) \<Rightarrow> if n \<noteq> ''.'' \<and> n \<noteq> ''..'' \<and> rest = [] then [wrap 32 v] else []) names)"

definition scan_dirs :: "(string \<Rightarrow> string list option) \<Rightarrow> (string \<Rightarrow> nat list) \<Rightarrow> string \<Rightarrow> nat list" where
  "scan_dirs ls inner p =
     (case ls p of
        None \<Rightarrow> []
      | Some names \<Rightarrow>
          concat (map (\<lambda>n. if n \<noteq> ''.'' \<and> n \<noteq> ''..'' then inner (p @ ''/'' @ n) else []) names))"

definition scan_store :: "(string \<Rightarrow> string list option) \<Rightarrow> string \<Rightarrow> nat list" where
  "scan_store ls base =
     scan_dirs ls (scan_dirs ls (\<lambda>m. case ls m of None \<Rightarrow> [] | Some names \<Rightarrow> entry_ids names)) base"

fun touch_all :: "nat list \<Rightarrow> chunk_store \<Rightarrow> chunk_store option" where
  "touch_all [] s = Some s"
| "touch_all (i # is) s = (case store_touch i s of None \<Rightarrow> None | Some s' \<Rightarrow> touch_all is s')"

definition store_open ::
    "(string \<Rightarrow> string list option) \<Rightarrow> string \<Rightarrow> nat \<Rightarrow> world \<Rightarrow> chunk_store option" where
  "store_open ls base sz w =
     (let ids = set (scan_store ls base)
      in touch_all (sorted_list_of_set ids)
           \<lparr>base_path = base, in_store = ids, collector = lru_new sz, os = w\<rparr>)"

subsection \<open>What holds whatever system calls fail\<close>

text \<open>
  Every id the store reports has a file, the collector is consistent, and all ids are 32-bit
  numbers.
\<close>

definition store_wf :: "chunk_store \<Rightarrow> bool" where
  "store_wf s \<longleftrightarrow>
     short_base (base_path s) \<and> lru_inv (collector s) \<and> 0 < lru_size (collector s) \<and>
     set (lru_ids (collector s)) \<subseteq> {..<2 ^ 32} \<and> in_store s \<subseteq> {..<2 ^ 32} \<and>
     (\<forall>i \<in> in_store s. files (os s) (chunk_path s i) \<noteq> None)"

lemma chunk_path_inj:
  "short_base (base_path s) \<Longrightarrow> i < 2 ^ 32 \<Longrightarrow> j < 2 ^ 32 \<Longrightarrow> chunk_path s i = chunk_path s j \<longleftrightarrow> i = j"
  using id_to_path_inj by (auto simp: chunk_path_def)

lemma chunk_path_update [simp]:
  "chunk_path (s\<lparr>os := w\<rparr>) i = chunk_path s i" "chunk_path (s\<lparr>in_store := I\<rparr>) i = chunk_path s i"
  "chunk_path (s\<lparr>collector := c\<rparr>) i = chunk_path s i"
  by (simp_all add: chunk_path_def)

text \<open>The two outcomes of removing a chunk.\<close>

lemma store_remove_cases:
  obtains (removed) w where "store_remove_chunk i s = (OK, s\<lparr>os := w, in_store := in_store s - {i}\<rparr>)"
      and "files w = (files (os s))(chunk_path s i := None)" and "dirs w = dirs (os s)"
      and "no_fault (os s) \<Longrightarrow> no_fault w" and "files (os s) (chunk_path s i) \<noteq> None"
  | (kept) err w where "store_remove_chunk i s = (err, s\<lparr>os := w\<rparr>)" and "err \<noteq> OK" and "same_fs (os s) w"
      and "no_fault (os s) \<Longrightarrow> no_fault w \<and> files (os s) (chunk_path s i) = None \<and> err = NOT_FOUND"
proof -
  obtain c v where cv: "pop_choice (os s) = (c, v)" by fastforce
  have v: "files v = files (os s)" "dirs v = dirs (os s)" "no_fault (os s) \<Longrightarrow> c \<noteq> Fault \<and> no_fault v"
    using pop_choice_same_fs [OF cv] pop_choice_no_fault [OF cv] by (auto simp: same_fs_def)
  show thesis
  proof (cases "c = Fault \<or> files v (chunk_path s i) = None")
    case True
    then show thesis
      using v by (intro kept [of "if c = Fault then INTERNAL_ERROR else NOT_FOUND" v])
        (auto simp: store_remove_chunk_def sys_unlink_def cv same_fs_def)
  next
    case False
    then show thesis
      using v by (intro removed [of "v\<lparr>files := (files v)(chunk_path s i := None)\<rparr>"])
        (auto simp: store_remove_chunk_def sys_unlink_def cv)
  qed
qed

lemma store_remove_fields:
  "base_path (snd (store_remove_chunk i s)) = base_path s"
  "collector (snd (store_remove_chunk i s)) = collector s"
  "dirs (os (snd (store_remove_chunk i s))) = dirs (os s)"
  "no_fault (os s) \<Longrightarrow> no_fault (os (snd (store_remove_chunk i s)))"
  by (rule store_remove_cases [of i s]; simp add: same_fs_def)+

lemma store_remove_wf:
  assumes wf: "store_wf s" and i: "i < 2 ^ 32"
  shows "store_wf (snd (store_remove_chunk i s))"
proof (rule store_remove_cases [of i s])
  fix w
  assume "store_remove_chunk i s = (OK, s\<lparr>os := w, in_store := in_store s - {i}\<rparr>)"
    "files w = (files (os s))(chunk_path s i := None)"
  then show ?thesis
    using wf i chunk_path_inj [of s _ i] by (auto simp: store_wf_def)
next
  fix err w
  assume "store_remove_chunk i s = (err, s\<lparr>os := w\<rparr>)" "same_fs (os s) w"
  then show ?thesis using wf by (auto simp: store_wf_def same_fs_def)
qed

text \<open>Using a chunk id either evicts nothing or removes one other chunk.\<close>

lemma store_touch_cases:
  assumes "lru_inv (collector s)" and "0 < lru_size (collector s)"
  obtains c t where "store_touch i s = Some (t\<lparr>collector := c\<rparr>)" and "lru_inv c"
    and "lru_size c = lru_size (collector s)"
    and "t = s \<and> set (lru_ids c) = insert i (set (lru_ids (collector s))) \<or>
      (\<exists>l. t = snd (store_remove_chunk l s) \<and> l \<in> set (lru_ids (collector s)) \<and> l \<noteq> i \<and>
         i \<notin> set (lru_ids (collector s)) \<and> length (lru_ids (collector s)) = lru_size (collector s) \<and>
         set (lru_ids c) = insert i (set (lru_ids (collector s))) - {l})"
proof -
  obtain c t where u: "lru_update (\<lambda>l t. snd (store_remove_chunk l t)) i (collector s) s = Some (c, t)"
    and c: "lru_inv c" "lru_size c = lru_size (collector s)"
    and t: "t = s \<and> set (lru_ids c) = insert i (set (lru_ids (collector s))) \<or>
      (\<exists>l. t = snd (store_remove_chunk l s) \<and> l \<in> set (lru_ids (collector s)) \<and> l \<noteq> i \<and>
         i \<notin> set (lru_ids (collector s)) \<and> length (lru_ids (collector s)) = lru_size (collector s) \<and>
         set (lru_ids c) = insert i (set (lru_ids (collector s))) - {l})"
    using lru.update_client [OF assms, where keys = "\<lambda>_. {}" and w = s and i = i
        and remover = "\<lambda>l t. snd (store_remove_chunk l t)"] by (simp del: split_paired_Ex) blast
  show thesis using u c t by (intro that [of c t]) (simp_all add: store_touch_def)
qed

lemma store_touch_wf:
  assumes wf: "store_wf s" and i: "i < 2 ^ 32"
  obtains s' where "store_touch i s = Some s'" and "store_wf s'"
    and "files (os s') (chunk_path s' i) = files (os s) (chunk_path s i)"
    and "base_path s' = base_path s"
proof -
  have inv: "lru_inv (collector s)" "0 < lru_size (collector s)" and
    sub: "set (lru_ids (collector s)) \<subseteq> {..<2 ^ 32}" using wf by (auto simp: store_wf_def)
  obtain c t where
    u: "store_touch i s = Some (t\<lparr>collector := c\<rparr>)"
    and c: "lru_inv c" "lru_size c = lru_size (collector s)"
    and t: "t = s \<and> set (lru_ids c) = insert i (set (lru_ids (collector s))) \<or>
      (\<exists>l. t = snd (store_remove_chunk l s) \<and> l \<in> set (lru_ids (collector s)) \<and> l \<noteq> i \<and>
         i \<notin> set (lru_ids (collector s)) \<and> length (lru_ids (collector s)) = lru_size (collector s) \<and>
         set (lru_ids c) = insert i (set (lru_ids (collector s))) - {l})"
    by (rule store_touch_cases [OF inv])
  from t have "store_wf t \<and> base_path t = base_path s \<and>
    files (os t) (chunk_path t i) = files (os s) (chunk_path s i) \<and> set (lru_ids c) \<subseteq> {..<2 ^ 32}"
  proof (elim disjE exE conjE)
    fix l
    assume l: "t = snd (store_remove_chunk l s)" "l \<in> set (lru_ids (collector s))" "l \<noteq> i"
      "set (lru_ids c) = insert i (set (lru_ids (collector s))) - {l}"
    have l32: "l < 2 ^ 32" using l(2) sub by auto
    have ne: "chunk_path s i \<noteq> chunk_path s l"
      using wf l(3) l32 i chunk_path_inj by (auto simp: store_wf_def)
    have "files (os t) (chunk_path s i) = files (os s) (chunk_path s i)"
      unfolding l(1) by (rule store_remove_cases [of l s]) (use ne in \<open>auto simp: same_fs_def\<close>)
    moreover have "store_wf t" unfolding l(1) by (rule store_remove_wf [OF wf l32])
    moreover have "base_path t = base_path s" by (simp add: l(1) store_remove_fields)
    ultimately show ?thesis using l(4) sub i by (auto simp: chunk_path_def)
  qed (use wf sub i in auto)
  then show thesis
    using u c wf by (intro that [of "t\<lparr>collector := c\<rparr>"]) (auto simp: store_wf_def chunk_path_def)
qed

lemma sys_open_rd_same_fs: "sys_open_rd p w = (r, w') \<Longrightarrow> same_fs w w'"
  using pop_choice_same_fs [of w]
  by (auto simp: sys_open_rd_def Let_def split: prod.splits if_splits option.splits)

lemma store_wf_same_fs: "same_fs (os s) w \<Longrightarrow> store_wf (s\<lparr>os := w\<rparr>) = store_wf s"
  by (simp add: store_wf_def same_fs_def)

lemma store_read_wf:
  assumes wf: "store_wf s" and i: "i < 2 ^ 32" and buf: "CHUNK_SIZE_BYTES \<le> length buffer"
  shows "\<exists>err buffer' sz' s'. store_read_chunk i buffer sz s = Some (err, buffer', sz', s') \<and> store_wf s' \<and>
           length buffer' = length buffer"
proof -
  obtain r w where o: "sys_open_rd (chunk_path s i) (os s) = (r, w)" by fastforce
  note fs = sys_open_rd_same_fs [OF o]
  have wf': "store_wf (s\<lparr>os := w\<rparr>)" using wf store_wf_same_fs [OF fs] by simp
  show ?thesis
  proof (cases r)
    case (Inl e)
    then show ?thesis using wf' by (simp add: store_read_chunk_def o)
  next
    case (Inr d)
    obtain t where t: "store_touch i (s\<lparr>os := w\<rparr>) = Some t" "store_wf t"
      by (rule store_touch_wf [OF wf' i])
    have "0 + CHUNK_SIZE_BYTES \<le> length buffer" using buf by simp
    from read_loop_defined [OF this chunk_size_lt_32, of 32 d 0 "os t"]
    obtain res rest' m buf' sz' w' where l:
      "read_loop 32 d CHUNK_SIZE_BYTES buffer 0 0 (os t) = Some (res, rest', m, buf', sz', w')"
      "same_fs (os t) w'" "length buf' = length buffer" by blast
    show ?thesis
      using t l store_wf_same_fs [OF l(2)] by (simp add: store_read_chunk_def o Inr)
  qed
qed

lemma store_write_wf:
  assumes wf: "store_wf s" and i: "i < 2 ^ 32" and n: "n \<le> length buffer" "n < 2 ^ 32"
  shows "\<exists>err s'. store_write_chunk i buffer n s = Some (err, s') \<and> store_wf s'"
proof -
  let ?p = "chunk_path s i"
  obtain err w where b: "create_base_dir [] ?p (os s) = (err, w)" by fastforce
  note bf = create_base_dir_files [OF b]
  have backed: "store_wf (s\<lparr>os := v\<rparr>)"
    if "\<And>q. files v q = None \<Longrightarrow> files (os s) q = None" for v
  proof -
    have "\<forall>i \<in> in_store s. files v (chunk_path s i) \<noteq> None"
      using that wf unfolding store_wf_def by metis
    then show ?thesis using wf by (simp add: store_wf_def)
  qed
  show ?thesis
  proof (cases "err = OK")
    case False
    then show ?thesis using backed [of w] bf by (simp add: store_write_chunk_def b)
  next
    case ok: True
    obtain r w1 where o: "sys_open_wr ?p w = (r, w1)" by fastforce
    have ow: "(\<exists>e. r = Inl e) \<and> files w1 = files w \<or> r = Inr ?p \<and> files w1 = (files w)(?p \<mapsto> [])"
      using o pop_choice_same_fs [of w]
      by (auto simp: sys_open_wr_def same_fs_def Let_def split: prod.splits if_splits)
    show ?thesis
    proof (cases r)
      case (Inl e)
      then show ?thesis
        using backed [of w1] bf ow ok by (auto simp: store_write_chunk_def b o)
    next
      case (Inr fd)
      then have fd: "fd = ?p" and f1: "files w1 = (files w)(?p \<mapsto> [])" using ow by auto
      obtain res m w2 where l: "write_loop ?p buffer n w1 = Some (res, m, w2)" "files w2 ?p \<noteq> None"
          "\<forall>q. q \<noteq> ?p \<longrightarrow> files w2 q = files w1 q"
        using write_loop_defined [OF n, of w1 ?p] f1 by auto
      have wf2: "store_wf (s\<lparr>os := w2\<rparr>)"
        using l bf f1 by (intro backed) (metis fun_upd_other)
      show ?thesis
      proof (cases "res = -1")
        case True
        then show ?thesis using wf2 l(1) ok Inr fd by (simp add: store_write_chunk_def b o)
      next
        case False
        obtain t where t: "store_touch i (s\<lparr>os := w2\<rparr>) = Some t" "store_wf t"
            "files (os t) (chunk_path t i) = files w2 ?p"
          by (rule store_touch_wf [OF wf2 i]) (simp add: that)
        then have "store_wf (t\<lparr>in_store := insert i (in_store t)\<rparr>)"
          using l(2) i by (auto simp: store_wf_def)
        then show ?thesis
          using t(1) False l(1) ok Inr fd by (simp add: store_write_chunk_def b o)
      qed
    qed
  qed
qed

subsection \<open>The store as a map from ids to contents, when no call fails\<close>

definition store_lookup :: "chunk_store \<Rightarrow> nat \<rightharpoonup> bytes" where
  "store_lookup s i = (if i < 2 ^ 32 then files (os s) (chunk_path s i) else None)"

text \<open>
  \<open>in_store\<close> is exactly the set of chunks with a file (but for the ids in \<open>X\<close>, while an
  operation is changing them), every one of them is tracked by the collector, and no chunk
  path collides with a directory or runs through a file.
\<close>

definition store_inv_but :: "nat set \<Rightarrow> chunk_store \<Rightarrow> bool" where
  "store_inv_but X s \<longleftrightarrow>
     store_wf s \<and> no_fault (os s) \<and> in_store s \<subseteq> set (lru_ids (collector s)) \<and>
     dom (store_lookup s) - X = in_store s - X \<and>
     (\<forall>i < 2 ^ 32. chunk_path s i \<notin> dirs (os s) \<and>
        (\<forall>q r. chunk_path s i = q @ CHR ''/'' # r \<longrightarrow> files (os s) q = None))"

definition store_inv :: "chunk_store \<Rightarrow> bool" where
  "store_inv s \<longleftrightarrow> store_inv_but {} s"

text \<open>The collector tracks the id already, or has room for one more.\<close>

definition store_can_hold :: "chunk_store \<Rightarrow> nat \<Rightarrow> bool" where
  "store_can_hold s i \<longleftrightarrow>
     i \<in> set (lru_ids (collector s)) \<or> length (lru_ids (collector s)) < lru_size (collector s)"

lemma store_lookup_remove:
  assumes "store_wf s" "no_fault (os s)" "l < 2 ^ 32"
  shows "store_lookup (snd (store_remove_chunk l s)) = (store_lookup s)(l := None)"
proof (rule store_remove_cases [of l s])
  fix w
  assume "store_remove_chunk l s = (OK, s\<lparr>os := w, in_store := in_store s - {l}\<rparr>)"
    "files w = (files (os s))(chunk_path s l := None)"
  then show ?thesis
    using assms chunk_path_inj [of s _ l] by (auto simp: store_lookup_def store_wf_def fun_eq_iff)
next
  fix err w
  assume "store_remove_chunk l s = (err, s\<lparr>os := w\<rparr>)" "same_fs (os s) w"
    "no_fault (os s) \<Longrightarrow> no_fault w \<and> files (os s) (chunk_path s l) = None \<and> err = NOT_FOUND"
  then show ?thesis
    using assms by (auto simp: store_lookup_def same_fs_def fun_eq_iff)
qed

lemma store_lookup_collector [simp]: "store_lookup (s\<lparr>collector := c\<rparr>) = store_lookup s"
  "store_lookup (s\<lparr>in_store := I\<rparr>) = store_lookup s"
  by (simp_all add: store_lookup_def fun_eq_iff)

lemma in_store_remove:
  assumes "no_fault (os s)" "store_wf s" "l < 2 ^ 32" "l \<in> in_store s \<Longrightarrow> store_lookup s l \<noteq> None"
  shows "in_store (snd (store_remove_chunk l s)) = in_store s - {l}"
  by (rule store_remove_cases [of l s]) (use assms in \<open>auto simp: store_lookup_def\<close>)

lemma store_files_remove:
  "files (os s) q = None \<Longrightarrow> files (os (snd (store_remove_chunk l s))) q = None"
  by (rule store_remove_cases [of l s]) (auto simp: same_fs_def split: if_splits)

lemma store_inv_but_remove:
  assumes inv: "store_inv_but X s" and l: "l < 2 ^ 32" "l \<notin> X"
  shows "store_inv_but X (snd (store_remove_chunk l s))"
proof -
  let ?t = "snd (store_remove_chunk l s)"
  have wf: "store_wf s" and nf: "no_fault (os s)" and dom: "dom (store_lookup s) - X = in_store s - X"
    using inv by (auto simp: store_inv_but_def)
  have ins: "in_store ?t = in_store s - {l}"
    using dom l by (intro in_store_remove nf wf) auto
  have lk: "store_lookup ?t = (store_lookup s)(l := None)" by (rule store_lookup_remove [OF wf nf l(1)])
  have "chunk_path ?t = chunk_path s" by (auto simp: chunk_path_def store_remove_fields)
  then show ?thesis
    using inv dom store_remove_wf [OF wf l(1)] store_files_remove [of s _ l]
    unfolding store_inv_but_def ins lk store_remove_fields by (auto simp: nf store_remove_fields)
qed

lemma store_touch_ok:
  assumes inv: "store_inv_but {i} s" and i: "i < 2 ^ 32"
  obtains s' E where "store_touch i s = Some s'" and "store_inv_but {i} s'" and "i \<notin> E"
    and "store_lookup s' = store_lookup s |` (- E)" and "in_store s' = in_store s - E"
    and "store_can_hold s i \<longrightarrow> E = {}" and "lru_size (collector s') = lru_size (collector s)"
    and "set (lru_ids (collector s')) = insert i (set (lru_ids (collector s))) - E"
    and "base_path s' = base_path s"
proof -
  have wf: "store_wf s" and nf: "no_fault (os s)" using inv by (auto simp: store_inv_but_def)
  have lru: "lru_inv (collector s)" "0 < lru_size (collector s)" and
    sub: "set (lru_ids (collector s)) \<subseteq> {..<2 ^ 32}" using wf by (auto simp: store_wf_def)
  obtain s' where s': "store_touch i s = Some s'" "store_wf s'" by (rule store_touch_wf [OF wf i])
  obtain c t where
    u: "store_touch i s = Some (t\<lparr>collector := c\<rparr>)"
    and c: "lru_inv c" "lru_size c = lru_size (collector s)"
    and t: "t = s \<and> set (lru_ids c) = insert i (set (lru_ids (collector s))) \<or>
      (\<exists>l. t = snd (store_remove_chunk l s) \<and> l \<in> set (lru_ids (collector s)) \<and> l \<noteq> i \<and>
         i \<notin> set (lru_ids (collector s)) \<and> length (lru_ids (collector s)) = lru_size (collector s) \<and>
         set (lru_ids c) = insert i (set (lru_ids (collector s))) - {l})"
    by (rule store_touch_cases [OF lru])
  have eq: "s' = t\<lparr>collector := c\<rparr>" using u s'(1) by simp
  have keep: "store_inv_but {i} s'"
    if "store_inv_but {i} t" "in_store t \<subseteq> set (lru_ids c)"
    using that s'(2) unfolding eq store_inv_but_def by simp
  from t show thesis
  proof (elim disjE exE conjE)
    assume "t = s" and ids: "set (lru_ids c) = insert i (set (lru_ids (collector s)))"
    moreover from this have "store_inv_but {i} s'" using inv by (intro keep) (auto simp: store_inv_but_def)
    ultimately show thesis using c by (intro that [OF s'(1), of "{}"]) (auto simp: eq)
  next
    fix l
    assume tl: "t = snd (store_remove_chunk l s)"
      and l: "l \<in> set (lru_ids (collector s))" "l \<noteq> i" "i \<notin> set (lru_ids (collector s))"
        "length (lru_ids (collector s)) = lru_size (collector s)"
      and ids: "set (lru_ids c) = insert i (set (lru_ids (collector s))) - {l}"
    have l32: "l < 2 ^ 32" using l(1) sub by auto
    have ins: "in_store t = in_store s - {l}"
      unfolding tl using inv l(2) by (intro in_store_remove nf wf l32) (auto simp: store_inv_but_def)
    have lk: "store_lookup t = store_lookup s |` (- {l})"
      unfolding tl store_lookup_remove [OF wf nf l32] by (auto simp: restrict_map_def fun_eq_iff)
    have "store_inv_but {i} s'"
      using store_inv_but_remove [OF inv l32] l(2) inv ins ids
      by (intro keep) (auto simp: tl store_inv_but_def)
    then show thesis
      using c l ids ins lk by (intro that [OF s'(1), of "{l}"])
        (auto simp: eq store_can_hold_def tl store_remove_fields)
  qed
qed

lemma store_inv_but_weaken: "store_inv_but {} s \<Longrightarrow> store_inv_but {i} s"
  by (auto simp: store_inv_but_def)

lemma store_lookup_same_fs: "same_fs (os s) w \<Longrightarrow> store_lookup (s\<lparr>os := w\<rparr>) = store_lookup s"
  by (auto simp: store_lookup_def same_fs_def fun_eq_iff)

lemma store_inv_but_same_fs:
  assumes "same_fs (os s) w" "no_fault w" "store_inv_but X s"
  shows "store_inv_but X (s\<lparr>os := w\<rparr>)"
  using assms store_wf_same_fs [OF assms(1)] store_lookup_same_fs [OF assms(1)]
  by (simp add: store_inv_but_def same_fs_def)

lemma store_inv_lookup_32: "store_lookup s i = Some d \<Longrightarrow> i < 2 ^ 32"
  by (auto simp: store_lookup_def split: if_splits)

lemma store_inv_in_store: "store_inv s \<Longrightarrow> i \<in> in_store s \<longleftrightarrow> store_lookup s i \<noteq> None"
  by (auto simp: store_inv_def store_inv_but_def dom_def)

lemma store_inv_fields:
  assumes "store_inv s"
  shows "store_wf s" "no_fault (os s)" "in_store s \<subseteq> set (lru_ids (collector s))"
    "store_inv_but {i} s" "lru_inv (collector s)" "0 < lru_size (collector s)"
  using assms store_inv_but_weaken [of s i] by (auto simp: store_inv_def store_inv_but_def store_wf_def)

text \<open>Reading a chunk that is there yields its content and evicts nothing.\<close>

lemma store_read_ok:
  assumes inv: "store_inv s" and d: "store_lookup s i = Some d"
    and len: "length d \<le> CHUNK_SIZE_BYTES" "CHUNK_SIZE_BYTES \<le> length buffer"
  shows "\<exists>s'. store_read_chunk i buffer sz s = Some (OK, d @ drop (length d) buffer, length d, s') \<and>
           store_inv s' \<and> store_lookup s' = store_lookup s \<and>
           lru_size (collector s') = lru_size (collector s) \<and>
           set (lru_ids (collector s')) = set (lru_ids (collector s))"
proof -
  have i: "i < 2 ^ 32" and f: "files (os s) (chunk_path s i) = Some d"
    using d by (auto simp: store_lookup_def split: if_splits)
  obtain w where o: "sys_open_rd (chunk_path s i) (os s) = (Inr d, w)" "no_fault w" "same_fs (os s) w"
    using sys_open_rd_ok [OF store_inv_fields(2) [OF inv], of "chunk_path s i"] f by (metis option.simps(5))
  let ?t = "s\<lparr>os := w\<rparr>"
  have mem: "i \<in> in_store s" using d store_inv_in_store [OF inv] by auto
  have ids: "i \<in> set (lru_ids (collector s))" using mem store_inv_fields(3) [OF inv] by auto
  have t: "store_inv_but {i} ?t" by (rule store_inv_but_same_fs [OF o(3,2) store_inv_fields(4) [OF inv]])
  obtain s' E where s': "store_touch i ?t = Some s'" "store_inv_but {i} s'" "i \<notin> E"
    and E: "store_lookup s' = store_lookup ?t |` (- E)" "in_store s' = in_store ?t - E"
      "store_can_hold ?t i \<longrightarrow> E = {}" "lru_size (collector s') = lru_size (collector ?t)"
      "set (lru_ids (collector s')) = insert i (set (lru_ids (collector ?t))) - E"
      "base_path s' = base_path ?t"
    by (rule store_touch_ok [OF t i])
  have "E = {}" using ids E(3) by (simp add: store_can_hold_def)
  note E' = E [unfolded this]
  have lk: "store_lookup s' = store_lookup s" using E'(1) store_lookup_same_fs [OF o(3)] by simp
  have nf: "no_fault (os s')" using s'(2) by (simp add: store_inv_but_def)
  have bounds: "0 + CHUNK_SIZE_BYTES \<le> length buffer" "0 + CHUNK_SIZE_BYTES < 2 ^ 32"
    using len chunk_size_lt_32 by simp_all
  obtain res v where r: "read_loop 32 d CHUNK_SIZE_BYTES buffer 0 0 (os s') =
      Some (res, [], CHUNK_SIZE_BYTES - length d, d @ drop (length d) buffer, length d, v)"
      "no_fault v" "same_fs (os s') v" "0 \<le> res"
    using read_loop_ok [OF nf chunk_size_pos chunk_size_lt_32 bounds, of d] len(1)
    by (auto simp: Let_def min_def)
  have "store_inv (s'\<lparr>os := v\<rparr>)"
  proof -
    have "dom (store_lookup s') = in_store s'"
      using lk E'(2) inv by (auto simp: store_inv_def store_inv_but_def)
    then have "store_inv_but {} s'" using s'(2) by (simp add: store_inv_but_def)
    then show ?thesis using store_inv_but_same_fs [OF r(3,2)] by (simp add: store_inv_def)
  qed
  then show ?thesis
    using s'(1) r lk store_lookup_same_fs [OF r(3)] E'(4,5) ids
    by (auto simp: store_read_chunk_def o(1) insert_absorb)
qed

lemma store_read_missing:
  assumes inv: "store_inv s" and i: "i < 2 ^ 32" and none: "store_lookup s i = None"
  shows "\<exists>s'. store_read_chunk i buffer sz s = Some (NOT_FOUND, buffer, sz, s') \<and>
           store_inv s' \<and> store_lookup s' = store_lookup s \<and> collector s' = collector s"
proof -
  have f: "files (os s) (chunk_path s i) = None" using none i by (simp add: store_lookup_def)
  obtain w where o: "sys_open_rd (chunk_path s i) (os s) = (Inl ENOENT, w)" "no_fault w" "same_fs (os s) w"
    using sys_open_rd_ok [OF store_inv_fields(2) [OF inv], of "chunk_path s i"] f by (metis option.simps(4))
  show ?thesis
    using store_inv_but_same_fs [OF o(3,2)] inv store_lookup_same_fs [OF o(3)]
    by (simp add: store_read_chunk_def o(1) store_inv_def)
qed

lemma sys_open_wr_ok:
  assumes "no_fault w" and "p \<notin> dirs w" and "has_parent w p"
  obtains w' where "sys_open_wr p w = (Inr p, w')" and "no_fault w'" and "dirs w' = dirs w"
    and "files w' = (files w)(p \<mapsto> [])"
proof -
  obtain c v where cv: "pop_choice w = (c, v)" by fastforce
  show thesis
    using pop_choice_same_fs [OF cv] pop_choice_no_fault [OF cv assms(1)] assms
    by (intro that [of "v\<lparr>files := (files v)(p \<mapsto> [])\<rparr>"])
      (auto simp: sys_open_wr_def cv same_fs_def has_parent_def)
qed

text \<open>The file system after the content is written: the store changed at \<open>i\<close> only.\<close>

lemma store_write_files:
  assumes inv: "store_inv s" and i: "i < 2 ^ 32" and n: "n \<le> length buffer" "n < 2 ^ 32"
  obtains w1 w2 w3 res left_over where "create_base_dir [] (chunk_path s i) (os s) = (OK, w1)"
    and "sys_open_wr (chunk_path s i) w1 = (Inr (chunk_path s i), w2)"
    and "write_loop (chunk_path s i) buffer n w2 = Some (res, left_over, w3)" and "0 \<le> res"
    and "store_inv_but {i} (s\<lparr>os := w3\<rparr>)"
    and "store_lookup (s\<lparr>os := w3\<rparr>) = (store_lookup s)(i \<mapsto> take n buffer)"
proof -
  let ?p = "chunk_path s i"
  have wf: "store_wf s" and nf: "no_fault (os s)" and sb: "short_base (base_path s)"
    using store_inv_fields [OF inv] by (auto simp: store_wf_def)
  have dirs: "j < 2 ^ 32 \<Longrightarrow> chunk_path s j \<notin> dirs (os s)"
    and pre: "j < 2 ^ 32 \<Longrightarrow> chunk_path s j = q @ CHR ''/'' # r \<Longrightarrow> files (os s) q = None" for j q r
    using inv by (auto simp: store_inv_def store_inv_but_def)
  have prefix: "j < 2 ^ 32 \<Longrightarrow> k < 2 ^ 32 \<Longrightarrow> chunk_path s j = q @ CHR ''/'' # r \<Longrightarrow> q \<noteq> chunk_path s k"
    for j k q r using id_to_path_prefix [OF sb] by (auto simp: chunk_path_def)
  have ne: "?p \<noteq> []" using id_to_path_nonempty [OF sb i] by (simp add: chunk_path_def)
  have c: "\<And>q r. [] @ ?p = q @ CHR ''/'' # r \<Longrightarrow> files (os s) q = None" using pre [OF i] by simp
  have "\<exists>w'. create_base_dir [] ?p (os s) = (OK, w') \<and> no_fault w' \<and> files w' = files (os s) \<and>
      dirs (os s) \<subseteq> dirs w' \<and> has_parent w' ([] @ ?p) \<and>
      (\<forall>q \<in> dirs w' - dirs (os s). \<exists>r. [] @ ?p = q @ CHR ''/'' # r)"
    by (rule create_base_dir_ok [OF nf c _ ne]) auto
  then obtain w1 where w1: "create_base_dir [] ?p (os s) = (OK, w1)" "no_fault w1"
      "files w1 = files (os s)" "has_parent w1 ?p"
      "\<And>q. q \<in> dirs w1 \<Longrightarrow> q \<notin> dirs (os s) \<Longrightarrow> \<exists>r. ?p = q @ CHR ''/'' # r"
    by auto
  have d1: "j < 2 ^ 32 \<Longrightarrow> chunk_path s j \<notin> dirs w1" for j
    using w1(5) [of "chunk_path s j"] dirs [of j] prefix [OF i, of j] by blast
  obtain w2 where w2: "sys_open_wr ?p w1 = (Inr ?p, w2)" "no_fault w2" "dirs w2 = dirs w1"
      "files w2 = (files w1)(?p \<mapsto> [])"
    by (rule sys_open_wr_ok [OF w1(2) d1 [OF i] w1(4)])
  have "files w2 ?p = Some []" using w2(4) by simp
  from write_loop_ok [OF w2(2) n this] obtain res w3 where
    w3: "write_loop ?p buffer n w2 = Some (res, 0, w3)" "0 \<le> res" "no_fault w3" "dirs w3 = dirs w2"
      "files w3 = (files w2)(?p \<mapsto> take n buffer)" by auto
  have f3: "files w3 = (files (os s))(?p \<mapsto> take n buffer)" using w3(5) w2(4) w1(3) by simp
  have lk: "store_lookup (s\<lparr>os := w3\<rparr>) = (store_lookup s)(i \<mapsto> take n buffer)"
    using chunk_path_inj [OF sb] i by (auto simp: store_lookup_def f3 fun_eq_iff)
  have "store_wf (s\<lparr>os := w3\<rparr>)" using wf by (auto simp: store_wf_def f3)
  moreover have "dom (store_lookup s) = in_store s" using inv by (simp add: store_inv_def store_inv_but_def)
  moreover have "chunk_path s j = q @ CHR ''/'' # r \<Longrightarrow> j < 2 ^ 32 \<Longrightarrow> files w3 q = None" for j q r
    using prefix [of j i q r] pre [of j q r] i by (simp add: f3)
  ultimately have "store_inv_but {i} (s\<lparr>os := w3\<rparr>)"
    using store_inv_fields(3) [OF inv] w3(3,4) w2(3) d1 by (auto simp: store_inv_but_def lk)
  with w1(1) w2(1) w3(1,2) lk show thesis by (intro that)
qed

lemma store_write_ok:
  assumes inv: "store_inv s" and i: "i < 2 ^ 32" and n: "n \<le> length buffer" "n < 2 ^ 32"
  shows "\<exists>s' E. store_write_chunk i buffer n s = Some (OK, s') \<and> store_inv s' \<and> i \<notin> E \<and>
           store_lookup s' = (store_lookup s |` (- E))(i \<mapsto> take n buffer) \<and>
           (store_can_hold s i \<longrightarrow> E = {}) \<and> lru_size (collector s') = lru_size (collector s) \<and>
           set (lru_ids (collector s')) = insert i (set (lru_ids (collector s))) - E"
proof -
  obtain w1 w2 w3 res lo where w: "create_base_dir [] (chunk_path s i) (os s) = (OK, w1)"
      "sys_open_wr (chunk_path s i) w1 = (Inr (chunk_path s i), w2)"
      "write_loop (chunk_path s i) buffer n w2 = Some (res, lo, w3)" "0 \<le> res"
    and t: "store_inv_but {i} (s\<lparr>os := w3\<rparr>)"
    and lk: "store_lookup (s\<lparr>os := w3\<rparr>) = (store_lookup s)(i \<mapsto> take n buffer)"
    by (rule store_write_files [OF inv i n])
  obtain s' E where s': "store_touch i (s\<lparr>os := w3\<rparr>) = Some s'" "store_inv_but {i} s'" "i \<notin> E"
    and E: "store_lookup s' = store_lookup (s\<lparr>os := w3\<rparr>) |` (- E)" "in_store s' = in_store (s\<lparr>os := w3\<rparr>) - E"
      "store_can_hold (s\<lparr>os := w3\<rparr>) i \<longrightarrow> E = {}"
      "lru_size (collector s') = lru_size (collector (s\<lparr>os := w3\<rparr>))"
      "set (lru_ids (collector s')) = insert i (set (lru_ids (collector (s\<lparr>os := w3\<rparr>)))) - E"
      "base_path s' = base_path (s\<lparr>os := w3\<rparr>)"
    by (rule store_touch_ok [OF t i])
  let ?r = "s'\<lparr>in_store := insert i (in_store s')\<rparr>"
  have lk': "store_lookup s' = (store_lookup s |` (- E))(i \<mapsto> take n buffer)"
    using E(1) lk s'(3) by (auto simp: restrict_map_def fun_eq_iff)
  have some: "files (os s') (chunk_path s' i) \<noteq> None"
    using lk' i by (auto simp: store_lookup_def fun_eq_iff split: if_splits)
  have "dom (store_lookup s') - {i} = in_store s' - {i}" using s'(2) by (simp add: store_inv_but_def)
  moreover have "i \<in> dom (store_lookup s')" by (simp add: lk')
  ultimately have "dom (store_lookup s') = insert i (in_store s')" by blast
  then have "store_inv ?r"
    using s'(2,3) E(5) some i
    by (auto simp: store_inv_def store_inv_but_def store_wf_def)
  then show ?thesis
    using w s' lk' E
    by (intro exI [of _ ?r] exI [of _ E]) (auto simp: store_write_chunk_def store_can_hold_def)
qed

subsection \<open>The store provides the chunk map interface\<close>

definition store_room :: "chunk_store \<Rightarrow> nat \<Rightarrow> bool" where
  "store_room s K \<longleftrightarrow> set (lru_ids (collector s)) \<subseteq> {..<K} \<and> K \<le> lru_size (collector s)"

definition store_bounded :: "chunk_store \<Rightarrow> bool" where
  "store_bounded s \<longleftrightarrow> store_inv s \<and> (\<forall>i d. store_lookup s i = Some d \<longrightarrow> length d \<le> CHUNK_SIZE_BYTES)"

lemma store_room_can_hold:
  assumes "lru_inv (collector s)" and "store_room s K" and "i < K"
  shows "store_can_hold s i"
proof (cases "i \<in> set (lru_ids (collector s))")
  case True
  then show ?thesis by (simp add: store_can_hold_def)
next
  case False
  have "Suc (length (lru_ids (collector s))) = card (insert i (set (lru_ids (collector s))))"
    using False lru_ids_distinct [OF assms(1)] by (simp add: distinct_card)
  also have "\<dots> \<le> card {..<K}"
    using assms(2,3) by (intro card_mono) (auto simp: store_room_def)
  finally show ?thesis using assms(2) by (simp add: store_can_hold_def store_room_def)
qed

interpretation chunk_files: chunk_map store_read_chunk store_write_chunk store_available store_lookup
  store_bounded store_room "\<lambda>d. length d \<le> CHUNK_SIZE_BYTES"
proof (unfold_locales, goal_cases)
  case (1 s i d buffer sz)
  then obtain s' where "store_read_chunk i buffer sz s = Some (OK, d @ drop (length d) buffer, length d, s')"
      "store_inv s'" "store_lookup s' = store_lookup s" "lru_size (collector s') = lru_size (collector s)"
      "set (lru_ids (collector s')) = set (lru_ids (collector s))"
    using store_read_ok [of s i d buffer sz] by (auto simp: store_bounded_def)
  with 1 show ?case by (auto simp: store_bounded_def store_room_def fun_eq_iff)
next
  case (2 s i buffer sz)
  then show ?case
    using store_read_missing [of s i buffer sz]
    by (auto simp: store_bounded_def store_room_def fun_eq_iff)
next
  case (3 s i n buffer)
  then have inv: "store_inv s" and n: "n < 2 ^ 32"
    using chunk_size_lt_32 by (auto simp: store_bounded_def)
  obtain s' E where w: "store_write_chunk i buffer n s = Some (OK, s')" "store_inv s'" "i \<notin> E"
      "store_lookup s' = (store_lookup s |` (- E))(i \<mapsto> take n buffer)"
      "store_can_hold s i \<longrightarrow> E = {}" "lru_size (collector s') = lru_size (collector s)"
      "set (lru_ids (collector s')) = insert i (set (lru_ids (collector s))) - E"
    using store_write_ok [OF inv 3(2,3) n] by blast
  have "store_bounded s'"
    using 3(1,4) w(2,4) by (auto simp: store_bounded_def restrict_map_def)
  moreover have "E = {} \<and> store_room s' K" if "store_room s K" "i < K" for K
    using w(5,6,7) store_room_can_hold [OF store_inv_fields(5) [OF inv] that] that
    by (auto simp: store_room_def)
  ultimately show ?case using w(1,3,4) by blast
next
  case (4 s)
  then show ?case by (auto simp: store_available_def store_bounded_def store_inv_def store_inv_but_def)
next
  case (5 s i d)
  then show ?case by (auto dest: store_inv_lookup_32)
next
  case (6 s i d)
  then show ?case by (simp add: store_bounded_def)
qed

subsection \<open>Opening a store directory\<close>

text \<open>The directory listings of a tree that holds exactly the chunk files of the ids in \<open>I\<close>.\<close>

definition no_dots :: "string list \<Rightarrow> string set" where
  "no_dots names = set names - {''.'', ''..''}"

definition listing_of :: "(string \<Rightarrow> string list option) \<Rightarrow> string \<Rightarrow> nat set \<Rightarrow> bool" where
  "listing_of ls base I \<longleftrightarrow>
     (\<exists>es. ls base = Some es \<and> no_dots es = {to_hex (i mod 256) |i. i \<in> I}) \<and>
     (\<forall>i \<in> I.
        (\<exists>fs. ls (base @ ''/'' @ to_hex (i mod 256)) = Some fs \<and>
           no_dots fs = {to_hex (j div 256 mod 256) |j. j \<in> I \<and> j mod 256 = i mod 256}) \<and>
        (\<exists>gs. ls ((base @ ''/'' @ to_hex (i mod 256)) @ ''/'' @ to_hex (i div 256 mod 256)) = Some gs \<and>
           no_dots gs = {to_hex j |j. j \<in> I \<and> j mod 256 = i mod 256 \<and>
                                      j div 256 mod 256 = i div 256 mod 256}))"

lemma set_scan_dirs:
  "ls p = Some names \<Longrightarrow> set (scan_dirs ls inner p) = (\<Union>n \<in> no_dots names. set (inner (p @ ''/'' @ n)))"
  by (auto simp: scan_dirs_def no_dots_def split: if_splits)

lemma to_hex_not_dots [simp]: "to_hex i \<noteq> ''.''" "to_hex i \<noteq> ''..''"
proof -
  have "CHR ''.'' \<notin> set (to_hex i)"
  proof
    assume "CHR ''.'' \<in> set (to_hex i)"
    then obtain d where "d < 16" "CHR ''.'' = hex_digits ! d" using to_hex_chars by blast
    with hex_digit_props [of d] show False by simp
  qed
  then show "to_hex i \<noteq> ''.''" "to_hex i \<noteq> ''..''" by auto
qed

lemma set_entry_ids:
  assumes "no_dots names = {to_hex j |j. j \<in> J}" and "J \<subseteq> {..<2 ^ 32}"
  shows "set (entry_ids names) = J"
proof -
  have one: "strtol16 (to_hex j) = (int j, [])" "wrap 32 (int j) = j" if "j \<in> J" for j
    using that assms(2) by (auto intro!: strtol16_to_hex wrap_of_nat)
  have "set (entry_ids names) = (\<Union>n \<in> no_dots names.
      if snd (strtol16 n) = [] then {wrap 32 (fst (strtol16 n))} else {})"
    by (auto simp: entry_ids_def no_dots_def split_beta split: if_splits)
  also have "\<dots> = (\<Union>j \<in> J. {j})" unfolding assms(1) using one by force
  finally show ?thesis by simp
qed

lemma UN_Collect_image: "(\<Union>n \<in> {f j |j. P j}. g n) = (\<Union>j \<in> {j. P j}. g (f j))"
  by auto

lemma set_scan_store:
  assumes ls: "listing_of ls base I" and I: "I \<subseteq> {..<2 ^ 32}"
  shows "set (scan_store ls base) = I"
proof -
  let ?files = "\<lambda>m. case ls m of None \<Rightarrow> [] | Some names \<Rightarrow> entry_ids names"
  note top = ls [unfolded listing_of_def, THEN conjunct1]
  note sub = ls [unfolded listing_of_def, THEN conjunct2, THEN bspec]
  have inner: "set (scan_dirs ls ?files (base @ ''/'' @ to_hex (i mod 256))) = {j \<in> I. j mod 256 = i mod 256}"
    if "i \<in> I" for i
  proof -
    obtain fs where fs: "ls (base @ ''/'' @ to_hex (i mod 256)) = Some fs"
        "no_dots fs = {to_hex (j div 256 mod 256) |j. j \<in> I \<and> j mod 256 = i mod 256}"
      using conjunct1 [OF sub [OF \<open>i \<in> I\<close>]] by blast
    have files: "set (?files ((base @ ''/'' @ to_hex (i mod 256)) @ ''/'' @ to_hex (j div 256 mod 256))) =
        {k \<in> I. k mod 256 = i mod 256 \<and> k div 256 mod 256 = j div 256 mod 256}"
      if jI: "j \<in> I" and jm: "j mod 256 = i mod 256" for j
    proof -
      obtain gs where gs: "ls ((base @ ''/'' @ to_hex (i mod 256)) @ ''/'' @ to_hex (j div 256 mod 256)) = Some gs"
          "no_dots gs = {to_hex k |k. k \<in> I \<and> k mod 256 = i mod 256 \<and> k div 256 mod 256 = j div 256 mod 256}"
        using conjunct2 [OF sub [OF jI]] unfolding jm by blast
      have "set (entry_ids gs) = {k \<in> I. k mod 256 = i mod 256 \<and> k div 256 mod 256 = j div 256 mod 256}"
        using gs(2) I by (intro set_entry_ids) auto
      then show ?thesis using gs(1) by simp
    qed
    have "set (scan_dirs ls ?files (base @ ''/'' @ to_hex (i mod 256))) =
        (\<Union>j \<in> {j. j \<in> I \<and> j mod 256 = i mod 256}.
           {k \<in> I. k mod 256 = i mod 256 \<and> k div 256 mod 256 = j div 256 mod 256})"
      unfolding set_scan_dirs [where ls = ls, OF fs(1)] fs(2) UN_Collect_image
      by (rule SUP_cong [OF refl]) (simp only: files mem_Collect_eq)
    also have "\<dots> = {j \<in> I. j mod 256 = i mod 256}" by auto
    finally show ?thesis .
  qed
  obtain es where es: "ls base = Some es" "no_dots es = {to_hex (i mod 256) |i. i \<in> I}"
    using top by blast
  have "set (scan_store ls base) = (\<Union>i \<in> {i. i \<in> I}. {j \<in> I. j mod 256 = i mod 256})"
    unfolding scan_store_def set_scan_dirs [where ls = ls, OF es(1)] es(2) UN_Collect_image
    by (rule SUP_cong [OF refl]) (simp only: inner mem_Collect_eq)
  then show ?thesis by auto
qed

text \<open>With room for all ids, running them through the collector changes the collector only.\<close>

lemma touch_all_room:
  assumes "lru_inv (collector s)" and "distinct is" and "set is \<inter> set (lru_ids (collector s)) = {}"
    and "length is + length (lru_ids (collector s)) \<le> lru_size (collector s)"
  shows "\<exists>c. touch_all is s = Some (s\<lparr>collector := c\<rparr>) \<and> lru_inv c \<and>
           lru_size c = lru_size (collector s) \<and> set (lru_ids c) = set is \<union> set (lru_ids (collector s))"
  using assms
proof (induction "is" arbitrary: s)
  case Nil
  then show ?case by (intro exI [of _ "collector s"]) simp
next
  case (Cons i "is")
  let ?c = "push_front i (collector s)" and ?s = "s\<lparr>collector := push_front i (collector s)\<rparr>"
  have "i \<notin> set (lru_ids (collector s))" "length (lru_ids (collector s)) < lru_size (collector s)"
    using Cons.prems(3,4) by auto
  note u = lru_update_room [OF Cons.prems(1) this]
  have "store_touch i s = Some ?s" by (simp add: store_touch_def u(1))
  moreover have "\<exists>c. touch_all is ?s = Some (?s\<lparr>collector := c\<rparr>) \<and> lru_inv c \<and>
      lru_size c = lru_size (collector ?s) \<and> set (lru_ids c) = set is \<union> set (lru_ids (collector ?s))"
    using Cons.prems u(2) by (intro Cons.IH) auto
  ultimately show ?case by auto
qed

lemma store_reopen:
  assumes inv: "store_inv s" and ls: "listing_of ls (base_path s) (in_store s)"
    and sz: "0 < sz" "card (in_store s) \<le> sz"
  shows "\<exists>c. store_open ls (base_path s) sz (os s) = Some (s\<lparr>collector := c\<rparr>) \<and>
           store_inv (s\<lparr>collector := c\<rparr>) \<and> lru_size c = sz"
proof -
  have wf: "store_wf s" using store_inv_fields(1) [OF inv] .
  have fin: "finite (in_store s)" and sub: "in_store s \<subseteq> {..<2 ^ 32}"
    using wf finite_subset [OF _ finite_lessThan] by (auto simp: store_wf_def)
  let ?s = "s\<lparr>collector := lru_new sz\<rparr>"
  have ids: "set (scan_store ls (base_path s)) = in_store s" by (rule set_scan_store [OF ls sub])
  obtain c where c: "touch_all (sorted_list_of_set (in_store s)) ?s = Some (?s\<lparr>collector := c\<rparr>)"
      "lru_inv c" "lru_size c = sz" "set (lru_ids c) = in_store s"
    using touch_all_room [of ?s "sorted_list_of_set (in_store s)"] fin sz by auto
  have "store_open ls (base_path s) sz (os s) = Some (s\<lparr>collector := c\<rparr>)"
    using c(1) unfolding store_open_def ids Let_def by (cases s) simp
  moreover have "store_inv (s\<lparr>collector := c\<rparr>)"
    using inv c sub sz by (auto simp: store_inv_def store_inv_but_def store_wf_def)
  ultimately show ?thesis using c(3) by blast
qed

subsection \<open>An empty store\<close>

definition fresh_store :: "string \<Rightarrow> nat \<Rightarrow> os_choice list \<Rightarrow> chunk_store" where
  "fresh_store base sz cs =
     \<lparr>base_path = base, in_store = {}, collector = lru_new sz,
       os = \<lparr>files = Map.empty, dirs = {}, choices = cs\<rparr>\<rparr>"

lemma fresh_store_fields [simp]:
  "base_path (fresh_store base sz cs) = base" "in_store (fresh_store base sz cs) = {}"
  "collector (fresh_store base sz cs) = lru_new sz" "store_lookup (fresh_store base sz cs) = Map.empty"
  by (auto simp: fresh_store_def store_lookup_def fun_eq_iff)

lemma fresh_store_wf: "short_base base \<Longrightarrow> 0 < sz \<Longrightarrow> store_wf (fresh_store base sz cs)"
  by (simp add: store_wf_def)

lemma fresh_store_inv:
  assumes "short_base base" "0 < sz" "Fault \<notin> set cs"
  shows "store_inv (fresh_store base sz cs)"
  using fresh_store_wf [OF assms(1,2), of cs] assms(3)
  by (simp add: store_inv_def store_inv_but_def no_fault_def) (simp add: fresh_store_def)

end
