(* ===== verification/Chunk_Store_Runs.thy ===== *)
theory Chunk_Store_Runs
  imports Chunk_Store
begin

text \<open>
  Sequences of calls on a ChunkStore against an abstract bounded cache, and the properties of
  the class.
\<close>

subsection \<open>Sequences of operations\<close>

text \<open>
  The specification: a map from ids to contents with a recency list of the ids in use. A
  write keeps only ids of the updated list; removing a chunk leaves the list as it is.
\<close>

datatype chunk_op = ReadChunk nat | WriteChunk nat bytes | RemoveChunk nat

fun cache_step :: "nat \<Rightarrow> chunk_op \<Rightarrow> (nat \<rightharpoonup> bytes) \<times> nat list \<Rightarrow>
    (ErrorCode \<times> bytes) \<times> (nat \<rightharpoonup> bytes) \<times> nat list" where
  "cache_step sz (ReadChunk i) (m, ids) =
     (case m i of None \<Rightarrow> ((NOT_FOUND, []), m, ids)
      | Some d \<Rightarrow> ((OK, d), m, fst (recency_update sz i ids)))"
| "cache_step sz (WriteChunk i d) (m, ids) =
     (let ids' = fst (recency_update sz i ids) in ((OK, []), m(i \<mapsto> d) |` set ids', ids'))"
| "cache_step sz (RemoveChunk i) (m, ids) =
     ((if m i = None then NOT_FOUND else OK, []), m(i := None), ids)"

fun cache_run :: "nat \<Rightarrow> chunk_op list \<Rightarrow> (nat \<rightharpoonup> bytes) \<times> nat list \<Rightarrow>
    (ErrorCode \<times> bytes) list \<times> (nat \<rightharpoonup> bytes) \<times> nat list" where
  "cache_run sz [] a = ([], a)"
| "cache_run sz (p # ps) a =
     (let (r, a') = cache_step sz p a; (rs, a'') = cache_run sz ps a' in (r # rs, a''))"

text \<open>The operations of the class, a read into a new buffer of the size of a chunk.\<close>

fun store_step :: "chunk_op \<Rightarrow> chunk_store \<Rightarrow> ((ErrorCode \<times> bytes) \<times> chunk_store) option" where
  "store_step (ReadChunk i) s = do {
     (err, buffer, sz, s') \<leftarrow> store_read_chunk i new_buffer 0 s;
     Some ((err, take sz buffer), s')
   }"
| "store_step (WriteChunk i d) s = do {
     (err, s') \<leftarrow> store_write_chunk i d (length d) s;
     Some ((err, []), s')
   }"
| "store_step (RemoveChunk i) s = (case store_remove_chunk i s of (err, s') \<Rightarrow> Some ((err, []), s'))"

fun store_run :: "chunk_op list \<Rightarrow> chunk_store \<Rightarrow> ((ErrorCode \<times> bytes) list \<times> chunk_store) option" where
  "store_run [] s = Some ([], s)"
| "store_run (p # ps) s = do {
     (r, s') \<leftarrow> store_step p s;
     (rs, s'') \<leftarrow> store_run ps s';
     Some (r # rs, s'')
   }"

fun op_ok :: "chunk_op \<Rightarrow> bool" where
  "op_ok (ReadChunk i) = (i < 2 ^ 32)"
| "op_ok (WriteChunk i d) = (i < 2 ^ 32 \<and> length d \<le> CHUNK_SIZE_BYTES)"
| "op_ok (RemoveChunk i) = (i < 2 ^ 32)"

definition store_abs :: "chunk_store \<Rightarrow> (nat \<rightharpoonup> bytes) \<times> nat list" where
  "store_abs s = (store_lookup s, lru_ids (collector s))"

lemma store_touch_recency:
  assumes "lru_inv (collector s)" "0 < lru_size (collector s)" and "store_touch i s = Some s'"
  shows "lru_ids (collector s') = fst (recency_update (lru_size (collector s)) i (lru_ids (collector s)))"
proof -
  obtain ids ev where r: "recency_update (lru_size (collector s)) i (lru_ids (collector s)) = (ids, ev)"
    by fastforce
  obtain c where "lru_update (\<lambda>l t. snd (store_remove_chunk l t)) i (collector s) s =
      Some (c, case ev of None \<Rightarrow> s | Some l \<Rightarrow> snd (store_remove_chunk l s))" "lru_ids c = ids"
    using lru.update_recency [OF assms(1,2) r, of "\<lambda>l t. snd (store_remove_chunk l t)" s] by blast
  with assms(3) show ?thesis by (auto simp: store_touch_def r)
qed


lemma store_touch_base:
  assumes "lru_inv (collector s)" "0 < lru_size (collector s)" and "store_touch i s = Some s'"
  shows "base_path s' = base_path s"
proof (rule store_touch_cases [OF assms(1,2), of i])
  fix c t
  assume u: "store_touch i s = Some (t\<lparr>collector := c\<rparr>)"
    and "t = s \<and> set (lru_ids c) = insert i (set (lru_ids (collector s))) \<or>
      (\<exists>l. t = snd (store_remove_chunk l s) \<and> l \<in> set (lru_ids (collector s)) \<and> l \<noteq> i \<and>
         i \<notin> set (lru_ids (collector s)) \<and> length (lru_ids (collector s)) = lru_size (collector s) \<and>
         set (lru_ids c) = insert i (set (lru_ids (collector s))) - {l})"
  then have "base_path t = base_path s" using store_remove_fields(1) by blast
  then show ?thesis using u assms(3) by simp
qed

lemma store_write_touch:
  "store_write_chunk i buffer n s = Some (OK, s') \<Longrightarrow>
     \<exists>v t. store_touch i (s\<lparr>os := v\<rparr>) = Some t \<and> s' = t\<lparr>in_store := insert i (in_store t)\<rparr>"
  by (auto simp: store_write_chunk_def bind_eq_Some_conv split: prod.splits sum.splits if_splits)

lemma store_write_base:
  assumes "store_inv s" and "store_write_chunk i buffer n s = Some (OK, s')"
  shows "base_path s' = base_path s"
  using store_write_touch [OF assms(2)] store_inv_fields(5,6) [OF assms(1)]
    store_touch_base [of "s\<lparr>os := v\<rparr>" i for v] by fastforce

lemma store_read_recency:
  assumes s: "store_bounded s" and d: "store_lookup s i = Some d"
  shows "\<exists>s'. store_step (ReadChunk i) s = Some ((OK, d), s') \<and> store_bounded s' \<and>
    lru_size (collector s') = lru_size (collector s) \<and> store_lookup s' = store_lookup s \<and>
    lru_ids (collector s') = fst (recency_update (lru_size (collector s)) i (lru_ids (collector s)))"
proof -
  have inv: "store_inv s" and len: "length d \<le> CHUNK_SIZE_BYTES"
    using s d by (auto simp: store_bounded_def)
  obtain s' where r: "store_read_chunk i new_buffer 0 s = Some (OK, d @ drop (length d) new_buffer, length d, s')"
      "store_inv s'" "store_lookup s' = store_lookup s" "lru_size (collector s') = lru_size (collector s)"
    using store_read_ok [OF inv d len, of new_buffer 0] by auto
  obtain fd w where o: "sys_open_rd (chunk_path s i) (os s) = (Inr fd, w)"
    using r(1) by (auto simp: store_read_chunk_def split: prod.splits sum.splits if_splits)
  obtain t where t: "store_touch i (s\<lparr>os := w\<rparr>) = Some t" "collector s' = collector t"
    using r(1) by (auto simp: store_read_chunk_def o bind_eq_Some_conv)
  have "lru_ids (collector s') = fst (recency_update (lru_size (collector s)) i (lru_ids (collector s)))"
    using store_touch_recency [OF _ _ t(1)] store_inv_fields(5,6) [OF inv] t(2) by simp
  then show ?thesis using r s by (auto simp: store_bounded_def)
qed

lemma store_write_recency:
  assumes s: "store_bounded s" and i: "i < 2 ^ 32" and d: "length d \<le> CHUNK_SIZE_BYTES"
  shows "\<exists>s'. store_step (WriteChunk i d) s = Some ((OK, []), s') \<and> store_bounded s' \<and>
    lru_size (collector s') = lru_size (collector s) \<and>
    lru_ids (collector s') = fst (recency_update (lru_size (collector s)) i (lru_ids (collector s))) \<and>
    store_lookup s' = ((store_lookup s)(i \<mapsto> d)) |` set (lru_ids (collector s'))"
proof -
  have inv: "store_inv s" using s by (simp add: store_bounded_def)
  have n: "length d \<le> length d" "length d < 2 ^ 32" using d chunk_size_lt_32 by auto
  obtain s' E where w: "store_write_chunk i d (length d) s = Some (OK, s')" "store_inv s'" "i \<notin> E"
      "store_lookup s' = (store_lookup s |` (- E))(i \<mapsto> d)"
      "lru_size (collector s') = lru_size (collector s)"
      "set (lru_ids (collector s')) = insert i (set (lru_ids (collector s))) - E"
    using store_write_ok [OF inv i n] by (simp only: take_all order_refl) blast
  obtain v t where t: "store_touch i (s\<lparr>os := v\<rparr>) = Some t" "collector s' = collector t"
    using store_write_touch [OF w(1)] by auto
  have "lru_ids (collector s') = fst (recency_update (lru_size (collector s)) i (lru_ids (collector s)))"
    using store_touch_recency [OF _ _ t(1)] store_inv_fields(5,6) [OF inv] t(2) by simp
  moreover have "store_lookup s' = ((store_lookup s)(i \<mapsto> d)) |` set (lru_ids (collector s'))"
  proof
    fix j
    have "j \<notin> set (lru_ids (collector s)) \<Longrightarrow> store_lookup s j = None"
      using store_inv_in_store [OF inv] store_inv_fields(3) [OF inv] by blast
    then show "store_lookup s' j = (((store_lookup s)(i \<mapsto> d)) |` set (lru_ids (collector s'))) j"
      using w(3) unfolding w(4,6) by (auto simp: restrict_map_def)
  qed
  moreover have "store_bounded s'"
    using s w(2,4) d by (auto simp: store_bounded_def restrict_map_def)
  ultimately show ?thesis using w(1,5) by auto
qed

lemma store_remove_recency:
  assumes s: "store_bounded s" and i: "i < 2 ^ 32"
  shows "\<exists>s'. store_step (RemoveChunk i) s =
      Some ((if store_lookup s i = None then NOT_FOUND else OK, []), s') \<and> store_bounded s' \<and>
    collector s' = collector s \<and> store_lookup s' = (store_lookup s)(i := None)"
proof -
  let ?t = "snd (store_remove_chunk i s)"
  have inv: "store_inv s" using s by (simp add: store_bounded_def)
  note f = store_inv_fields(1,2) [OF inv]
  have lk: "store_lookup ?t = (store_lookup s)(i := None)" by (rule store_lookup_remove [OF f i])
  have "store_inv ?t" using inv store_inv_but_remove [of "{}" s i] i by (simp add: store_inv_def)
  then have "store_bounded ?t" using s lk by (auto simp: store_bounded_def)
  moreover have "fst (store_remove_chunk i s) = (if store_lookup s i = None then NOT_FOUND else OK)"
    by (rule store_remove_cases [of i s]) (use f(2) i in \<open>auto simp: store_lookup_def\<close>)
  ultimately show ?thesis
    using lk store_remove_fields(2) [of i s] by (cases "store_remove_chunk i s") auto
qed

lemma store_step_refines:
  assumes s: "store_bounded s" and ok: "op_ok p"
  shows "\<exists>r s'. store_step p s = Some (r, s') \<and> store_bounded s' \<and>
    lru_size (collector s') = lru_size (collector s) \<and>
    cache_step (lru_size (collector s)) p (store_abs s) = (r, store_abs s')"
proof (cases p)
  case (ReadChunk i)
  have inv: "store_inv s" using s by (simp add: store_bounded_def)
  show ?thesis
  proof (cases "store_lookup s i")
    case None
    obtain s' where r: "store_read_chunk i new_buffer 0 s = Some (NOT_FOUND, new_buffer, 0, s')"
        "store_inv s'" "store_lookup s' = store_lookup s" "collector s' = collector s"
      using store_read_missing [OF inv _ None, of new_buffer 0] ok ReadChunk by auto
    then show ?thesis using s None ReadChunk by (auto simp: store_abs_def store_bounded_def)
  next
    case (Some d)
    from store_read_recency [OF s this] show ?thesis using Some ReadChunk by (auto simp: store_abs_def)
  qed
next
  case (WriteChunk i d)
  with ok have "i < 2 ^ 32" "length d \<le> CHUNK_SIZE_BYTES" by auto
  from store_write_recency [OF s this] show ?thesis using WriteChunk by (auto simp: store_abs_def Let_def)
next
  case (RemoveChunk i)
  with ok have "i < 2 ^ 32" by auto
  from store_remove_recency [OF s this] show ?thesis using RemoveChunk by (auto simp: store_abs_def)
qed

lemma store_run_refines:
  assumes "store_bounded s" and "\<forall>p \<in> set ps. op_ok p"
  shows "\<exists>rs s'. store_run ps s = Some (rs, s') \<and> store_bounded s' \<and>
    cache_run (lru_size (collector s)) ps (store_abs s) = (rs, store_abs s')"
  using assms
proof (induction ps arbitrary: s)
  case Nil
  then show ?case by simp
next
  case (Cons p ps)
  obtain r s1 where p: "store_step p s = Some (r, s1)" "store_bounded s1"
      "lru_size (collector s1) = lru_size (collector s)"
      "cache_step (lru_size (collector s)) p (store_abs s) = (r, store_abs s1)"
    using store_step_refines [OF Cons.prems(1), of p] Cons.prems(2) by auto
  have "\<forall>p \<in> set ps. op_ok p" using Cons.prems(2) by simp
  from Cons.IH [OF p(2) this] show ?case using p by (auto simp del: store_step.simps cache_step.simps)
qed

subsection \<open>Properties\<close>

text \<open>
  C11: As long as no system call fails, any sequence of reads, writes and removals on a store
  behaves as on a bounded map with least-recently-used eviction: every call is defined, the
  error codes and the contents read are those of the map, and the files in the directory are
  the map's contents afterwards.
\<close>

theorem chunk_store_refines_lru_map:
  assumes "store_bounded s" and "\<forall>p \<in> set ps. op_ok p"
  shows "\<exists>rs s'. store_run ps s = Some (rs, s') \<and> store_bounded s' \<and>
    cache_run (lru_size (collector s)) ps (store_abs s) = (rs, store_abs s')"
  using assms by (rule store_run_refines)

lemma fresh_store_bounded:
  "short_base base \<Longrightarrow> 0 < sz \<Longrightarrow> Fault \<notin> set cs \<Longrightarrow> store_bounded (fresh_store base sz cs)"
  by (simp add: store_bounded_def fresh_store_inv)

theorem chunk_store_refines_lru_map_witness:
  "\<exists>s'. store_run [WriteChunk 1 ''a'', WriteChunk 2 ''b'', ReadChunk 1, WriteChunk 3 ''c'', ReadChunk 2]
          (fresh_store ''/s'' 2 [Short 0]) =
        Some ([(OK, []), (OK, []), (OK, ''a''), (OK, []), (NOT_FOUND, [])], s') \<and>
      store_lookup s' = [1 \<mapsto> ''a'', 3 \<mapsto> ''c'']"
proof -
  have l: "length ''a'' \<le> CHUNK_SIZE_BYTES" "length ''b'' \<le> CHUNK_SIZE_BYTES"
      "length ''c'' \<le> CHUNK_SIZE_BYTES"
    by (simp_all add: CHUNK_SIZE_BYTES_def)
  have b: "store_bounded (fresh_store ''/s'' 2 [Short 0])"
    by (rule fresh_store_bounded) (simp_all add: short_base_def)
  obtain rs s' where r: "store_run [WriteChunk 1 ''a'', WriteChunk 2 ''b'', ReadChunk 1, WriteChunk 3 ''c'',
        ReadChunk 2] (fresh_store ''/s'' 2 [Short 0]) = Some (rs, s')"
    and c: "cache_run 2 [WriteChunk 1 ''a'', WriteChunk 2 ''b'', ReadChunk 1, WriteChunk 3 ''c'',
        ReadChunk 2] (Map.empty, []) = (rs, store_abs s')"
    using chunk_store_refines_lru_map [OF b, of "[WriteChunk 1 ''a'', WriteChunk 2 ''b'', ReadChunk 1,
        WriteChunk 3 ''c'', ReadChunk 2]"] l
    by (auto simp: store_abs_def simp del: store_run.simps cache_run.simps)
  have "rs = [(OK, []), (OK, []), (OK, ''a''), (OK, []), (NOT_FOUND, [])] \<and>
      store_lookup s' = [1 \<mapsto> ''a'', 3 \<mapsto> ''c'']"
    using c by (simp add: store_abs_def recency_update_def Let_def fun_upd_twist)
  with r show ?thesis by blast
qed

text \<open>
  C28: Whatever system calls fail or transfer only part of the data, a store stays well formed
  under reading, writing and removing a chunk: no call is undefined, the collector stays
  consistent, every id reported as available has a file, and all ids stay 32-bit numbers.
\<close>

theorem chunk_store_wf_under_faults:
  assumes "store_wf s" and "i < 2 ^ 32" and "CHUNK_SIZE_BYTES \<le> length buffer"
    and "n \<le> length src" and "n < 2 ^ 32"
  shows "(\<exists>err buffer' sz' s'. store_read_chunk i buffer sz s = Some (err, buffer', sz', s') \<and>
            store_wf s' \<and> length buffer' = length buffer) \<and>
         (\<exists>err s'. store_write_chunk i src n s = Some (err, s') \<and> store_wf s') \<and>
         store_wf (snd (store_remove_chunk i s))"
  using store_read_wf [OF assms(1-3)] store_write_wf [OF assms(1,2,4,5)] store_remove_wf [OF assms(1,2)]
  by blast

theorem chunk_store_wf_under_faults_witness:
  "\<exists>err s'. store_write_chunk 5 ''abc'' 3 (fresh_store ''/s'' 1 [Full, Fault]) = Some (err, s') \<and> store_wf s'"
  using chunk_store_wf_under_faults [of "fresh_store ''/s'' 1 [Full, Fault]" 5 new_buffer 3 "''abc''" 0]
    fresh_store_wf [of "''/s''" 1 "[Full, Fault]"]
  by (simp add: short_base_def)

text \<open>
  A chunk that a write reported as stored is read back unchanged, however the reads and
  writes are split by the system: the buffer receives the content, its rest keeps what it
  held, and the size is the content's.
\<close>

theorem chunk_store_read_after_write:
  assumes "store_bounded s" and "i < 2 ^ 32" and "n \<le> length src" and "n \<le> CHUNK_SIZE_BYTES"
    and "CHUNK_SIZE_BYTES \<le> length buffer"
  shows "\<exists>s' s''. store_write_chunk i src n s = Some (OK, s') \<and>
    store_read_chunk i buffer sz s' = Some (OK, take n src @ drop n buffer, n, s'')"
  using chunk_files.read_after_write [OF assms(1-3) _ assms(5)] assms(4) by simp

theorem chunk_store_read_after_write_witness:
  "\<exists>s' s''. store_write_chunk 258 ''abc'' 3 (fresh_store ''/s'' 1 [Full, Full, Full, Full, Full, Short 0, Short 1]) =
        Some (OK, s') \<and>
      store_read_chunk 258 new_buffer 0 s' = Some (OK, ''abc'' @ drop 3 new_buffer, 3, s'')"
proof -
  have "store_bounded (fresh_store ''/s'' 1 [Full, Full, Full, Full, Full, Short 0, Short 1])"
    by (rule fresh_store_bounded) (simp_all add: short_base_def)
  from chunk_store_read_after_write [OF this, of 258 3 "''abc''" new_buffer 0] show ?thesis
    by (simp add: CHUNK_SIZE_BYTES_def)
qed

text \<open>
  C33: The paths of two different 32-bit chunk ids under one base directory are different, no
  chunk's path lies below another's, and the last component of a path, parsed as the
  constructor parses directory entries, is the id again.
\<close>

theorem chunk_paths_separate:
  assumes "short_base base" and "i < 2 ^ 32" and "j < 2 ^ 32"
  shows "(id_to_path base i = id_to_path base j \<longleftrightarrow> i = j) \<and>
    (\<forall>q r. id_to_path base i = q @ CHR ''/'' # r \<longrightarrow> q \<noteq> id_to_path base j) \<and>
    (\<exists>dir. id_to_path base i = dir @ ''/'' @ to_hex i) \<and> strtol16 (to_hex i) = (int i, [])"
proof (intro conjI)
  show "id_to_path base i = id_to_path base j \<longleftrightarrow> i = j"
    using id_to_path_inj [OF assms] by auto
  show "\<forall>q r. id_to_path base i = q @ CHR ''/'' # r \<longrightarrow> q \<noteq> id_to_path base j"
    using id_to_path_prefix [OF assms] by blast
  show "\<exists>dir. id_to_path base i = dir @ ''/'' @ to_hex i"
    unfolding id_to_path_full [OF assms(1,2)]
    by (rule exI [of _ "base @ ''/'' @ to_hex (i mod 256) @ ''/'' @ to_hex ((i div 256) mod 256)"]) simp
  show "strtol16 (to_hex i) = (int i, [])" using assms(2) by (intro strtol16_to_hex) simp
qed

theorem chunk_paths_separate_witness:
  "id_to_path ''/s'' 1 \<noteq> id_to_path ''/s'' 257 \<and> strtol16 (to_hex 257) = (257, [])"
proof -
  have "short_base ''/s''" by (simp add: short_base_def)
  from chunk_paths_separate [OF this, of 1 257] chunk_paths_separate [OF this, of 257 1]
  show ?thesis by simp
qed



end
