(* ===== verification/Store_Threads.thy ===== *)
theory Store_Threads
  imports Chunk_Store
begin

text \<open>
  data/chunk_store.cc with several threads inside \<open>read_chunk\<close> and \<open>write_chunk\<close> at the same time,
  as the server, the mount and the fetches of a node make them: no mutex covers the files. A step
  is one system call, one call of the collector (which holds its mutex meanwhile) or one access to
  the set of chunks. The paths of the chunks are separate (\<open>id_to_path_inj\<close>), so that a file is
  named by its chunk here; a descriptor is an inode, which lives on when its name is removed.
\<close>

subsection \<open>The state that the threads share\<close>

text \<open>
  The program does not keep the last two fields: \<open>chunk_of f\<close> is the chunk the inode was created for,
  and \<open>writer f\<close> the thread that truncated it last, until this thread has written all of its data.
\<close>

record shared_disk =
  linked :: "nat \<rightharpoonup> nat"
  inode :: "nat \<Rightarrow> bytes"
  next_inode :: nat
  listed :: "nat set"
  ranking :: LruCollector
  chunk_of :: "nat \<Rightarrow> nat"
  writer :: "nat \<Rightarrow> nat option"

datatype store_op = ReadChunk | WriteChunk

datatype store_pc =
    OpenRead | ReadTouch nat | Reading nat
  | MakeDirs | OpenWrite | Writing nat nat | WriteTouch | Enlist
  | Ended ErrorCode

text \<open>A call with its buffer and \<open>size\<close>, which counts the bytes that a read has got.\<close>

record store_call =
  sc_op :: store_op
  sc_at :: store_pc
  sc_id :: nat
  sc_buffer :: bytes
  sc_size :: nat

definition disk_remove :: "os_choice \<Rightarrow> nat \<Rightarrow> shared_disk \<Rightarrow> shared_disk" where
  "disk_remove c i d =
     (if c = Fault \<or> linked d i = None then d else d\<lparr>linked := (linked d)(i := None), listed := listed d - {i}\<rparr>)"

definition disk_touch :: "os_choice \<Rightarrow> nat \<Rightarrow> shared_disk \<Rightarrow> shared_disk option" where
  "disk_touch c i d =
     (case lru_update (disk_remove c) i (ranking d) d of
        None \<Rightarrow> None
      | Some (l, d') \<Rightarrow> Some (d'\<lparr>ranking := l\<rparr>))"

text \<open>\<^verbatim>\<open>write\<close> at an offset; what lies between the end of the file and the offset is read as NUL.\<close>

definition pwrite :: "bytes \<Rightarrow> nat \<Rightarrow> bytes \<Rightarrow> bytes" where
  "pwrite x off s =
     (if s = [] then x
      else take off x @ replicate (off - length x) (CHR 0x00) @ s @ drop (off + length s) x)"

definition open_write :: "nat \<Rightarrow> nat \<Rightarrow> shared_disk \<Rightarrow> nat \<times> shared_disk" where
  "open_write t i d =
     (let f = (case linked d i of None \<Rightarrow> next_inode d | Some f \<Rightarrow> f)
      in (f, d\<lparr>linked := (linked d)(i \<mapsto> f), inode := (inode d)(f := []), next_inode := max (next_inode d) (Suc f),
               chunk_of := (chunk_of d)(f := i), writer := (writer d)(f \<mapsto> t)\<rparr>))"

text \<open>
  The next piece of the call of thread \<open>t\<close>, with the decision \<open>c\<close> of the system on its system call;
  \<open>None\<close> is undefined behaviour.
\<close>

definition store_advance :: "os_choice \<Rightarrow> nat \<Rightarrow> store_call \<Rightarrow> shared_disk \<Rightarrow> (store_call \<times> shared_disk) option" where
  "store_advance c t k d =
     (case sc_at k of
        OpenRead \<Rightarrow>
          Some (k\<lparr>sc_at := (if c = Fault then Ended INTERNAL_ERROR
             else case linked d (sc_id k) of None \<Rightarrow> Ended NOT_FOUND | Some f \<Rightarrow> ReadTouch f)\<rparr>, d)
      | ReadTouch f \<Rightarrow> do {
          d' \<leftarrow> disk_touch c (sc_id k) d;
          Some (k\<lparr>sc_at := Reading f, sc_size := 0\<rparr>, d')
        }
      | Reading f \<Rightarrow>
          if c = Fault then Some (k\<lparr>sc_at := Ended INTERNAL_ERROR, sc_size := wrap 32 (int (sc_size k) - 1)\<rparr>, d)
          else
            let n = transfer c (min (CHUNK_SIZE_BYTES - sc_size k) (length (inode d f) - sc_size k))
            in do {
              buffer \<leftarrow> blit (sc_buffer k) (sc_size k) (take n (drop (sc_size k) (inode d f)));
              Some (k\<lparr>sc_at := (if 0 < CHUNK_SIZE_BYTES - (sc_size k + n) \<and> 0 < n then Reading f else Ended OK),
                      sc_buffer := buffer, sc_size := sc_size k + n\<rparr>, d)
            }
      | MakeDirs \<Rightarrow> Some (k\<lparr>sc_at := (if c = Fault then Ended INTERNAL_ERROR else OpenWrite)\<rparr>, d)
      | OpenWrite \<Rightarrow>
          if c = Fault then Some (k\<lparr>sc_at := Ended INTERNAL_ERROR\<rparr>, d)
          else (case open_write t (sc_id k) d of (f, d') \<Rightarrow> Some (k\<lparr>sc_at := Writing f 0\<rparr>, d'))
      | Writing f off \<Rightarrow>
          if c = Fault then Some (k\<lparr>sc_at := Ended INTERNAL_ERROR\<rparr>, d)
          else
            let n = transfer c (sc_size k - off); more = (0 < sc_size k - (off + n) \<and> 0 < n)
            in do {
              s \<leftarrow> slice (sc_buffer k) off n;
              Some (k\<lparr>sc_at := (if more then Writing f (off + n) else WriteTouch)\<rparr>,
                    d\<lparr>inode := (inode d)(f := pwrite (inode d f) off s),
                      writer := (if \<not> more \<and> writer d f = Some t then (writer d)(f := None) else writer d)\<rparr>)
            }
      | WriteTouch \<Rightarrow> do {
          d' \<leftarrow> disk_touch c (sc_id k) d;
          Some (k\<lparr>sc_at := Enlist\<rparr>, d')
        }
      | Enlist \<Rightarrow> Some (k\<lparr>sc_at := Ended OK\<rparr>, d\<lparr>listed := insert (sc_id k) (listed d)\<rparr>)
      | Ended err \<Rightarrow> None)"

text \<open>
  The threads. They write the chunks of a volume \<open>R\<close> only, as \<^verbatim>\<open>fetch_chunk\<close> does, and the decisions
  of the system are among \<open>C\<close>; a thread that has finished a call may make the next one.
\<close>

definition idle :: "(nat \<rightharpoonup> store_call) \<Rightarrow> nat \<Rightarrow> bool" where
  "idle calls t \<longleftrightarrow> (case calls t of None \<Rightarrow> True | Some k \<Rightarrow> (case sc_at k of Ended err \<Rightarrow> True | _ \<Rightarrow> False))"

inductive store_threads_step ::
    "(nat \<rightharpoonup> bytes) \<Rightarrow> os_choice set \<Rightarrow> shared_disk \<times> (nat \<rightharpoonup> store_call) \<Rightarrow> shared_disk \<times> (nat \<rightharpoonup> store_call) \<Rightarrow> bool"
    for R C where
  begin_read: "idle calls t \<Longrightarrow> sc_op k = ReadChunk \<Longrightarrow> sc_at k = OpenRead \<Longrightarrow> length (sc_buffer k) = CHUNK_SIZE_BYTES \<Longrightarrow>
    store_threads_step R C (d, calls) (d, calls(t \<mapsto> k))"
| begin_write: "idle calls t \<Longrightarrow> sc_op k = WriteChunk \<Longrightarrow> sc_at k = MakeDirs \<Longrightarrow> sc_size k \<le> length (sc_buffer k) \<Longrightarrow>
    R (sc_id k) = Some (take (sc_size k) (sc_buffer k)) \<Longrightarrow> store_threads_step R C (d, calls) (d, calls(t \<mapsto> k))"
| run: "calls t = Some k \<Longrightarrow> c \<in> C \<Longrightarrow> store_advance c t k d = Some (k', d') \<Longrightarrow>
    store_threads_step R C (d, calls) (d', calls(t \<mapsto> k'))"

text \<open>A store in which nothing is going on: its files are whole.\<close>

definition quiet_disk :: "(nat \<rightharpoonup> bytes) \<Rightarrow> shared_disk \<Rightarrow> bool" where
  "quiet_disk R d \<longleftrightarrow> lru_inv (ranking d) \<and> 0 < lru_size (ranking d) \<and> (\<forall>f. writer d f = None) \<and>
     (\<forall>i f. linked d i = Some f \<longrightarrow> f < next_inode d \<and> chunk_of d f = i) \<and>
     (\<forall>f < next_inode d. R (chunk_of d f) = Some (inode d f))"

abbreviation store_threads_run ::
    "(nat \<rightharpoonup> bytes) \<Rightarrow> os_choice set \<Rightarrow> shared_disk \<Rightarrow> shared_disk \<times> (nat \<rightharpoonup> store_call) \<Rightarrow> bool" where
  "store_threads_run R C d0 x \<equiv> (store_threads_step R C)\<^sup>*\<^sup>* (d0, Map.empty) x"

subsection \<open>Files under several writers\<close>

text \<open>
  \<open>patchy z x\<close>: \<open>x\<close> is a part of \<open>z\<close> with holes. \<open>agrees z o x\<close>: the first \<open>o\<close> bytes are there.
\<close>

definition patchy :: "bytes \<Rightarrow> bytes \<Rightarrow> bool" where
  "patchy z x \<longleftrightarrow> length x \<le> length z \<and> (\<forall>p < length x. x ! p = z ! p \<or> x ! p = CHR 0x00)"

definition agrees :: "bytes \<Rightarrow> nat \<Rightarrow> bytes \<Rightarrow> bool" where
  "agrees z off x \<longleftrightarrow> off \<le> length x \<and> take off x = take off z"

lemma patchy_refl [simp]: "patchy z z"
  by (simp add: patchy_def)

lemma patchy_Nil [simp]: "patchy z []"
  by (simp add: patchy_def)

lemma agrees_0 [simp]: "agrees z 0 x"
  by (simp add: agrees_def)

lemma agrees_all: "patchy z x \<Longrightarrow> agrees z (length z) x \<Longrightarrow> x = z"
  by (auto simp: patchy_def agrees_def)

lemma length_pwrite: "length (pwrite x off s) = (if s = [] then length x else max (length x) (off + length s))"
  by (simp add: pwrite_def) linarith

lemma pwrite_nth:
  "p < length (pwrite x off s) \<Longrightarrow>
     pwrite x off s ! p = (if off \<le> p \<and> p < off + length s then s ! (p - off) else if p < length x then x ! p else CHR 0x00)"
  unfolding length_pwrite by (auto simp: pwrite_def nth_append min_def)

text \<open>A piece of \<open>z\<close> that is written at its place.\<close>

definition piece :: "bytes \<Rightarrow> nat \<Rightarrow> bytes \<Rightarrow> bool" where
  "piece z off s \<longleftrightarrow> off + length s \<le> length z \<and> (\<forall>p. off \<le> p \<and> p < off + length s \<longrightarrow> s ! (p - off) = z ! p)"

lemma piece_take: "off + n \<le> length z \<Longrightarrow> piece z off (take n (drop off z))"
  by (auto simp: piece_def)

lemma agrees_iff: "off \<le> length z \<Longrightarrow> agrees z off x \<longleftrightarrow> off \<le> length x \<and> (\<forall>p < off. x ! p = z ! p)"
  unfolding agrees_def by (auto simp: list_eq_iff_nth_eq)

lemma agrees_le: "patchy z x \<Longrightarrow> agrees z m x \<Longrightarrow> m \<le> length z"
  by (simp add: patchy_def agrees_def)

lemma pwrite_patchy:
  assumes "patchy z x" and "piece z off s"
  shows "patchy z (pwrite x off s)"
  unfolding patchy_def
proof (intro conjI allI impI)
  show "length (pwrite x off s) \<le> length z" using assms by (simp add: length_pwrite patchy_def piece_def)
  fix p
  assume "p < length (pwrite x off s)"
  then show "pwrite x off s ! p = z ! p \<or> pwrite x off s ! p = CHR 0x00"
    unfolding pwrite_nth [OF \<open>p < length (pwrite x off s)\<close>] using assms by (simp add: patchy_def piece_def)
qed

lemma pwrite_agrees:
  assumes "patchy z x" and "piece z off s" and "agrees z m x"
  shows "agrees z m (pwrite x off s)"
proof -
  have m: "m \<le> length z" by (rule agrees_le [OF assms(1,3)])
  note x = assms(3) [unfolded agrees_iff [OF m]]
  have l: "m \<le> length (pwrite x off s)" using x by (auto simp: length_pwrite)
  have "pwrite x off s ! p = z ! p" if "p < m" for p
    using that l x assms(2) by (subst pwrite_nth) (auto simp: piece_def)
  then show ?thesis using l by (simp add: agrees_iff [OF m])
qed

lemma pwrite_extends:
  assumes "patchy z x" and "piece z off s" and "agrees z off x"
  shows "agrees z (off + length s) (pwrite x off s)"
proof -
  have m: "off + length s \<le> length z" "off \<le> length z" using assms(2) by (simp_all add: piece_def)
  note x = assms(3) [unfolded agrees_iff [OF m(2)]]
  have l: "off + length s \<le> length (pwrite x off s)" using x by (simp add: length_pwrite)
  have "pwrite x off s ! p = z ! p" if "p < off + length s" for p
    using that l x assms(2) by (subst pwrite_nth) (auto simp: piece_def)
  then show ?thesis using l by (simp add: agrees_iff [OF m(1)])
qed

lemma pwrite_whole: "piece z off s \<Longrightarrow> pwrite z off s = z"
  using agrees_all [OF pwrite_patchy [OF patchy_refl]] pwrite_agrees [OF patchy_refl, of z off s "length z"]
  by (simp add: agrees_def)

subsection \<open>The invariant\<close>

text \<open>\<open>got_so_far\<close>: what a read has got is a part of the published chunk, with holes.\<close>

definition disk_ok :: "(nat \<rightharpoonup> bytes) \<Rightarrow> shared_disk \<Rightarrow> bool" where
  "disk_ok R d \<longleftrightarrow> lru_inv (ranking d) \<and> 0 < lru_size (ranking d) \<and>
     (\<forall>i f. linked d i = Some f \<longrightarrow> f < next_inode d \<and> chunk_of d f = i) \<and>
     (\<forall>f < next_inode d. \<exists>z. R (chunk_of d f) = Some z \<and> patchy z (inode d f) \<and> (writer d f = None \<longrightarrow> inode d f = z))"

definition got_so_far :: "(nat \<rightharpoonup> bytes) \<Rightarrow> store_call \<Rightarrow> bool" where
  "got_so_far R k \<longleftrightarrow> sc_size k \<le> length (sc_buffer k) \<and> (\<exists>z. R (sc_id k) = Some z \<and> patchy z (take (sc_size k) (sc_buffer k)))"

definition to_write :: "(nat \<rightharpoonup> bytes) \<Rightarrow> store_call \<Rightarrow> bool" where
  "to_write R k \<longleftrightarrow> sc_size k \<le> length (sc_buffer k) \<and> R (sc_id k) = Some (take (sc_size k) (sc_buffer k))"

definition own_file :: "shared_disk \<Rightarrow> store_call \<Rightarrow> nat \<Rightarrow> bool" where
  "own_file d k f \<longleftrightarrow> f < next_inode d \<and> chunk_of d f = sc_id k"

definition sc_ok :: "(nat \<rightharpoonup> bytes) \<Rightarrow> shared_disk \<Rightarrow> nat \<Rightarrow> store_call \<Rightarrow> bool" where
  "sc_ok R d t k \<longleftrightarrow>
     (case sc_at k of
        OpenRead \<Rightarrow> sc_op k = ReadChunk \<and> length (sc_buffer k) = CHUNK_SIZE_BYTES
      | ReadTouch f \<Rightarrow> sc_op k = ReadChunk \<and> length (sc_buffer k) = CHUNK_SIZE_BYTES \<and> own_file d k f
      | Reading f \<Rightarrow> sc_op k = ReadChunk \<and> length (sc_buffer k) = CHUNK_SIZE_BYTES \<and> own_file d k f \<and> got_so_far R k
      | Writing f off \<Rightarrow> sc_op k = WriteChunk \<and> to_write R k \<and> own_file d k f \<and> off \<le> sc_size k \<and>
          (writer d f = Some t \<longrightarrow> agrees (take (sc_size k) (sc_buffer k)) off (inode d f))
      | Ended err \<Rightarrow> sc_op k = ReadChunk \<longrightarrow> err = OK \<longrightarrow> got_so_far R k
      | _ \<Rightarrow> sc_op k = WriteChunk \<and> to_write R k)"

text \<open>What a step of thread \<open>t\<close> leaves to the other threads.\<close>

definition spares :: "(nat \<rightharpoonup> bytes) \<Rightarrow> nat \<Rightarrow> shared_disk \<Rightarrow> shared_disk \<Rightarrow> bool" where
  "spares R t d d' \<longleftrightarrow> next_inode d \<le> next_inode d' \<and>
     (\<forall>f < next_inode d. chunk_of d' f = chunk_of d f \<and>
        (\<forall>u z m. u \<noteq> t \<and> writer d' f = Some u \<and> R (chunk_of d f) = Some z \<longrightarrow>
           writer d f = Some u \<and> (agrees z m (inode d f) \<longrightarrow> agrees z m (inode d' f))))"

lemma spares_refl [simp]: "spares R t d d"
  by (simp add: spares_def)

lemma sc_ok_spares:
  assumes "sc_ok R d u k" and "spares R t d d'" and "u \<noteq> t"
  shows "sc_ok R d' u k"
proof (cases "sc_at k")
  case (Writing f off)
  then have k: "own_file d k f" "to_write R k" "writer d f = Some u \<longrightarrow> agrees (take (sc_size k) (sc_buffer k)) off (inode d f)"
    using assms(1) by (simp_all add: sc_ok_def)
  have "R (chunk_of d f) = Some (take (sc_size k) (sc_buffer k))" using k(1,2) by (simp add: own_file_def to_write_def)
  then have "writer d' f = Some u \<longrightarrow> agrees (take (sc_size k) (sc_buffer k)) off (inode d' f)"
    using assms(2,3) k(1,3) by (auto simp: spares_def own_file_def)
  then show ?thesis using assms(1,2) k(1) Writing by (auto simp: sc_ok_def own_file_def spares_def)
qed (use assms(1,2) in \<open>auto simp: sc_ok_def own_file_def spares_def\<close>)

lemma disk_remove_frame [simp]:
  "inode (disk_remove c i d) = inode d" "next_inode (disk_remove c i d) = next_inode d"
  "chunk_of (disk_remove c i d) = chunk_of d" "writer (disk_remove c i d) = writer d"
  "linked (disk_remove c i d) \<subseteq>\<^sub>m linked d"
  by (auto simp: disk_remove_def map_le_def)

lemma disk_touch_frame:
  assumes "disk_touch c i d = Some d'"
  shows "inode d' = inode d \<and> next_inode d' = next_inode d \<and> chunk_of d' = chunk_of d \<and> writer d' = writer d \<and> linked d' \<subseteq>\<^sub>m linked d"
  using assms by (auto simp: disk_touch_def lru_update_def Let_def split: option.splits if_splits)

lemma disk_touch_ok:
  assumes "disk_ok R d"
  shows "\<exists>d'. disk_touch c i d = Some d' \<and> disk_ok R d' \<and> spares R t d d' \<and> (\<forall>k f. own_file d' k f \<longleftrightarrow> own_file d k f)"
proof -
  have lru: "lru_inv (ranking d)" "0 < lru_size (ranking d)" using assms by (simp_all add: disk_ok_def)
  obtain ids ev where "recency_update (lru_size (ranking d)) i (lru_ids (ranking d)) = (ids, ev)" by fastforce
  from lru_update_recency [OF lru this, of "disk_remove c" d] obtain l d1 where
    u: "lru_update (disk_remove c) i (ranking d) d = Some (l, d1)" "lru_inv l" "lru_size l = lru_size (ranking d)" by auto
  then have t: "disk_touch c i d = Some (d1\<lparr>ranking := l\<rparr>)" by (simp add: disk_touch_def)
  note fr = disk_touch_frame [OF t]
  have sub: "linked d1 \<subseteq>\<^sub>m linked d" using fr by simp
  have "disk_ok R (d1\<lparr>ranking := l\<rparr>)"
    using assms fr u(2,3) sub by (auto simp: disk_ok_def map_le_def dom_def)
  then show ?thesis using t fr by (auto simp: spares_def own_file_def)
qed

lemma patchy_append:
  assumes "patchy z a" and "patchy z x" and "length a + n \<le> length x"
  shows "patchy z (a @ take n (drop (length a) x))"
  using assms by (auto simp: patchy_def nth_append)

lemma own_published:
  assumes "disk_ok R d" and "own_file d k f"
  obtains z where "R (sc_id k) = Some z" and "patchy z (inode d f)" and "writer d f = None \<longrightarrow> inode d f = z"
  using assms by (auto simp: disk_ok_def own_file_def)

definition good_advance :: "(nat \<rightharpoonup> bytes) \<Rightarrow> nat \<Rightarrow> shared_disk \<Rightarrow> (store_call \<times> shared_disk) option \<Rightarrow> bool" where
  "good_advance R t d r \<longleftrightarrow> (\<exists>k' d'. r = Some (k', d') \<and> disk_ok R d' \<and> sc_ok R d' t k' \<and> spares R t d d')"

lemma good_advanceI: "disk_ok R d' \<Longrightarrow> sc_ok R d' t k' \<Longrightarrow> spares R t d d' \<Longrightarrow> good_advance R t d (Some (k', d'))"
  by (simp add: good_advance_def)

lemma advance_reading:
  assumes d: "disk_ok R d" and k: "sc_ok R d t k" and f: "sc_at k = Reading f"
  shows "good_advance R t d (store_advance c t k d)"
proof (cases "c = Fault")
  case True
  then show ?thesis using d f by (simp add: store_advance_def good_advance_def sc_ok_def)
next
  case False
  have r: "sc_op k = ReadChunk" "length (sc_buffer k) = CHUNK_SIZE_BYTES" "own_file d k f" "got_so_far R k"
    using k f by (simp_all add: sc_ok_def)
  obtain z where z: "R (sc_id k) = Some z" "patchy z (inode d f)" using own_published [OF d r(3)] by metis
  have got: "sc_size k \<le> length (sc_buffer k)" "patchy z (take (sc_size k) (sc_buffer k))" using r(4) z(1) by (auto simp: got_so_far_def)
  define n where "n = transfer c (min (CHUNK_SIZE_BYTES - sc_size k) (length (inode d f) - sc_size k))"
  define got' where "got' = take n (drop (sc_size k) (inode d f))"
  have n: "n \<le> CHUNK_SIZE_BYTES - sc_size k" "n \<le> length (inode d f) - sc_size k" using transfer_le [of c] unfolding n_def by (metis min.bounded_iff)+
  then have l: "length got' = n" by (simp add: got'_def)
  define buffer where "buffer = take (sc_size k) (sc_buffer k) @ got' @ drop (sc_size k + n) (sc_buffer k)"
  have b: "blit (sc_buffer k) (sc_size k) got' = Some buffer" using n(1) got(1) r(2) l by (simp add: blit_def buffer_def)
  have lb: "length buffer = CHUNK_SIZE_BYTES" using blit_length [OF b] r(2) by simp
  have lt: "length (take (sc_size k) (sc_buffer k)) = sc_size k" using got(1) by simp
  have "take (sc_size k + n) buffer = take (sc_size k) (sc_buffer k) @ got'" using got(1) l by (simp add: buffer_def)
  also have "patchy z \<dots>"
  proof (cases "n = 0")
    case True
    then show ?thesis using got(2) by (simp add: got'_def)
  next
    case False
    then have "sc_size k + n \<le> length (inode d f)" using n(2) by simp
    then show ?thesis using patchy_append [OF got(2) z(2), of n] unfolding lt got'_def by simp
  qed
  finally have "patchy z (take (sc_size k + n) buffer)" .
  then have "got_so_far R (k\<lparr>sc_at := at', sc_buffer := buffer, sc_size := sc_size k + n\<rparr>)" for at'
    using z(1) lb n(1) got(1) r(2) by (auto simp: got_so_far_def)
  then show ?thesis
    unfolding store_advance_def f store_pc.case if_not_P [OF False] Let_def n_def [symmetric] got'_def [symmetric] b
    using d r lb by (auto simp: good_advance_def sc_ok_def own_file_def)
qed

lemma advance_open_write:
  assumes d: "disk_ok R d" and k: "sc_ok R d t k" and o: "sc_at k = OpenWrite"
  shows "good_advance R t d (store_advance c t k d)"
proof (cases "c = Fault")
  case True
  then show ?thesis using d k o by (simp add: store_advance_def good_advance_def sc_ok_def)
next
  case False
  have w: "sc_op k = WriteChunk" "to_write R k" using k o by (simp_all add: sc_ok_def)
  have R: "R (sc_id k) \<noteq> None" using w(2) by (simp add: to_write_def)
  obtain f d' where f: "open_write t (sc_id k) d = (f, d')" by fastforce
  then have d': "d' = d\<lparr>linked := (linked d)(sc_id k \<mapsto> f), inode := (inode d)(f := []), next_inode := max (next_inode d) (Suc f),
      chunk_of := (chunk_of d)(f := sc_id k), writer := (writer d)(f \<mapsto> t)\<rparr>"
    and f_cases: "f = next_inode d \<or> linked d (sc_id k) = Some f"
    by (auto simp: open_write_def Let_def split: option.splits)
  have links: "g < next_inode d \<and> chunk_of d g = j" if "linked d j = Some g" for j g using d that by (auto simp: disk_ok_def)
  have own: "f < next_inode d \<Longrightarrow> chunk_of d f = sc_id k" using f_cases links by auto
  have nx: "next_inode d' = (if f < next_inode d then next_inode d else Suc f)" "f \<le> next_inode d"
    using f_cases links [of "sc_id k" f] by (auto simp: d')
  have "disk_ok R d'"
    unfolding disk_ok_def
  proof (intro conjI allI impI)
    show "lru_inv (ranking d')" "0 < lru_size (ranking d')" using d by (simp_all add: d' disk_ok_def)
    fix j g
    assume "linked d' j = Some g"
    then show "g < next_inode d'" "chunk_of d' g = j"
      using links [of j g] nx own by (auto simp: d' split: if_splits)
  next
    fix g
    assume g: "g < next_inode d'"
    show "\<exists>z. R (chunk_of d' g) = Some z \<and> patchy z (inode d' g) \<and> (writer d' g = None \<longrightarrow> inode d' g = z)"
    proof (cases "g = f")
      case True
      then show ?thesis using R by (auto simp: d')
    next
      case False
      then have "g < next_inode d" using g nx by (auto split: if_splits)
      then show ?thesis using d False by (simp add: d' disk_ok_def)
    qed
  qed
  moreover have "sc_ok R d' t (k\<lparr>sc_at := Writing f 0\<rparr>)"
    using w by (simp add: sc_ok_def to_write_def own_file_def d')
  moreover have "spares R t d d'" using own by (auto simp: spares_def d')
  ultimately show ?thesis using False o f by (simp add: store_advance_def good_advance_def)
qed

lemma advance_writing:
  assumes d: "disk_ok R d" and k: "sc_ok R d t k" and o: "sc_at k = Writing f off"
  shows "good_advance R t d (store_advance c t k d)"
proof (cases "c = Fault")
  case True
  have "sc_op k = WriteChunk" using k o by (simp add: sc_ok_def)
  then show ?thesis using True d o by (simp add: store_advance_def good_advance_def sc_ok_def)
next
  case False
  define z where "z = take (sc_size k) (sc_buffer k)"
  have w: "sc_op k = WriteChunk" "to_write R k" "own_file d k f" "off \<le> sc_size k" "writer d f = Some t \<longrightarrow> agrees z off (inode d f)"
    using k o by (simp_all add: sc_ok_def z_def)
  have z: "R (sc_id k) = Some z" "length z = sc_size k" "sc_size k \<le> length (sc_buffer k)"
    using w(2) by (simp_all add: to_write_def z_def)
  have x: "patchy z (inode d f)" "writer d f = None \<longrightarrow> inode d f = z" using own_published [OF d w(3)] z(1) by (metis option.inject)+
  define n where "n = transfer c (sc_size k - off)"
  have n: "n \<le> sc_size k - off" "0 < sc_size k - off \<Longrightarrow> 0 < n"
    using transfer_le transfer_pos [OF False] unfolding n_def by simp_all
  have on: "off + n \<le> length z" using n(1) w(4) z(2) by simp
  have "take n (drop off (sc_buffer k)) = take n (drop off z)" using n(1) by (simp add: z_def drop_take min_absorb1)
  then have s: "slice (sc_buffer k) off n = Some (take n (drop off z))" using on z(2,3) by (simp add: slice_def)
  have l: "length (take n (drop off z)) = n" using on by simp
  have p: "piece z off (take n (drop off z))" by (rule piece_take [OF on])
  define x' where "x' = pwrite (inode d f) off (take n (drop off z))"
  define more where "more \<longleftrightarrow> 0 < sc_size k - (off + n) \<and> 0 < n"
  define d' where "d' = d\<lparr>inode := (inode d)(f := x'), writer := (if \<not> more \<and> writer d f = Some t then (writer d)(f := None) else writer d)\<rparr>"
  have x': "patchy z x'" "agrees z m (inode d f) \<Longrightarrow> agrees z m x'" for m
    unfolding x'_def by (rule pwrite_patchy [OF x(1) p], rule pwrite_agrees [OF x(1) p])
  have ext: "writer d f = Some t \<Longrightarrow> agrees z (off + n) x'"
    using pwrite_extends [OF x(1) p] w(5) unfolding x'_def l by blast
  have all: "\<not> more \<Longrightarrow> off + n = length z" using n w(4) z(2) by (cases "off < sc_size k") (auto simp: more_def)
  have whole: "x' = z" if "writer d' f = None"
  proof (cases "writer d f")
    case None
    then show ?thesis using x(2) pwrite_whole [OF p] by (simp add: x'_def)
  next
    case (Some u)
    then have "\<not> more" "u = t" using that by (auto simp: d'_def split: if_splits)
    then show ?thesis using agrees_all [OF x'(1)] ext Some all by simp
  qed
  have f: "f < next_inode d" "chunk_of d f = sc_id k" using w(3) by (simp_all add: own_file_def)
  have "disk_ok R d'"
    unfolding disk_ok_def
  proof (intro conjI allI impI)
    show "lru_inv (ranking d')" "0 < lru_size (ranking d')" using d by (simp_all add: d'_def disk_ok_def)
    show "g < next_inode d'" "chunk_of d' g = j" if "linked d' j = Some g" for j g
      using d that by (auto simp: d'_def disk_ok_def)
    fix g
    assume g: "g < next_inode d'"
    show "\<exists>z. R (chunk_of d' g) = Some z \<and> patchy z (inode d' g) \<and> (writer d' g = None \<longrightarrow> inode d' g = z)"
    proof (cases "g = f")
      case True
      then show ?thesis using z(1) f x'(1) whole by (auto simp: d'_def)
    next
      case False
      then show ?thesis using d g by (auto simp: d'_def disk_ok_def)
    qed
  qed
  moreover have "sc_ok R d' t (k\<lparr>sc_at := (if more then Writing f (off + n) else WriteTouch)\<rparr>)"
    using w(1,2) f on z(2) ext by (auto simp: sc_ok_def to_write_def own_file_def d'_def z_def [symmetric])
  moreover have "spares R t d d'"
    using x'(2) f z(1) by (auto simp: spares_def d'_def split: if_splits)
  moreover have "store_advance c t k d = Some (k\<lparr>sc_at := (if more then Writing f (off + n) else WriteTouch)\<rparr>, d')"
    unfolding store_advance_def o store_pc.case if_not_P [OF False] Let_def n_def [symmetric] s more_def [symmetric] d'_def x'_def
    by simp
  ultimately show ?thesis by (simp add: good_advance_def)
qed

lemma store_advance_ok:
  assumes d: "disk_ok R d" and k: "sc_ok R d t k" and run: "\<not> (\<exists>err. sc_at k = Ended err)"
  shows "good_advance R t d (store_advance c t k d)"
proof (cases "sc_at k")
  case OpenRead
  show ?thesis
  proof (cases "c = Fault \<or> linked d (sc_id k) = None")
    case True
    then show ?thesis using d OpenRead by (auto simp: store_advance_def good_advance_def sc_ok_def)
  next
    case False
    then obtain f where "linked d (sc_id k) = Some f" by blast
    moreover from this d have "own_file d k f" by (simp add: disk_ok_def own_file_def)
    ultimately show ?thesis using False d k OpenRead by (auto simp: store_advance_def good_advance_def sc_ok_def own_file_def)
  qed
next
  case (ReadTouch f)
  obtain d' where t: "disk_touch c (sc_id k) d = Some d'" "disk_ok R d'" "spares R t d d'" "own_file d' k f \<longleftrightarrow> own_file d k f"
    using disk_touch_ok [OF d, of c "sc_id k" t] by blast
  have r: "sc_op k = ReadChunk" "length (sc_buffer k) = CHUNK_SIZE_BYTES" "own_file d k f" using k ReadTouch by (simp_all add: sc_ok_def)
  obtain z where "R (sc_id k) = Some z" using own_published [OF d r(3)] by metis
  then have "sc_ok R d' t (k\<lparr>sc_at := Reading f, sc_size := 0\<rparr>)"
    using r t(4) by (simp add: sc_ok_def got_so_far_def own_file_def)
  then show ?thesis using t(1-3) ReadTouch by (simp add: store_advance_def good_advance_def)
next
  case (Reading f)
  then show ?thesis by (rule advance_reading [OF d k])
next
  case MakeDirs
  then show ?thesis using d k by (simp add: store_advance_def good_advance_def sc_ok_def to_write_def)
next
  case OpenWrite
  then show ?thesis by (rule advance_open_write [OF d k])
next
  case (Writing f off)
  then show ?thesis by (rule advance_writing [OF d k])
next
  case WriteTouch
  obtain d' where t: "disk_touch c (sc_id k) d = Some d'" "disk_ok R d'" "spares R t d d'"
    using disk_touch_ok [OF d, of c "sc_id k" t] by blast
  then show ?thesis using k WriteTouch by (simp add: store_advance_def good_advance_def sc_ok_def to_write_def)
next
  case Enlist
  then have "disk_ok R (d\<lparr>listed := insert (sc_id k) (listed d)\<rparr>)" using d by (simp add: disk_ok_def)
  then show ?thesis using k Enlist by (simp add: store_advance_def good_advance_def sc_ok_def spares_def)
qed (use run in simp)

definition store_threads_ok :: "(nat \<rightharpoonup> bytes) \<Rightarrow> shared_disk \<times> (nat \<rightharpoonup> store_call) \<Rightarrow> bool" where
  "store_threads_ok R x \<longleftrightarrow> disk_ok R (fst x) \<and> (\<forall>t k. snd x t = Some k \<longrightarrow> sc_ok R (fst x) t k)"

lemma store_threads_step_ok:
  assumes "store_threads_step R C x y" and "store_threads_ok R x"
  shows "store_threads_ok R y"
  using assms
proof (induction rule: store_threads_step.induct)
  case (begin_read calls t k d)
  then show ?case by (auto simp: store_threads_ok_def sc_ok_def)
next
  case (begin_write calls t k d)
  then show ?case by (auto simp: store_threads_ok_def sc_ok_def to_write_def)
next
  case (run calls t k c d k' d')
  have ok: "disk_ok R d" "\<And>u j. calls u = Some j \<Longrightarrow> sc_ok R d u j" using run(4) by (simp_all add: store_threads_ok_def)
  have "\<not> (\<exists>err. sc_at k = Ended err)" using run(3) by (auto simp: store_advance_def)
  from store_advance_ok [OF ok(1) ok(2) [OF run(1)] this, of c] have
    g: "disk_ok R d'" "sc_ok R d' t k'" "spares R t d d'" using run(3) by (auto simp: good_advance_def)
  moreover have "sc_ok R d' u j" if "u \<noteq> t" "calls u = Some j" for u j
    by (rule sc_ok_spares [OF ok(2) [OF that(2)] g(3) that(1)])
  ultimately show ?case by (auto simp: store_threads_ok_def)
qed

lemma quiet_disk_ok: "quiet_disk R d \<Longrightarrow> disk_ok R d"
  by (fastforce simp: quiet_disk_def disk_ok_def)

lemma store_threads_run_ok:
  assumes "store_threads_run R C d0 x" and "quiet_disk R d0"
  shows "store_threads_ok R x"
  using assms(1)
proof (induction rule: rtranclp_induct)
  case base
  then show ?case using quiet_disk_ok [OF assms(2)] by (simp add: store_threads_ok_def)
qed (rule store_threads_step_ok)

subsection \<open>Without faults\<close>

text \<open>A file that is not whole is being written by the thread that truncated it last.\<close>

definition writers_write :: "shared_disk \<times> (nat \<rightharpoonup> store_call) \<Rightarrow> bool" where
  "writers_write x \<longleftrightarrow>
     (\<forall>f t. writer (fst x) f = Some t \<longrightarrow> (\<exists>k off. snd x t = Some k \<and> sc_at k = Writing f off))"

lemma store_advance_writer:
  assumes "store_advance c t k d = Some (k', d')" and "sc_at k \<noteq> OpenWrite" and "\<not> (\<exists>f off. sc_at k = Writing f off)"
  shows "writer d' = writer d"
  using assms
  by (cases "sc_at k")
    (auto dest!: disk_touch_frame simp: store_advance_def Let_def Option.bind_eq_Some_conv split: if_splits option.splits)

lemma writers_write_step:
  assumes "store_threads_step R C x y" and "Fault \<notin> C" and "writers_write x"
  shows "writers_write y"
  using assms
proof (induction rule: store_threads_step.induct)
  case (begin_read calls t k d)
  then show ?case by (fastforce simp: writers_write_def idle_def split: store_pc.splits)
next
  case (begin_write calls t k d)
  then show ?case by (fastforce simp: writers_write_def idle_def split: store_pc.splits)
next
  case (run calls t k c d k' d')
  have w: "writer d f = Some u \<Longrightarrow> \<exists>j off. calls u = Some j \<and> sc_at j = Writing f off" for f u
    using run(5) by (simp add: writers_write_def)
  have c: "c \<noteq> Fault" using run(2,4) by blast
  consider "sc_at k = OpenWrite" | f off where "sc_at k = Writing f off"
    | "sc_at k \<noteq> OpenWrite" "\<not> (\<exists>f off. sc_at k = Writing f off)" by blast
  then show ?case
  proof cases
    case 1
    then show ?thesis
      using run(1,3) c w by (fastforce simp: store_advance_def open_write_def Let_def writers_write_def split: if_splits option.splits)
  next
    case (2 f off)
    then show ?thesis
      using run(1,3) c w
      by (fastforce simp: store_advance_def Let_def writers_write_def Option.bind_eq_Some_conv split: if_splits)
  next
    case 3
    have "writer d' = writer d" by (rule store_advance_writer [OF run(3) 3])
    then show ?thesis using w 3(2) run(1) by (fastforce simp: writers_write_def)
  qed
qed

subsection \<open>Schedules of writes\<close>

datatype store_event = Begin nat store_call | Step nat os_choice

fun store_schedule ::
    "(nat \<rightharpoonup> bytes) \<Rightarrow> store_event list \<Rightarrow> shared_disk \<times> (nat \<rightharpoonup> store_call) \<Rightarrow> (shared_disk \<times> (nat \<rightharpoonup> store_call)) option" where
  "store_schedule R [] x = Some x"
| "store_schedule R (Begin t k # es) (d, calls) =
     (if idle calls t \<and> sc_op k = WriteChunk \<and> sc_at k = MakeDirs \<and> sc_size k \<le> length (sc_buffer k) \<and>
         R (sc_id k) = Some (take (sc_size k) (sc_buffer k))
      then store_schedule R es (d, calls(t \<mapsto> k)) else None)"
| "store_schedule R (Step t c # es) (d, calls) =
     (case calls t of
        None \<Rightarrow> None
      | Some k \<Rightarrow>
          (case store_advance c t k d of
             None \<Rightarrow> None
           | Some (k', d') \<Rightarrow> store_schedule R es (d', calls(t \<mapsto> k'))))"

lemma store_schedule_run:
  "store_schedule R es x = Some y \<Longrightarrow> \<forall>t c. Step t c \<in> set es \<longrightarrow> c \<in> C \<Longrightarrow> (store_threads_step R C)\<^sup>*\<^sup>* x y"
proof (induction R es x rule: store_schedule.induct)
  case (1 R x)
  then show ?case by simp
next
  case (2 R t k es d calls)
  then have "store_threads_step R C (d, calls) (d, calls(t \<mapsto> k))" by (intro store_threads_step.begin_write) (auto split: if_splits)
  moreover have "(store_threads_step R C)\<^sup>*\<^sup>* (d, calls(t \<mapsto> k)) y" using 2 by (auto split: if_splits)
  ultimately show ?case by (rule converse_rtranclp_into_rtranclp)
next
  case (3 R t c es d calls)
  then obtain k k' d' where k: "calls t = Some k" "store_advance c t k d = Some (k', d')" "store_schedule R es (d', calls(t \<mapsto> k')) = Some y"
    by (auto split: option.splits)
  have "store_threads_step R C (d, calls) (d', calls(t \<mapsto> k'))" using 3(3) k(1,2) by (intro store_threads_step.run [where c = c]) auto
  moreover have "(store_threads_step R C)\<^sup>*\<^sup>* (d', calls(t \<mapsto> k')) y" using 3(1) [OF k(1,2) refl k(3)] 3(3) by simp
  ultimately show ?case by (rule converse_rtranclp_into_rtranclp)
qed

definition empty_disk :: "nat \<Rightarrow> shared_disk" where
  "empty_disk sz = \<lparr>linked = Map.empty, inode = (\<lambda>_. []), next_inode = 0, listed = {}, ranking = lru_new sz,
     chunk_of = (\<lambda>_. 0), writer = (\<lambda>_. None)\<rparr>"

lemma empty_disk_quiet: "0 < sz \<Longrightarrow> quiet_disk R (empty_disk sz)"
  by (auto simp: quiet_disk_def empty_disk_def lru_new_def lru_inv_def lru_ids_def)

definition write_call :: "nat \<Rightarrow> bytes \<Rightarrow> store_call" where
  "write_call i b = \<lparr>sc_op = WriteChunk, sc_at = MakeDirs, sc_id = i, sc_buffer = b, sc_size = length b\<rparr>"

lemma write_call_fields: "sc_id (write_call i b) = i" "sc_op (write_call i b) = WriteChunk"
  by (simp_all add: write_call_def)

text \<open>A write that nobody disturbs, up to the call of the collector and from there on.\<close>

definition written :: "nat \<Rightarrow> nat \<Rightarrow> bytes \<Rightarrow> shared_disk \<Rightarrow> shared_disk" where
  "written t i b d = (case open_write t i d of (f, d1) \<Rightarrow> d1\<lparr>inode := (inode d1)(f := b), writer := (writer d1)(f := None)\<rparr>)"

lemma schedule_write:
  assumes "idle calls t" and "R i = Some b" and "b \<noteq> []"
  shows "store_schedule R (Begin t (write_call i b) # Step t Full # Step t Full # Step t Full # es) (d, calls) =
    store_schedule R es (written t i b d, calls(t \<mapsto> (write_call i b)\<lparr>sc_at := WriteTouch\<rparr>))"
  using assms
  by (simp add: write_call_def store_advance_def open_write_def Let_def slice_def pwrite_def written_def)

lemma schedule_touch:
  assumes "calls t = Some k" and "sc_at k = WriteTouch" and "disk_touch Full (sc_id k) d = Some d'"
  shows "store_schedule R (Step t Full # Step t Full # es) (d, calls) =
    store_schedule R es (d'\<lparr>listed := insert (sc_id k) (listed d')\<rparr>, calls(t \<mapsto> k\<lparr>sc_at := Ended OK\<rparr>))"
  using assms by (simp add: store_advance_def)

text \<open>
  Chunk 0 is stored; it is written once more, and before the collector hears of it another thread
  writes chunk 1, for which chunk 0 is removed.
\<close>

definition lost_file_schedule :: "store_event list" where
  "lost_file_schedule =
     [Begin 1 (write_call 0 ''a''), Step 1 Full, Step 1 Full, Step 1 Full, Step 1 Full, Step 1 Full,
      Begin 1 (write_call 0 ''a''), Step 1 Full, Step 1 Full, Step 1 Full,
      Begin 2 (write_call 1 ''b''), Step 2 Full, Step 2 Full, Step 2 Full, Step 2 Full, Step 2 Full, Step 1 Full, Step 1 Full]"

lemma disk_touch_one:
  assumes "queue (ranking d) = [(a, l)]" and "iterators (ranking d) i = None" and "lru_size (ranking d) = 1" and "linked d l \<noteq> None"
  shows "disk_touch Full i d = Some (d\<lparr>linked := (linked d)(l := None), listed := listed d - {l},
    ranking := push_front i ((ranking d)\<lparr>queue := [], iterators := (iterators (ranking d))(l := None)\<rparr>)\<rparr>)"
  using assms by (cases "linked d l") (simp_all add: disk_touch_def lru_update_def disk_remove_def Let_def)

lemma disk_touch_none:
  assumes "queue (ranking d) = []" and "iterators (ranking d) i = None" and "lru_size (ranking d) = 1"
  shows "disk_touch Full i d = Some (d\<lparr>ranking := push_front i (ranking d)\<rparr>)"
  using assms by (simp add: disk_touch_def lru_update_def Let_def)

lemma lost_file_run:
  "\<exists>d calls. store_schedule [0 \<mapsto> ''a'', 1 \<mapsto> ''b''] lost_file_schedule (empty_disk 1, Map.empty) = Some (d, calls) \<and>
     0 \<in> listed d \<and> linked d 0 = None \<and> (\<exists>k. calls 1 = Some k \<and> sc_at k = Ended OK)"
  by (simp add: lost_file_schedule_def schedule_write schedule_touch disk_touch_one disk_touch_none written_def open_write_def Let_def
      empty_disk_def lru_new_def push_front_def idle_def write_call_fields del: store_schedule.simps(2,3))

subsection \<open>A read between truncation and writing\<close>

lemma torn_run:
  assumes q: "quiet_disk R d" and i: "linked d i = Some f" and z: "R i = Some z"
  shows "\<exists>d' calls r. store_threads_run R {Full} d (d', calls) \<and> calls 2 = Some r \<and> sc_op r = ReadChunk \<and> sc_id r = i \<and>
    sc_at r = Ended OK \<and> sc_size r = 0"
proof -
  let ?run = "store_threads_run R {Full} d"
  let ?w = "write_call i z" and ?r = "\<lparr>sc_op = ReadChunk, sc_at = OpenRead, sc_id = i, sc_buffer = new_buffer, sc_size = 0\<rparr>"
  define d1 where "d1 = snd (open_write 1 i d)"
  have d1: "open_write 1 i d = (f, d1)" "linked d1 i = Some f" "inode d1 f = []"
    using i by (simp_all add: d1_def open_write_def Let_def)
  have "store_threads_step R {Full} (d, Map.empty) (d, [1 \<mapsto> ?w])"
    by (rule store_threads_step.begin_write) (simp_all add: idle_def write_call_def z)
  then have "?run (d, [1 \<mapsto> ?w])" by (rule r_into_rtranclp)
  moreover have "store_threads_step R {Full} (d, [1 \<mapsto> ?w]) (d, [1 \<mapsto> ?w\<lparr>sc_at := OpenWrite\<rparr>])"
    using store_threads_step.run [where calls = "[1 \<mapsto> ?w]" and t = 1 and c = Full and d = d]
    by (simp add: store_advance_def write_call_def)
  ultimately have "?run (d, [1 \<mapsto> ?w\<lparr>sc_at := OpenWrite\<rparr>])" by (rule rtranclp.rtrancl_into_rtrancl)
  moreover have "store_threads_step R {Full} (d, [1 \<mapsto> ?w\<lparr>sc_at := OpenWrite\<rparr>]) (d1, [1 \<mapsto> ?w\<lparr>sc_at := Writing f 0\<rparr>])"
    using store_threads_step.run [where calls = "[1 \<mapsto> ?w\<lparr>sc_at := OpenWrite\<rparr>]" and t = 1 and c = Full and d = d]
    by (simp add: store_advance_def write_call_def d1(1) [unfolded One_nat_def])
  ultimately have run1: "?run (d1, [1 \<mapsto> ?w\<lparr>sc_at := Writing f 0\<rparr>])" by (rule rtranclp.rtrancl_into_rtrancl)
  let ?c = "[1 \<mapsto> ?w\<lparr>sc_at := Writing f 0\<rparr>]"
  have "disk_ok R d1" using store_threads_run_ok [OF run1 q] by (simp add: store_threads_ok_def)
  then obtain d2 where d2: "disk_touch Full i d1 = Some d2" "inode d2 f = []"
    using disk_touch_ok disk_touch_frame d1(3) by metis
  have "store_threads_step R {Full} (d1, ?c) (d1, ?c(2 \<mapsto> ?r))"
    by (rule store_threads_step.begin_read) (simp_all add: idle_def)
  with run1 have "?run (d1, ?c(2 \<mapsto> ?r))" by (rule rtranclp.rtrancl_into_rtrancl)
  moreover have "store_threads_step R {Full} (d1, ?c(2 \<mapsto> ?r)) (d1, ?c(2 \<mapsto> ?r\<lparr>sc_at := ReadTouch f\<rparr>))"
    using store_threads_step.run [where calls = "?c(2 \<mapsto> ?r)" and t = 2 and c = Full and d = d1] d1(2)
    by (simp add: store_advance_def)
  ultimately have "?run (d1, ?c(2 \<mapsto> ?r\<lparr>sc_at := ReadTouch f\<rparr>))" by (rule rtranclp.rtrancl_into_rtrancl)
  moreover have "store_threads_step R {Full} (d1, ?c(2 \<mapsto> ?r\<lparr>sc_at := ReadTouch f\<rparr>)) (d2, ?c(2 \<mapsto> ?r\<lparr>sc_at := Reading f\<rparr>))"
    using store_threads_step.run [where calls = "?c(2 \<mapsto> ?r\<lparr>sc_at := ReadTouch f\<rparr>)" and t = 2 and c = Full and d = d1] d2(1)
    by (simp add: store_advance_def)
  ultimately have "?run (d2, ?c(2 \<mapsto> ?r\<lparr>sc_at := Reading f\<rparr>))" by (rule rtranclp.rtrancl_into_rtrancl)
  moreover have "store_threads_step R {Full} (d2, ?c(2 \<mapsto> ?r\<lparr>sc_at := Reading f\<rparr>)) (d2, ?c(2 \<mapsto> ?r\<lparr>sc_at := Ended OK\<rparr>))"
    using store_threads_step.run [where calls = "?c(2 \<mapsto> ?r\<lparr>sc_at := Reading f\<rparr>)" and t = 2 and c = Full and d = d2] d2(2)
    by (simp add: store_advance_def blit_def Let_def)
  ultimately have "?run (d2, ?c(2 \<mapsto> ?r\<lparr>sc_at := Ended OK\<rparr>))" by (rule rtranclp.rtrancl_into_rtrancl)
  then show ?thesis by (intro exI [of _ d2] exI [of _ "?c(2 \<mapsto> ?r\<lparr>sc_at := Ended OK\<rparr>)"]) simp
qed

subsection \<open>A store to look at\<close>

definition one_file_disk :: shared_disk where
  "one_file_disk = (empty_disk 4)\<lparr>linked := [0 \<mapsto> 0], inode := (\<lambda>_. ''a''), next_inode := 1\<rparr>"

lemma one_file_disk_quiet: "quiet_disk [0 \<mapsto> ''a''] one_file_disk"
  by (auto simp: quiet_disk_def one_file_disk_def empty_disk_def lru_new_def lru_inv_def lru_ids_def)

lemma one_file_disk_linked: "linked one_file_disk 0 = Some 0"
  by (simp add: one_file_disk_def)

lemma one_write_run:
  "\<exists>d k. store_threads_run [0 \<mapsto> ''a''] {Full} (empty_disk 1) (d, [1 \<mapsto> k]) \<and> sc_at k = Ended OK \<and> linked d 0 = Some 0"
proof -
  let ?es = "[Begin 1 (write_call 0 ''a''), Step 1 Full, Step 1 Full, Step 1 Full, Step 1 Full, Step 1 Full]"
  have "\<exists>d k. store_schedule [0 \<mapsto> ''a''] ?es (empty_disk 1, Map.empty) = Some (d, [1 \<mapsto> k]) \<and> sc_at k = Ended OK \<and> linked d 0 = Some 0"
    by (simp add: schedule_write schedule_touch disk_touch_none written_def open_write_def Let_def
        empty_disk_def lru_new_def push_front_def idle_def write_call_fields del: store_schedule.simps(2,3))
      (auto intro!: exI)
  moreover have "\<forall>t c. Step t c \<in> set ?es \<longrightarrow> c \<in> {Full}" by auto
  ultimately show ?thesis using store_schedule_run [where C = "{Full}"] by blast
qed

subsection \<open>Properties\<close>



text \<open>
  C17: Once no write is in the middle of its data, and none has failed, every file of the store is the
  published chunk, however the writes have overtaken each other.
\<close>

theorem store_settles:
  assumes "store_threads_run R C d0 (d, calls)" and "quiet_disk R d0" and "Fault \<notin> C"
    and "\<And>t k f off. calls t = Some k \<Longrightarrow> sc_at k \<noteq> Writing f off" and "linked d i = Some f"
  shows "R i = Some (inode d f)"
proof -
  have "disk_ok R d" using store_threads_run_ok [OF assms(1,2)] by (simp add: store_threads_ok_def)
  moreover have "writers_write (d, calls)"
    using assms(1)
    by (induction rule: rtranclp_induct) (use assms(2,3) writers_write_step in \<open>auto simp: writers_write_def quiet_disk_def\<close>)
  then have "writer d f = None" using assms(4) by (cases "writer d f") (fastforce simp: writers_write_def)+
  ultimately show ?thesis using assms(5) by (auto simp: disk_ok_def)
qed

theorem store_settles_witness:
  "\<exists>d calls f. store_threads_run [0 \<mapsto> ''a''] {Full} (empty_disk 1) (d, calls) \<and> linked d 0 = Some f \<and>
     [0 \<mapsto> ''a''] (0 :: nat) = Some (inode d f)"
proof -
  obtain d k where r: "store_threads_run [0 \<mapsto> ''a''] {Full} (empty_disk 1) (d, [1 \<mapsto> k])" "sc_at k = Ended OK" "linked d 0 = Some 0"
    using one_write_run by blast
  have "[0 \<mapsto> ''a''] (0 :: nat) = Some (inode d 0)"
    by (rule store_settles [OF r(1) empty_disk_quiet [OF zero_less_one] _ _ r(3)]) (use r(2) in \<open>auto split: if_splits\<close>)
  then show ?thesis using r(1,3) by blast
qed

text \<open>
  C29: A chunk that is in the store is read as an empty one, with the result OK and without any fault,
  when another thread has just truncated its file to write the chunk again.
\<close>

theorem torn_read:
  assumes "quiet_disk R d" and "linked d i = Some f" and "R i = Some z"
  shows "\<exists>d' calls r. store_threads_run R {Full} d (d', calls) \<and> calls 2 = Some r \<and> sc_op r = ReadChunk \<and> sc_id r = i \<and>
    sc_at r = Ended OK \<and> sc_size r = 0"
  by (rule torn_run [OF assms])

theorem torn_read_witness:
  "\<exists>d calls r. store_threads_run [0 \<mapsto> ''a''] {Full} one_file_disk (d, calls) \<and> calls 2 = Some r \<and> sc_op r = ReadChunk \<and>
     sc_id r = 0 \<and> sc_at r = Ended OK \<and> sc_size r = 0"
  by (rule torn_read [OF one_file_disk_quiet one_file_disk_linked]) simp


end
