(* ===== verification/Store_Alone.thy ===== *)
theory Store_Alone
  imports Store_Threads
begin

text \<open>
  The calls of \<open>Store_Threads\<close> against those of \<open>Chunk_Store\<close>, which read and write a file as a whole:
  what a call does as a function, whatever fails or is transferred in part, a thread that runs alone
  does in pieces. So the function is one of the interleavings, and \<open>Store_Threads\<close> leaves none of its
  outcomes out.
\<close>

subsection \<open>The two pictures of a store\<close>

definition disk_models :: "chunk_store \<Rightarrow> shared_disk \<Rightarrow> bool" where
  "disk_models s d \<longleftrightarrow> ranking d = collector s \<and> listed d = in_store s \<and>
     (\<forall>i < 2 ^ 32. map_option (inode d) (linked d i) = files (os s) (chunk_path s i)) \<and>
     (\<forall>i f. linked d i = Some f \<longrightarrow> i < 2 ^ 32 \<and> f < next_inode d \<and> chunk_of d f = i)"

definition solo :: "nat \<Rightarrow> store_call \<times> shared_disk \<Rightarrow> store_call \<times> shared_disk \<Rightarrow> bool" where
  "solo t x y \<longleftrightarrow> (\<exists>c. store_advance c t (fst x) (snd x) = Some y)"

abbreviation solo_run :: "nat \<Rightarrow> store_call \<times> shared_disk \<Rightarrow> store_call \<times> shared_disk \<Rightarrow> bool" where
  "solo_run t \<equiv> (solo t)\<^sup>*\<^sup>*"

lemma solo_step: "store_advance c t k d = Some y \<Longrightarrow> solo_run t y z \<Longrightarrow> solo_run t (k, d) z"
  by (rule converse_rtranclp_into_rtranclp [of "solo t"]) (auto simp: solo_def)

lemma solo_run_threads:
  assumes "solo_run t (k, d) y" and "(store_threads_step R UNIV)\<^sup>*\<^sup>* x (d, calls(t \<mapsto> k))"
  shows "(store_threads_step R UNIV)\<^sup>*\<^sup>* x (snd y, calls(t \<mapsto> fst y))"
  using assms
proof (induction rule: rtranclp_induct)
  case base
  then show ?case by simp
next
  case (step y z)
  then obtain c where "store_advance c t (fst y) (snd y) = Some (fst z, snd z)" by (auto simp: solo_def)
  then have "store_threads_step R UNIV (snd y, calls(t \<mapsto> fst y)) (snd z, (calls(t \<mapsto> fst y))(t \<mapsto> fst z))"
    by (intro store_threads_step.run [where c = c]) auto
  then have "store_threads_step R UNIV (snd y, calls(t \<mapsto> fst y)) (snd z, calls(t \<mapsto> fst z))" by simp
  with step.IH [OF step.prems] show ?case by (rule rtranclp.rtrancl_into_rtrancl)
qed

lemma models_same_fs: "same_fs (os s) w \<Longrightarrow> disk_models (s\<lparr>os := w\<rparr>) d \<longleftrightarrow> disk_models s d"
  by (simp add: disk_models_def same_fs_def)

lemma models_ranking: "disk_models s d \<Longrightarrow> disk_models (s\<lparr>collector := c\<rparr>) (d\<lparr>ranking := c\<rparr>)"
  by (simp add: disk_models_def)

lemma models_remove:
  assumes m: "disk_models s d" and base: "short_base (base_path s)" and l: "l < 2 ^ 32"
  shows "\<exists>c. disk_models (snd (store_remove_chunk l s)) (disk_remove c l d)"
proof (rule store_remove_cases [of l s])
  fix w
  assume r: "store_remove_chunk l s = (OK, s\<lparr>os := w, in_store := in_store s - {l}\<rparr>)"
    "files w = (files (os s))(chunk_path s l := None)" "files (os s) (chunk_path s l) \<noteq> None"
  have "map_option (inode d) (linked d l) = files (os s) (chunk_path s l)" using m l by (simp add: disk_models_def)
  then have "linked d l \<noteq> None" using r(3) by (cases "linked d l") auto
  then have "disk_models (snd (store_remove_chunk l s)) (disk_remove Full l d)"
    using m l r(1,2) chunk_path_inj [OF base] by (auto simp: disk_models_def disk_remove_def)
  then show ?thesis by blast
next
  fix err w
  assume r: "store_remove_chunk l s = (err, s\<lparr>os := w\<rparr>)" "same_fs (os s) w"
  then have "disk_models (snd (store_remove_chunk l s)) (disk_remove Fault l d)"
    using m models_same_fs [OF r(2)] by (simp add: disk_remove_def)
  then show ?thesis by blast
qed

lemma models_touch:
  assumes m: "disk_models s d" and base: "short_base (base_path s)" and ids: "set (lru_ids (collector s)) \<subseteq> {..<2 ^ 32}"
    and t: "store_touch i s = Some s'"
  shows "\<exists>c d'. disk_touch c i d = Some d' \<and> disk_models s' d'"
proof -
  have rk: "ranking d = collector s" using m by (simp add: disk_models_def)
  obtain cl t' where u: "lru_update (\<lambda>l t. snd (store_remove_chunk l t)) i (collector s) s = Some (cl, t')" "s' = t'\<lparr>collector := cl\<rparr>"
    using t by (auto simp: store_touch_def split: option.splits)
  show ?thesis
  proof (cases "iterators (collector s) i = None \<and> lru_size (collector s) \<le> length (queue (collector s))")
    case False
    then have "t' = s" "\<And>c. lru_update (disk_remove c) i (ranking d) d = Some (cl, d)"
      using u rk by (auto simp: lru_update_def Let_def split: option.splits if_splits)
    then show ?thesis using models_ranking [OF m, of cl] u(2) by (auto simp: disk_touch_def)
  next
    case True
    let ?l = "snd (last (queue (collector s)))"
    have q: "queue (collector s) \<noteq> []" and t': "t' = snd (store_remove_chunk ?l s)"
      and u': "\<And>c. lru_update (disk_remove c) i (ranking d) d = Some (cl, disk_remove c ?l d)"
      using True u rk by (auto simp: lru_update_def Let_def split: option.splits if_splits)
    have "?l < 2 ^ 32" using ids q by (force simp: lru_ids_def)
    from models_remove [OF m base this] obtain c where "disk_models t' (disk_remove c ?l d)" using t' by blast
    from models_ranking [OF this, of cl] show ?thesis using u(2) u' by (auto simp: disk_touch_def)
  qed
qed

subsection \<open>Reading alone\<close>

abbreviation read_at :: "store_pc \<Rightarrow> nat \<Rightarrow> bytes \<Rightarrow> nat \<Rightarrow> store_call" where
  "read_at a i buf sz \<equiv> \<lparr>sc_op = ReadChunk, sc_at = a, sc_id = i, sc_buffer = buf, sc_size = sz\<rparr>"

lemma solo_read_loop:
  assumes "read_loop 32 (drop off (inode d f)) (CHUNK_SIZE_BYTES - off) buf off off w = Some (res, rest', m', buf', sz', w')"
    and "off \<le> CHUNK_SIZE_BYTES" and "length buf = CHUNK_SIZE_BYTES"
  shows "solo_run t (read_at (Reading f) i buf off, d) (read_at (Ended (if res = -1 then INTERNAL_ERROR else OK)) i buf' sz', d)"
  using assms
proof (induction "CHUNK_SIZE_BYTES - off" arbitrary: off buf w rule: less_induct)
  case less
  obtain c v where cv: "pop_choice w = (c, v)" by fastforce
  show ?case
  proof (cases "c = Fault")
    case True
    then have "res = -1 \<and> buf' = buf \<and> sz' = wrap 32 (int off - 1)"
      using less.prems by (subst (asm) read_loop.simps) (simp add: sys_read_def cv blit_def Let_def)
    then show ?thesis
      by (intro solo_step [where c = Fault, OF _ rtranclp.rtrancl_refl]) (simp add: store_advance_def)
  next
    case False
    define n where "n = transfer c (min (CHUNK_SIZE_BYTES - off) (length (inode d f) - off))"
    have n: "n \<le> CHUNK_SIZE_BYTES - off" using transfer_le [of c] unfolding n_def by (metis min.bounded_iff)
    have "off + length (take n (drop off (inode d f))) \<le> length buf" using n less.prems(2,3) by simp
    then obtain buf1 where b: "blit buf off (take n (drop off (inode d f))) = Some buf1"
      using n less.prems(2,3) by (auto simp: blit_def)
    have lb: "length buf1 = CHUNK_SIZE_BYTES" using blit_length [OF b] less.prems(3) by simp
    have w: "wrap 32 (int (CHUNK_SIZE_BYTES - off) - int n) = CHUNK_SIZE_BYTES - (off + n)" "wrap 32 (int n + int off) = n + off"
      using wrap_diff [OF n, of 32] wrap_add [of n off 32] n less.prems(2) chunk_size_lt_32 by simp_all
    let ?more = "0 < CHUNK_SIZE_BYTES - (off + n) \<and> 0 < n"
    have l: "(if ?more then read_loop 32 (drop (off + n) (inode d f)) (CHUNK_SIZE_BYTES - (off + n)) buf1 (off + n) (off + n) v
        else Some (int n, drop (off + n) (inode d f), CHUNK_SIZE_BYTES - (off + n), buf1, off + n, v)) =
        Some (res, rest', m', buf', sz', w')"
      using less.prems(1) by (subst (asm) read_loop.simps)
        (simp add: sys_read_def cv False n_def [symmetric] Let_def b w add.commute cong: if_cong)
    have step: "store_advance c t (read_at (Reading f) i buf off) d =
        Some (read_at (if ?more then Reading f else Ended OK) i buf1 (off + n), d)"
      using False by (simp add: store_advance_def n_def [symmetric] Let_def b)
    show ?thesis
    proof (cases ?more)
      case True
      have "solo_run t (read_at (Reading f) i buf1 (off + n), d) (read_at (Ended (if res = -1 then INTERNAL_ERROR else OK)) i buf' sz', d)"
        using True l lb n less.prems(2) by (intro less.hyps) auto
      then show ?thesis by (rule solo_step [OF step [unfolded if_P [OF True]]])
    next
      case False
      then have "res = int n \<and> buf' = buf1 \<and> sz' = off + n" using l by (auto simp del: neq0_conv split: if_splits)
      then show ?thesis using solo_step [OF step rtranclp.rtrancl_refl] False by auto
    qed
  qed
qed

lemma solo_read:
  assumes m: "disk_models s d" and wf: "store_wf s" and i: "i < 2 ^ 32" and buf: "length buffer = CHUNK_SIZE_BYTES"
    and r: "store_read_chunk i buffer sz s = Some (err, buffer', sz', s')"
  shows "\<exists>d'. disk_models s' d' \<and> solo_run t (read_at OpenRead i buffer sz, d) (read_at (Ended err) i buffer' sz', d')"
proof -
  obtain c v where cv: "pop_choice (os s) = (c, v)" by fastforce
  have fs: "same_fs (os s) v" by (rule pop_choice_same_fs [OF cv])
  have mv: "disk_models (s\<lparr>os := v\<rparr>) d" using m models_same_fs [OF fs] by simp
  have f: "map_option (inode d) (linked d i) = files v (chunk_path s i)" using m fs i by (simp add: disk_models_def same_fs_def)
  show ?thesis
  proof (cases "c = Fault \<or> linked d i = None")
    case True
    then have "store_advance c t (read_at OpenRead i buffer sz) d = Some (read_at (Ended err) i buffer sz, d)"
      and "buffer' = buffer \<and> sz' = sz \<and> s' = s\<lparr>os := v\<rparr>"
      using r f by (auto simp: store_advance_def store_read_chunk_def sys_open_rd_def cv Let_def split: if_splits option.splits)
    then show ?thesis using mv solo_step [OF _ rtranclp.rtrancl_refl] by blast
  next
    case False
    then obtain g where g: "linked d i = Some g" by blast
    then have "sys_open_rd (chunk_path s i) (os s) = (Inr (inode d g), v)" using False f [symmetric] by (simp add: sys_open_rd_def cv)
    then obtain s1 res rest m1 w' where t: "store_touch i (s\<lparr>os := v\<rparr>) = Some s1"
      and l: "read_loop 32 (inode d g) CHUNK_SIZE_BYTES buffer 0 0 (os s1) = Some (res, rest, m1, buffer', sz', w')"
      and e: "err = (if res = -1 then INTERNAL_ERROR else OK)" "s' = s1\<lparr>os := w'\<rparr>"
      using r by (auto simp: store_read_chunk_def Option.bind_eq_Some_conv)
    from models_touch [OF mv _ _ t] wf obtain c' d' where d': "disk_touch c' i d = Some d'" "disk_models s1 d'"
      by (auto simp: store_wf_def)
    have "0 + CHUNK_SIZE_BYTES \<le> length buffer" using buf by simp
    from read_loop_defined [OF this chunk_size_lt_32, of 32 "inode d g" 0 "os s1"] have "same_fs (os s1) w'" using l by auto
    then have s': "disk_models s' d'" using d'(2) e(2) models_same_fs by simp
    have "solo_run t (read_at (Reading g) i buffer 0, d') (read_at (Ended err) i buffer' sz', d')"
      using solo_read_loop [of 0 d' g buffer "os s1"] l buf disk_touch_frame [OF d'(1)] e(1) by simp
    then have "solo_run t (read_at (ReadTouch g) i buffer sz, d) (read_at (Ended err) i buffer' sz', d')"
      by (rule solo_step [where c = c', rotated]) (simp add: store_advance_def d'(1))
    then have "solo_run t (read_at OpenRead i buffer sz, d) (read_at (Ended err) i buffer' sz', d')"
      using False g by (intro solo_step [where c = c]) (simp_all add: store_advance_def)
    then show ?thesis using s' by blast
  qed
qed

subsection \<open>Writing alone\<close>

abbreviation write_at :: "store_pc \<Rightarrow> nat \<Rightarrow> bytes \<Rightarrow> nat \<Rightarrow> store_call" where
  "write_at a i buf sz \<equiv> \<lparr>sc_op = WriteChunk, sc_at = a, sc_id = i, sc_buffer = buf, sc_size = sz\<rparr>"

lemma models_write:
  assumes m: "disk_models s d" and base: "short_base (base_path s)" and f: "linked d i = Some f"
    and w: "files w = (files (os s))(chunk_path s i \<mapsto> x)"
  shows "disk_models (s\<lparr>os := w\<rparr>) (d\<lparr>inode := (inode d)(f := x), writer := wr\<rparr>)"
proof -
  have i: "i < 2 ^ 32" using m f by (auto simp: disk_models_def)
  have "map_option ((inode d)(f := x)) (linked d j) = files w (chunk_path s j)" if "j < 2 ^ 32" for j
  proof (cases "j = i")
    case True
    then show ?thesis using f w by simp
  next
    case False
    have "chunk_of d g = k" if "linked d k = Some g" for k g using m that by (simp add: disk_models_def)
    from this [of i f] this [of j f] have "linked d j \<noteq> Some f" using f False by auto
    then have "map_option ((inode d)(f := x)) (linked d j) = map_option (inode d) (linked d j)" by (cases "linked d j") auto
    also have "\<dots> = files (os s) (chunk_path s j)" using m that by (simp add: disk_models_def)
    finally show ?thesis using w False chunk_path_inj [OF base that i] by simp
  qed
  then show ?thesis using m by (simp add: disk_models_def)
qed

lemma models_open:
  assumes m: "disk_models s d" and base: "short_base (base_path s)" and i: "i < 2 ^ 32"
    and o: "open_write t i d = (f, d')" and w: "files w = (files (os s))(chunk_path s i \<mapsto> [])"
  shows "disk_models (s\<lparr>os := w\<rparr>) d' \<and> linked d' i = Some f \<and> inode d' f = []"
proof -
  have d': "d' = d\<lparr>linked := (linked d)(i \<mapsto> f), inode := (inode d)(f := []), next_inode := max (next_inode d) (Suc f),
      chunk_of := (chunk_of d)(f := i), writer := (writer d)(f \<mapsto> t)\<rparr>"
    and f: "f = next_inode d \<or> linked d i = Some f"
    using o by (auto simp: open_write_def Let_def split: option.splits)
  have links: "j < 2 ^ 32 \<and> g < next_inode d \<and> chunk_of d g = j" if "linked d j = Some g" for j g
    using m that by (simp add: disk_models_def)
  have other: "linked d j \<noteq> Some f" if "j \<noteq> i" for j using f links that by (metis less_irrefl)
  have "map_option (inode d') (linked d' j) = files w (chunk_path s j)" if "j < 2 ^ 32" for j
  proof (cases "j = i")
    case True
    then show ?thesis using w d' by simp
  next
    case False
    have "map_option (inode d') (linked d' j) = map_option (inode d) (linked d j)"
      using other [OF False] False by (cases "linked d j") (auto simp: d')
    also have "\<dots> = files (os s) (chunk_path s j)" using m that by (simp add: disk_models_def)
    finally show ?thesis using w False chunk_path_inj [OF base that i] by simp
  qed
  moreover have "j < 2 ^ 32 \<and> g < next_inode d' \<and> chunk_of d' g = j" if "linked d' j = Some g" for j g
    using that links [of j g] other [of j] i by (cases "j = i") (auto simp: d')
  ultimately show ?thesis using m by (simp add: disk_models_def d')
qed

lemma pwrite_next: "off \<le> length b \<Longrightarrow> pwrite (take off b) off (take n (drop off b)) = take (off + n) b"
  by (simp add: pwrite_def take_add min_absorb2)

lemma solo_write_loop:
  assumes "write_loop (chunk_path s i) (drop off buffer) (sz - off) w = Some (res, m, w')"
    and "disk_models (s\<lparr>os := w\<rparr>) d" and "linked d i = Some f" and "inode d f = take off buffer"
    and "off \<le> sz" and "sz \<le> length buffer" and "sz < 2 ^ 32" and "short_base (base_path s)"
  shows "\<exists>d'. disk_models (s\<lparr>os := w'\<rparr>) d' \<and> solo_run t (write_at (Writing f off) i buffer sz, d)
    (write_at (if res = -1 then Ended INTERNAL_ERROR else WriteTouch) i buffer sz, d')"
  using assms
proof (induction "sz - off" arbitrary: off w d rule: less_induct)
  case less
  note p = less.prems
  obtain c v where cv: "pop_choice w = (c, v)" by fastforce
  have fs: "same_fs w v" by (rule pop_choice_same_fs [OF cv])
  have v: "disk_models (s\<lparr>os := v\<rparr>) d" using models_same_fs [of "s\<lparr>os := w\<rparr>" v d] fs p(2) by simp
  show ?case
  proof (cases "c = Fault")
    case True
    then have "res = -1 \<and> w' = v" using p(1) by (subst (asm) write_loop.simps) (simp add: sys_write_def cv Let_def)
    then show ?thesis
      using v True by (intro exI [of _ d] conjI solo_step [where c = Fault, OF _ rtranclp.rtrancl_refl]) (simp_all add: store_advance_def)
  next
    case False
    define n where "n = transfer c (sz - off)"
    have n: "n \<le> sz - off" using transfer_le [of c] unfolding n_def by blast
    have on: "off \<le> length buffer" "off + n \<le> length buffer" using n p(5,6) by simp_all
    let ?x = "take (off + n) buffer" and ?more = "0 < sz - (off + n) \<and> 0 < n"
    define v1 where "v1 = v\<lparr>files := (files v)(chunk_path s i \<mapsto> ?x)\<rparr>"
    define d1 where "d1 = d\<lparr>inode := (inode d)(f := ?x), writer := (if \<not> ?more \<and> writer d f = Some t then (writer d)(f := None) else writer d)\<rparr>"
    have i: "i < 2 ^ 32" using p(2,3) by (auto simp: disk_models_def)
    have "files v (chunk_path s i) = Some (take off buffer)" using v p(3,4) i by (force simp: disk_models_def)
    moreover have "take off buffer @ take n (drop off buffer) = ?x" by (simp add: take_add)
    ultimately have sw: "sys_write (chunk_path s i) (drop off buffer) (sz - off) w = Some (int n, v1)"
      using False n p(6) by (simp add: sys_write_def cv Let_def n_def [symmetric] slice_def v1_def)
    have wr: "wrap 32 (int sz - int off - int n) = sz - (off + n)"
      using wrap_diff [of "off + n" sz 32] n p(5,7) by (simp add: algebra_simps)
    have l: "(if ?more then write_loop (chunk_path s i) (drop (off + n) buffer) (sz - (off + n)) v1 else Some (int n, sz - (off + n), v1)) =
        Some (res, m, w')"
      using p(1) by (subst (asm) write_loop.simps) (simp add: sw Let_def wr p(5) of_nat_diff add.commute cong: if_cong)
    have m1: "disk_models (s\<lparr>os := v1\<rparr>) d1"
      using models_write [OF v, of i f v1 ?x] p(3,8) by (simp add: v1_def d1_def)
    have d1: "linked d1 i = Some f" "inode d1 f = ?x" using p(3) by (simp_all add: d1_def)
    have step: "store_advance c t (write_at (Writing f off) i buffer sz) d =
        Some (write_at (if ?more then Writing f (off + n) else WriteTouch) i buffer sz, d1)"
      using False on p(4) pwrite_next [of off buffer n]
      by (simp add: store_advance_def n_def [symmetric] Let_def slice_def d1_def)
    show ?thesis
    proof (cases ?more)
      case True
      have "\<exists>d'. disk_models (s\<lparr>os := w'\<rparr>) d' \<and> solo_run t (write_at (Writing f (off + n)) i buffer sz, d1)
          (write_at (if res = -1 then Ended INTERNAL_ERROR else WriteTouch) i buffer sz, d')"
        using True l m1 d1 p(5-8) n by (intro less.hyps) auto
      then show ?thesis using solo_step [OF step [unfolded if_P [OF True]]] by blast
    next
      case False
      then have "res = int n \<and> w' = v1" using l by (auto simp del: neq0_conv split: if_splits)
      then show ?thesis using m1 solo_step [OF step rtranclp.rtrancl_refl] False by auto
    qed
  qed
qed

lemma create_base_dir_errors: "create_base_dir buff p w = (err, w') \<Longrightarrow> err = OK \<or> err = INTERNAL_ERROR"
  by (induction buff p w rule: create_base_dir.induct) (auto simp: create_base_dir.simps(2) Let_def split: if_splits prod.splits)

lemma solo_write:
  assumes m: "disk_models s d" and wf: "store_wf s" and i: "i < 2 ^ 32" and buf: "sz \<le> length buffer" "sz < 2 ^ 32"
    and r: "store_write_chunk i buffer sz s = Some (err, s')"
  shows "\<exists>d'. disk_models s' d' \<and> solo_run t (write_at MakeDirs i buffer sz, d) (write_at (Ended err) i buffer sz, d')"
proof -
  have base: "short_base (base_path s)" using wf by (simp add: store_wf_def)
  obtain e w where b: "create_base_dir [] (chunk_path s i) (os s) = (e, w)" by fastforce
  have fw: "files w = files (os s)" by (rule create_base_dir_files [OF b])
  have m1: "disk_models (s\<lparr>os := v\<rparr>) d" if "files v = files (os s)" for v using m that by (simp add: disk_models_def)
  show ?thesis
  proof (cases "e = OK")
    case False
    then have "e = INTERNAL_ERROR" "err = e" "s' = s\<lparr>os := w\<rparr>"
      using create_base_dir_errors [OF b] r b by (simp_all add: store_write_chunk_def)
    then show ?thesis
      using m1 [OF fw] by (intro exI [of _ d] conjI solo_step [where c = Fault, OF _ rtranclp.rtrancl_refl]) (simp_all add: store_advance_def)
  next
    case ok: True
    have dirs: "store_advance Full t (write_at MakeDirs i buffer sz) d = Some (write_at OpenWrite i buffer sz, d)"
      by (simp add: store_advance_def)
    obtain q w1 where o: "sys_open_wr (chunk_path s i) w = (q, w1)" by fastforce
    have ow: "(\<exists>x. q = Inl x) \<and> files w1 = files w \<or> q = Inr (chunk_path s i) \<and> files w1 = (files w)(chunk_path s i \<mapsto> [])"
      using o pop_choice_same_fs [of w]
      by (auto simp: sys_open_wr_def same_fs_def Let_def split: prod.splits if_splits)
    show ?thesis
    proof (cases q)
      case (Inl x)
      then have "err = INTERNAL_ERROR" "s' = s\<lparr>os := w1\<rparr>" "files w1 = files (os s)"
        using r b ok o ow fw by (auto simp: store_write_chunk_def)
      then show ?thesis
        using m1 by (intro exI [of _ d] conjI solo_step [OF dirs] solo_step [where c = Fault, OF _ rtranclp.rtrancl_refl])
          (simp_all add: store_advance_def)
    next
      case (Inr fd)
      then have fd: "fd = chunk_path s i" "files w1 = (files (os s))(chunk_path s i \<mapsto> [])" using ow fw by auto
      obtain f d1 where f: "open_write t i d = (f, d1)" by fastforce
      note d1 = models_open [OF m base i f fd(2)]
      obtain res left w2 where l: "write_loop (chunk_path s i) buffer sz w1 = Some (res, left, w2)"
        and r': "(if res = -1 then Some (INTERNAL_ERROR, s\<lparr>os := w2\<rparr>)
          else store_touch i (s\<lparr>os := w2\<rparr>) \<bind> (\<lambda>s'. Some (OK, s'\<lparr>in_store := insert i (in_store s')\<rparr>))) = Some (err, s')"
        using r b ok o Inr fd(1) by (auto simp: store_write_chunk_def Option.bind_eq_Some_conv split: if_splits)
      obtain d2 where d2: "disk_models (s\<lparr>os := w2\<rparr>) d2" "solo_run t (write_at (Writing f 0) i buffer sz, d1)
          (write_at (if res = -1 then Ended INTERNAL_ERROR else WriteTouch) i buffer sz, d2)"
        using solo_write_loop [of s i 0 buffer sz w1 res left w2 d1 f t] l d1 buf base by auto
      have start: "solo_run t (write_at MakeDirs i buffer sz, d) z" if "solo_run t (write_at (Writing f 0) i buffer sz, d1) z" for z
        by (rule solo_step [OF dirs], rule solo_step [where c = Full, OF _ that]) (simp add: store_advance_def f)
      show ?thesis
      proof (cases "res = -1")
        case True
        then show ?thesis using r' d2 start by auto
      next
        case False
        obtain s1 where t: "store_touch i (s\<lparr>os := w2\<rparr>) = Some s1" and e: "err = OK" "s' = s1\<lparr>in_store := insert i (in_store s1)\<rparr>"
          using r' False by (auto simp: Option.bind_eq_Some_conv)
        from models_touch [OF d2(1) _ _ t] wf obtain c d3 where d3: "disk_touch c i d2 = Some d3" "disk_models s1 d3"
          by (auto simp: store_wf_def)
        let ?d = "d3\<lparr>listed := insert i (listed d3)\<rparr>"
        have "solo_run t (write_at Enlist i buffer sz, d3) (write_at (Ended err) i buffer sz, ?d)"
          by (rule solo_step [where c = Full, OF _ rtranclp.rtrancl_refl]) (simp add: store_advance_def e(1))
        then have "solo_run t (write_at WriteTouch i buffer sz, d2) (write_at (Ended err) i buffer sz, ?d)"
          by (rule solo_step [where c = c, rotated]) (simp add: store_advance_def d3(1))
        then have "solo_run t (write_at (Writing f 0) i buffer sz, d1) (write_at (Ended err) i buffer sz, ?d)"
          using d2(2) False by (simp add: rtranclp_trans)
        moreover have "disk_models s' ?d" using d3(2) e(2) by (simp add: disk_models_def)
        ultimately show ?thesis using start by blast
      qed
    qed
  qed
qed

lemma read_alone:
  assumes "disk_models s d" and "store_wf s" and "i < 2 ^ 32" and "length buffer = CHUNK_SIZE_BYTES"
  shows "\<exists>err buffer' sz' s' d'. store_read_chunk i buffer sz s = Some (err, buffer', sz', s') \<and> disk_models s' d' \<and>
    store_threads_run R UNIV d (d', [t \<mapsto> read_at (Ended err) i buffer' sz'])"
proof -
  obtain err buffer' sz' s' where r: "store_read_chunk i buffer sz s = Some (err, buffer', sz', s')"
    using store_read_wf [OF assms(2,3), of buffer sz] assms(4) by auto
  obtain d' where d': "disk_models s' d'" "solo_run t (read_at OpenRead i buffer sz, d) (read_at (Ended err) i buffer' sz', d')"
    using solo_read [OF assms r] by blast
  have "store_threads_step R UNIV (d, Map.empty) (d, [t \<mapsto> read_at OpenRead i buffer sz])"
    by (rule store_threads_step.begin_read) (simp_all add: idle_def assms(4))
  from solo_run_threads [OF d'(2) r_into_rtranclp [of "store_threads_step R UNIV", OF this]] r d'(1) show ?thesis by auto
qed

lemma write_alone:
  assumes "disk_models s d" and "store_wf s" and "i < 2 ^ 32" and "n \<le> length data" and "n < 2 ^ 32"
    and "R i = Some (take n data)"
  shows "\<exists>err s' d'. store_write_chunk i data n s = Some (err, s') \<and> disk_models s' d' \<and>
    store_threads_run R UNIV d (d', [t \<mapsto> write_at (Ended err) i data n])"
proof -
  obtain err s' where r: "store_write_chunk i data n s = Some (err, s')"
    using store_write_wf [OF assms(2-5)] by blast
  obtain d' where d': "disk_models s' d'" "solo_run t (write_at MakeDirs i data n, d) (write_at (Ended err) i data n, d')"
    using solo_write [OF assms(1-5) r] by blast
  have "store_threads_step R UNIV (d, Map.empty) (d, [t \<mapsto> write_at MakeDirs i data n])"
    by (rule store_threads_step.begin_write) (simp_all add: idle_def assms(4,6))
  from solo_run_threads [OF d'(2) r_into_rtranclp [of "store_threads_step R UNIV", OF this]] r d'(1) show ?thesis by auto
qed

subsection \<open>Properties\<close>



end
