(* ===== verification/Meta_Image.thy ===== *)
theory Meta_Image
  imports Distfs_Prelude
begin

unbundle bit_operations_syntax

text \<open>
  The meta data image (meta/types.h): one block of memory that starts with its own length and
  holds a node for every file, the tables of directory entries and extended attributes, and
  the names as C strings. This theory has the accesses to it (every access outside the image
  is undefined) and the meaning of an image: which tree of files it represents.
\<close>

subsection \<open>Access to numbers and C strings\<close>

definition get_u32 :: "bytes \<Rightarrow> nat \<Rightarrow> nat option" where
  "get_u32 img off = map_option le_val (slice img off 4)"

definition get_u64 :: "bytes \<Rightarrow> nat \<Rightarrow> nat option" where
  "get_u64 img off = map_option le_val (slice img off 8)"

text \<open>The C string at an address, if it ends inside the image.\<close>

definition c_str :: "bytes \<Rightarrow> nat \<Rightarrow> string option" where
  "c_str img off =
     (if CHR 0x00 \<in> set (drop off img) then Some (takeWhile (\<lambda>c. c \<noteq> CHR 0x00) (drop off img)) else None)"

text \<open>\<^verbatim>\<open>strcmp\<close> of the C string that starts a piece of memory with a terminated string.\<close>

fun strcmp :: "bytes \<Rightarrow> string \<Rightarrow> int option" where
  "strcmp [] ys = None"
| "strcmp (x # xs) [] = Some (if x = CHR 0x00 then 0 else 1)"
| "strcmp (x # xs) (y # ys) =
     (if x = y then strcmp xs ys
      else Some (if (of_char x :: nat) < of_char y then -1 else 1))"

subsection \<open>Nodes and entries\<close>

text \<open>
  \<^verbatim>\<open>struct Node\<close> and \<^verbatim>\<open>struct Entry\<close> as the compiler lays them out on a 64-bit machine: the
  offsets of the fields and the sizes.
\<close>

definition NODE_SIZE :: nat where "NODE_SIZE = 72"
definition ENTRY_SIZE :: nat where "ENTRY_SIZE = 16"

definition n_mode where "n_mode img n = get_u32 img n"
definition n_uid where "n_uid img n = get_u32 img (n + 4)"
definition n_gid where "n_gid img n = get_u32 img (n + 8)"
definition n_size where "n_size img n = get_u64 img (n + 16)"
definition n_block_count where "n_block_count img n = get_u64 img (n + 24)"
definition n_mtime_ns where "n_mtime_ns img n = get_u64 img (n + 32)"
definition n_ctime_ns where "n_ctime_ns img n = get_u64 img (n + 40)"
definition n_xattrs_count where "n_xattrs_count img n = get_u32 img (n + 48)"
definition n_length where "n_length img n = get_u64 img (n + 56)"
definition n_data_offset where "n_data_offset img n = get_u64 img (n + 64)"

definition e_name_offset where "e_name_offset img ents i = get_u64 img (ents + ENTRY_SIZE * i)"
definition e_data_offset where "e_data_offset img ents i = get_u64 img (ents + ENTRY_SIZE * i + 8)"

text \<open>The file type bits of \<^verbatim>\<open>st_mode\<close>.\<close>

definition S_ISREG :: "nat \<Rightarrow> bool" where "S_ISREG m \<longleftrightarrow> m AND 0xF000 = 0x8000"
definition S_ISDIR :: "nat \<Rightarrow> bool" where "S_ISDIR m \<longleftrightarrow> m AND 0xF000 = 0x4000"
definition S_ISLNK :: "nat \<Rightarrow> bool" where "S_ISLNK m \<longleftrightarrow> m AND 0xF000 = 0xA000"

subsection \<open>What an image means\<close>

record attrs =
  a_mode :: nat
  a_uid :: nat
  a_gid :: nat
  a_size :: nat
  a_blocks :: nat
  a_mtime :: nat
  a_ctime :: nat

type_synonym xattrs = "(string \<times> bytes) list"

datatype tree =
    Reg attrs xattrs nat nat
  | Lnk attrs xattrs string
  | Dir attrs xattrs "(string \<times> tree) list"

definition attrs_at :: "bytes \<Rightarrow> nat \<Rightarrow> attrs \<Rightarrow> bool" where
  "attrs_at img n a \<longleftrightarrow>
     n_mode img n = Some (a_mode a) \<and> n_uid img n = Some (a_uid a) \<and> n_gid img n = Some (a_gid a) \<and>
     n_size img n = Some (a_size a) \<and> n_block_count img n = Some (a_blocks a) \<and>
     n_mtime_ns img n = Some (a_mtime a) \<and> n_ctime_ns img n = Some (a_ctime a)"

text \<open>A table of entries with the names \<open>ns\<close>, which point to the addresses \<open>os\<close>.\<close>

definition table_at :: "bytes \<Rightarrow> nat \<Rightarrow> string list \<Rightarrow> nat list \<Rightarrow> bool" where
  "table_at img ents ns os \<longleftrightarrow> length os = length ns \<and> 0 \<notin> set os \<and>
     (\<forall>i < length ns. e_data_offset img ents i = Some (os ! i) \<and>
        (\<exists>no. e_name_offset img ents i = Some no \<and> c_str img no = Some (ns ! i)))"

definition name_less :: "string \<Rightarrow> string \<Rightarrow> bool" where
  "name_less s t \<longleftrightarrow> (s, t) \<in> lexord {(a, b). (of_char a :: nat) < of_char b}"

definition xattrs_at :: "bytes \<Rightarrow> nat \<Rightarrow> xattrs \<Rightarrow> bool" where
  "xattrs_at img n xs \<longleftrightarrow> n_xattrs_count img n = Some (length xs) \<and> sorted_wrt name_less (map fst xs) \<and>
     (\<exists>os. table_at img (n + NODE_SIZE) (map fst xs) os \<and>
        (\<forall>i < length xs. get_u64 img (os ! i) = Some (length (snd (xs ! i))) \<and>
           slice img (os ! i + 8) (length (snd (xs ! i))) = Some (snd (xs ! i))))"

text \<open>The bytes that the table of attributes of a node takes, as the builder lays it out.\<close>

definition xattrs_size :: "xattrs \<Rightarrow> nat" where
  "xattrs_size xs = (\<Sum>x \<leftarrow> xs. length (fst x) + 1 + length (snd x) + 1 + ENTRY_SIZE + 8)"

inductive represents :: "bytes \<Rightarrow> nat \<Rightarrow> tree \<Rightarrow> bool" where
  reg: "attrs_at img n a \<Longrightarrow> S_ISREG (a_mode a) \<Longrightarrow> xattrs_at img n xs \<Longrightarrow>
      n_data_offset img n = Some pos \<Longrightarrow> n_length img n = Some len \<Longrightarrow> represents img n (Reg a xs pos len)"
| lnk: "attrs_at img n a \<Longrightarrow> S_ISLNK (a_mode a) \<Longrightarrow> xattrs_at img n xs \<Longrightarrow>
      n_data_offset img n = Some t \<Longrightarrow> c_str img t = Some target \<Longrightarrow> represents img n (Lnk a xs target)"
| dir: "attrs_at img n a \<Longrightarrow> S_ISDIR (a_mode a) \<Longrightarrow> xattrs_at img n xs \<Longrightarrow>
      n_length img n = Some (length es) \<Longrightarrow> length es < 2 ^ 31 \<Longrightarrow>
      n_data_offset img n = Some (n + NODE_SIZE + xattrs_size xs) \<Longrightarrow>
      sorted_wrt name_less (map fst es) \<Longrightarrow>
      table_at img (n + NODE_SIZE + xattrs_size xs) (map fst es) os \<Longrightarrow>
      (\<forall>i < length es. represents img (os ! i) (snd (es ! i))) \<Longrightarrow> represents img n (Dir a xs es)"

inductive_cases represents_RegE: "represents img n (Reg a xs pos len)"
inductive_cases represents_LnkE: "represents img n (Lnk a xs target)"
inductive_cases represents_DirE: "represents img n (Dir a xs es)"

subsection \<open>Names and comparisons\<close>

lemma c_str_no_nul: "c_str img off = Some s \<Longrightarrow> CHR 0x00 \<notin> set s"
  by (auto simp: c_str_def dest: set_takeWhileD split: if_splits)

lemma takeWhile_split:
  assumes "x \<in> set xs"
  shows "\<exists>ys. xs = takeWhile (\<lambda>c. c \<noteq> x) xs @ x # ys"
proof -
  obtain ys zs where "xs = ys @ x # zs" "x \<notin> set ys" using split_list_first [OF assms] by blast
  moreover from this have "takeWhile (\<lambda>c. c \<noteq> x) ys = ys" by (auto simp: takeWhile_eq_all_conv)
  ultimately show ?thesis by (auto simp: takeWhile_tail)
qed

lemma c_str_split: "c_str img off = Some s \<Longrightarrow> \<exists>ys. drop off img = s @ CHR 0x00 # ys"
  using takeWhile_split by (fastforce simp: c_str_def split: if_splits)

lemma of_char_pos: "c \<noteq> CHR 0x00 \<Longrightarrow> 0 < (of_char c :: nat)"
  using of_char_eq_iff [of c "CHR 0x00", where 'a = nat] by simp

lemma strcmp_terminated:
  assumes "CHR 0x00 \<notin> set s" "CHR 0x00 \<notin> set name"
  shows "strcmp (s @ CHR 0x00 # ys) name =
    Some (if s = name then 0 else if name_less s name then -1 else 1)"
  using assms
proof (induction s arbitrary: name)
  case Nil
  then show ?case by (cases name) (auto simp: name_less_def of_char_pos)
next
  case (Cons c s)
  show ?case
  proof (cases name)
    case Nil
    then show ?thesis using Cons.prems by (auto simp: name_less_def)
  next
    case (Cons d ds)
    then show ?thesis
      using Cons.IH [of ds] Cons.prems by (auto simp: name_less_def)
  qed
qed

lemma strcmp_c_str:
  assumes "c_str img off = Some s" "CHR 0x00 \<notin> set name"
  shows "strcmp (drop off img) name = Some (if s = name then 0 else if name_less s name then -1 else 1)"
  using c_str_split [OF assms(1)] strcmp_terminated [OF c_str_no_nul [OF assms(1)] assms(2)] by auto

lemma name_less_trans: "name_less a b \<Longrightarrow> name_less b c \<Longrightarrow> name_less a c"
  unfolding name_less_def by (rule lexord_trans) (auto simp: trans_def)

lemma name_less_irrefl [simp]: "\<not> name_less a a"
  unfolding name_less_def by (rule lexord_irreflexive) auto

end
