(* ===== verification/Meta_File_System.thy ===== *)
theory Meta_File_System
  imports Meta_Image
begin

text \<open>
  meta/meta_file_system.cc: looking up paths in the meta data image and reading nodes,
  directories, links and extended attributes. \<open>None\<close> is an access outside the image or the
  caller's buffer; \<open>Inl\<close> is a C++ exception.
\<close>

subsection \<open>Finding an entry by name\<close>

text \<open>The loop of \<^verbatim>\<open>find_entity\<close>; \<open>a\<close> and \<open>b\<close> are signed, \<open>b\<close> may become -1.\<close>

function find_loop :: "bytes \<Rightarrow> string \<Rightarrow> nat \<Rightarrow> int \<Rightarrow> int \<Rightarrow> nat option" where
  "find_loop img name ents a b =
     (if a < b then
        let m = (a + b) div 2 in do {
          off \<leftarrow> e_name_offset img ents (nat m);
          x \<leftarrow> strcmp (drop off img) name;
          if x = 0 then e_data_offset img ents (nat m)
          else if x < 0 then find_loop img name ents (m + 1) b
          else find_loop img name ents a (m - 1)
        }
      else do {
        off \<leftarrow> e_name_offset img ents (nat a);
        x \<leftarrow> strcmp (drop off img) name;
        if x = 0 then e_data_offset img ents (nat a) else Some 0
      })"
  by pat_completeness auto
termination
  by (relation "measure (\<lambda>(img, name, ents, a, b). nat (b - a + 1))") auto

declare find_loop.simps [simp del]

definition find_entity :: "bytes \<Rightarrow> string \<Rightarrow> nat \<Rightarrow> nat \<Rightarrow> nat option" where
  "find_entity img name ents ents_size =
     (if ents_size = 0 then Some 0 else find_loop img name ents 0 (int ents_size - 1))"

definition get_child :: "bytes \<Rightarrow> nat \<Rightarrow> string \<Rightarrow> nat option" where
  "get_child img offset name = do {
     mode \<leftarrow> n_mode img offset;
     if \<not> S_ISDIR mode then Some 0
     else do {
       len \<leftarrow> n_length img offset;
       find_entity img name (offset + NODE_SIZE) (wrap 32 (int len))
     }
   }"

text \<open>The walk along a path: \<open>name\<close> collects the component up to the next slash.\<close>

fun walk :: "bytes \<Rightarrow> nat \<Rightarrow> string \<Rightarrow> string \<Rightarrow> (ErrorCode \<times> nat) option" where
  "walk img offset name [] =
     (if name \<noteq> [] then do {
        n \<leftarrow> get_child img offset name;
        Some (if n = 0 then (NOT_FOUND, 0) else (OK, n))
      }
      else Some (OK, offset))"
| "walk img offset name (c # path) =
     (if c = CHR ''/'' then do {
        n \<leftarrow> get_child img offset name;
        if n = 0 then Some (NOT_FOUND, 0) else walk img n [] path
      }
      else walk img offset (name @ [c]) path)"

definition get_node_offset :: "bytes \<Rightarrow> string \<Rightarrow> (string + ErrorCode \<times> nat) option" where
  "get_node_offset img path =
     (case path of
        [] \<Rightarrow> Some (Inl (''invalid path: '' @ path))
      | c # cs \<Rightarrow>
          if c \<noteq> CHR ''/'' then Some (Inl (''invalid path: '' @ path))
          else map_option Inr (walk img 8 [] cs))"

text \<open>The operations run on the node of a path; an exception or error code ends them.\<close>

definition at_path ::
    "bytes \<Rightarrow> string \<Rightarrow> (nat \<Rightarrow> (ErrorCode \<times> 'r) option) \<Rightarrow> 'r \<Rightarrow> (string + ErrorCode \<times> 'r) option" where
  "at_path img path f r =
     (case get_node_offset img path of
        None \<Rightarrow> None
      | Some (Inl e) \<Rightarrow> Some (Inl e)
      | Some (Inr (code, offset)) \<Rightarrow> if code = OK then map_option Inr (f offset) else Some (Inr (code, r)))"

subsection \<open>Files and links\<close>

definition get_file_position_at :: "bytes \<Rightarrow> nat \<Rightarrow> nat \<times> nat \<Rightarrow> (ErrorCode \<times> nat \<times> nat) option" where
  "get_file_position_at img offset out = do {
     mode \<leftarrow> n_mode img offset;
     if \<not> S_ISREG mode then Some (BAD_TYPE, out)
     else do {
       file_offset \<leftarrow> n_data_offset img offset;
       file_length \<leftarrow> n_length img offset;
       Some (OK, file_offset, file_length)
     }
   }"

text \<open>The overload that takes a path drops the error code of the one above.\<close>

definition get_file_position :: "bytes \<Rightarrow> string \<Rightarrow> nat \<times> nat \<Rightarrow> (string + ErrorCode \<times> nat \<times> nat) option" where
  "get_file_position img path out =
     at_path img path (\<lambda>offset. map_option (\<lambda>(_, r). (OK, r)) (get_file_position_at img offset out)) out"

definition strncpy :: "bytes \<Rightarrow> nat \<Rightarrow> string \<Rightarrow> nat \<Rightarrow> bytes option" where
  "strncpy buff pos src n = blit buff pos (take n src @ replicate (n - length src) (CHR 0x00))"

definition get_symlink :: "bytes \<Rightarrow> string \<Rightarrow> nat \<Rightarrow> bytes \<Rightarrow> (string + ErrorCode \<times> bytes) option" where
  "get_symlink img path buff_size buff =
     at_path img path (\<lambda>offset. do {
       mode \<leftarrow> n_mode img offset;
       if \<not> S_ISLNK mode then Some (BAD_TYPE, buff)
       else do {
         t \<leftarrow> n_data_offset img offset;
         target \<leftarrow> c_str img t;
         buff' \<leftarrow> strncpy buff 0 target (wrap 64 (int buff_size - 1));
         buff'' \<leftarrow> blit buff' buff_size [CHR 0x00];
         Some (if length target > buff_size then TOO_LONG else OK, buff'')
       }
     }) buff"

subsection \<open>Attributes and directories\<close>

record stat =
  st_mode :: nat
  st_nlink :: nat
  st_uid :: nat
  st_gid :: nat
  st_size :: nat
  st_blocks :: nat
  st_atim :: "nat \<times> nat"
  st_mtim :: "nat \<times> nat"
  st_ctim :: "nat \<times> nat"

text \<open>A time stamp in nanoseconds as seconds and nanoseconds.\<close>

definition timespec :: "nat \<Rightarrow> nat \<times> nat" where
  "timespec ns = (ns div 1000000000, ns mod 1000000000)"

definition get_stat_at :: "bytes \<Rightarrow> nat \<Rightarrow> stat option" where
  "get_stat_at img offset = do {
     mode \<leftarrow> n_mode img offset;
     uid \<leftarrow> n_uid img offset;
     gid \<leftarrow> n_gid img offset;
     sz \<leftarrow> n_size img offset;
     blocks \<leftarrow> n_block_count img offset;
     mtime \<leftarrow> n_mtime_ns img offset;
     ctime \<leftarrow> n_ctime_ns img offset;
     Some \<lparr>st_mode = mode, st_nlink = (if S_ISDIR mode then 2 else 1), st_uid = uid, st_gid = gid,
       st_size = sz, st_blocks = blocks, st_atim = timespec mtime, st_mtim = timespec mtime,
       st_ctim = timespec ctime\<rparr>
   }"

definition get_stat :: "bytes \<Rightarrow> string \<Rightarrow> stat \<Rightarrow> (string + ErrorCode \<times> stat) option" where
  "get_stat img path st = at_path img path (\<lambda>offset. map_option (\<lambda>st'. (OK, st')) (get_stat_at img offset)) st"

text \<open>
  \<open>dir_reader\<close> is the callback, with its state; \<open>True\<close> stops the listing. \<open>is\<close> are the values
  of the loop variable.
\<close>

fun read_entries ::
    "bytes \<Rightarrow> nat \<Rightarrow> (string \<Rightarrow> stat \<Rightarrow> 'a \<Rightarrow> bool \<times> 'a) \<Rightarrow> nat list \<Rightarrow> 'a \<Rightarrow> 'a option" where
  "read_entries img dirents dir_reader [] acc = Some acc"
| "read_entries img dirents dir_reader (i # is) acc = do {
     node \<leftarrow> e_data_offset img dirents i;
     st \<leftarrow> get_stat_at img node;
     no \<leftarrow> e_name_offset img dirents i;
     name \<leftarrow> c_str img no;
     let (stop, acc') = dir_reader name st acc;
     if stop then Some acc' else read_entries img dirents dir_reader is acc'
   }"

definition get_dir ::
    "bytes \<Rightarrow> string \<Rightarrow> nat \<Rightarrow> (string \<Rightarrow> stat \<Rightarrow> 'a \<Rightarrow> bool \<times> 'a) \<Rightarrow> 'a \<Rightarrow> (string + ErrorCode \<times> 'a) option" where
  "get_dir img path start_at dir_reader acc =
     at_path img path (\<lambda>offset. do {
       mode \<leftarrow> n_mode img offset;
       if \<not> S_ISDIR mode then Some (BAD_TYPE, acc)
       else do {
         dirents \<leftarrow> n_data_offset img offset;
         len \<leftarrow> n_length img offset;
         acc' \<leftarrow> read_entries img dirents dir_reader [start_at..<len] acc;
         Some (OK, acc')
       }
     }) acc"

subsection \<open>Extended attributes\<close>

text \<open>
  The loop of \<^verbatim>\<open>list_xattr\<close>: \<open>pos\<close> is where the pointer \<open>list\<close> stands in the caller's
  buffer, \<open>buff_size\<close> the room the code still counts. The result holds the error code, the
  buffer and \<open>*length\<close>.
\<close>

fun list_names :: "bytes \<Rightarrow> nat \<Rightarrow> nat list \<Rightarrow> bytes \<Rightarrow> nat \<Rightarrow> nat \<Rightarrow> nat \<Rightarrow> (ErrorCode \<times> bytes \<times> nat) option" where
  "list_names img entries [] buf pos buff_size len = Some (OK, buf, len)"
| "list_names img entries (i # is) buf pos buff_size len = do {
     no \<leftarrow> e_name_offset img entries i;
     name \<leftarrow> c_str img no;
     let res = length name + 1;
     let len' = len + res;
     if buff_size = 0 then list_names img entries is buf pos buff_size len'
     else if res > buff_size then Some (TOO_LONG, buf, len')
     else do {
       buf' \<leftarrow> strncpy buf pos name res;
       list_names img entries is buf' (pos + res) (buff_size - res) len'
     }
   }"

definition list_xattr :: "bytes \<Rightarrow> string \<Rightarrow> bytes \<Rightarrow> nat \<Rightarrow> nat \<Rightarrow> (string + ErrorCode \<times> bytes \<times> nat) option" where
  "list_xattr img path buf buff_size len =
     at_path img path (\<lambda>offset. do {
       count \<leftarrow> n_xattrs_count img offset;
       list_names img (offset + NODE_SIZE) [0..<count] buf 0 buff_size 0
     }) (buf, len)"

definition get_xattr ::
    "bytes \<Rightarrow> string \<Rightarrow> string \<Rightarrow> bytes \<Rightarrow> nat \<Rightarrow> nat \<Rightarrow> (string + ErrorCode \<times> bytes \<times> nat) option" where
  "get_xattr img path name value_buf buff_size len =
     at_path img path (\<lambda>offset. do {
       count \<leftarrow> n_xattrs_count img offset;
       data_offset \<leftarrow> find_entity img name (offset + NODE_SIZE) count;
       if data_offset = 0 then Some (NO_DATA, value_buf, len)
       else do {
         data_size \<leftarrow> get_u64 img data_offset;
         if buff_size > 0 then
           if data_size > buff_size then Some (TOO_LONG, value_buf, data_size)
           else do {
             d \<leftarrow> slice img (data_offset + 8) data_size;
             value_buf' \<leftarrow> blit value_buf 0 d;
             Some (OK, value_buf', data_size)
           }
         else Some (OK, value_buf, data_size)
       }
     }) (value_buf, len)"

definition get_offset :: "bytes \<Rightarrow> string \<Rightarrow> (string + ErrorCode \<times> nat) option" where
  "get_offset img path = get_node_offset img path"

text \<open>
  The constructor that downloads the image: first its length, then all of it. \<open>rd\<close> is
  \<^verbatim>\<open>dataProvider.read\<close>, \<open>junk n\<close> a new buffer of \<open>n\<close> characters.
\<close>

definition mfs_download ::
    "(nat \<Rightarrow> bytes \<Rightarrow> nat \<Rightarrow> 'p \<Rightarrow> (ErrorCode \<times> bytes \<times> 'p) option) \<Rightarrow> (nat \<Rightarrow> bytes) \<Rightarrow> 'p \<Rightarrow>
     ((string + bytes) \<times> 'p) option" where
  "mfs_download rd junk p = do {
     (err, buf, p') \<leftarrow> rd 0 (junk 8) 8 p;
     if err \<noteq> OK then Some (Inl ''Unable to download metafs block 0'', p')
     else do {
       sz \<leftarrow> get_u64 buf 0;
       (err', d, p'') \<leftarrow> rd 0 (junk sz) sz p';
       if err' \<noteq> OK then Some (Inl ''Unable to download metafs data'', p'') else Some (Inr d, p'')
     }
   }"

subsection \<open>The binary search finds what is in the table\<close>

text \<open>The node of a name in a table, 0 when there is none.\<close>

definition table_find :: "string list \<Rightarrow> nat list \<Rightarrow> string \<Rightarrow> nat" where
  "table_find ns os name = (case map_of (zip ns os) name of None \<Rightarrow> 0 | Some o' \<Rightarrow> o')"

lemma name_less_linear: "name_less a b \<or> a = b \<or> name_less b a"
  unfolding name_less_def
  by (rule lexord_linear) (simp, metis linorder_less_linear of_char_eq_iff)

lemma sorted_names_distinct: "sorted_wrt name_less ns \<Longrightarrow> distinct ns"
  by (induction ns) auto

lemma table_find_nth:
  assumes "distinct ns" "length os = length ns" "i < length ns"
  shows "table_find ns os (ns ! i) = os ! i"
  using assms map_of_zip_nth [of ns os i] by (simp add: table_find_def)

lemma table_find_none: "name \<notin> set ns \<Longrightarrow> table_find ns os name = 0"
  by (auto simp: table_find_def map_of_eq_None_iff dest: set_zip_leftD split: option.split) (metis map_of_SomeD set_zip_leftD)

lemma strcmp_entry:
  assumes t: "table_at img ents ns os" and i: "i < length ns" and name: "CHR 0x00 \<notin> set name"
  obtains off where "e_name_offset img ents i = Some off" and "e_data_offset img ents i = Some (os ! i)"
    and "strcmp (drop off img) name = Some (if ns ! i = name then 0 else if name_less (ns ! i) name then -1 else 1)"
  using t i strcmp_c_str [OF _ name] unfolding table_at_def by metis

lemma sorted_nth_less:
  assumes "sorted_wrt name_less ns" "i \<le> j" "j < length ns"
  shows "ns ! i = ns ! j \<or> name_less (ns ! i) (ns ! j)"
  using assms sorted_wrt_nth_less [of name_less ns i j] by (cases "i = j") auto

lemma find_loop_ok:
  assumes "table_at img ents ns os" and "sorted_wrt name_less ns" and "CHR 0x00 \<notin> set name"
    and "0 \<le> a" and "a < int (length ns)" and "b < int (length ns)"
    and "\<forall>j < length ns. ns ! j = name \<longrightarrow> a \<le> int j \<and> int j \<le> b"
  shows "find_loop img name ents a b = Some (table_find ns os name)"
  using assms(4-)
proof (induction "nat (b - a + 1)" arbitrary: a b rule: less_induct)
  case less
  note t = assms(1) and sorted = assms(2) and name = assms(3)
  have os: "length os = length ns" using t by (simp add: table_at_def)
  note nth = table_find_nth [OF sorted_names_distinct [OF sorted] os]
  show ?case
  proof (cases "a < b")
    case False
    have i: "nat a < length ns" using less.prems by simp
    obtain off where e: "e_name_offset img ents (nat a) = Some off" "e_data_offset img ents (nat a) = Some (os ! nat a)"
        "strcmp (drop off img) name = Some (if ns ! nat a = name then 0 else if name_less (ns ! nat a) name then -1 else 1)"
      by (rule strcmp_entry [OF t i name])
    show ?thesis
    proof (cases "ns ! nat a = name")
      case True
      then show ?thesis using False e nth [OF i] by (simp add: find_loop.simps [of img name ents a b])
    next
      case ne: False
      have "name \<notin> set ns"
      proof
        assume "name \<in> set ns"
        then obtain j where j: "j < length ns" "ns ! j = name" by (auto simp: in_set_conv_nth)
        then have "a \<le> int j" "int j \<le> b" using less.prems(4) by auto
        then have "j = nat a" using False by simp
        then show False using ne j(2) by simp
      qed
      then show ?thesis using False ne e by (simp add: find_loop.simps [of img name ents a b] table_find_none)
    qed
  next
    case True
    define m where "m = (a + b) div 2"
    have m: "a \<le> m" "m < b" using True by (simp_all add: m_def)
    have i: "nat m < length ns" using m less.prems(1,3) by simp
    obtain off where e: "e_name_offset img ents (nat m) = Some off" "e_data_offset img ents (nat m) = Some (os ! nat m)"
        "strcmp (drop off img) name = Some (if ns ! nat m = name then 0 else if name_less (ns ! nat m) name then -1 else 1)"
      by (rule strcmp_entry [OF t i name])
    consider "ns ! nat m = name" | "ns ! nat m \<noteq> name" "name_less (ns ! nat m) name"
      | "ns ! nat m \<noteq> name" "\<not> name_less (ns ! nat m) name" "name_less name (ns ! nat m)"
      using name_less_linear by blast
    then show ?thesis
    proof cases
      case 1
      then show ?thesis
        using True e nth [OF i] by (simp add: find_loop.simps [of img name ents a b] m_def [symmetric] Let_def)
    next
      case 2
      have "m + 1 \<le> int j" if "j < length ns" "ns ! j = name" for j
      proof (rule ccontr)
        assume "\<not> m + 1 \<le> int j"
        then have "j \<le> nat m" using m(1) less.prems(1) by simp
        then have "name = ns ! nat m \<or> name_less name (ns ! nat m)"
          using sorted_nth_less [OF sorted _ i, of j] that(2) by auto
        then show False using 2 name_less_trans name_less_irrefl by blast
      qed
      then have inv: "\<forall>j < length ns. ns ! j = name \<longrightarrow> m + 1 \<le> int j \<and> int j \<le> b" using less.prems(4) by auto
      have "find_loop img name ents (m + 1) b = Some (table_find ns os name)"
        by (rule less.hyps) (use m less.prems inv in auto)
      then show ?thesis
        using True e 2 by (simp add: find_loop.simps [of img name ents a b] m_def [symmetric] Let_def)
    next
      case 3
      have "int j \<le> m - 1" if "j < length ns" "ns ! j = name" for j
      proof (rule ccontr)
        assume "\<not> int j \<le> m - 1"
        then have "nat m \<le> j" using m(1) less.prems(1) by simp
        then have "ns ! nat m = name \<or> name_less (ns ! nat m) name"
          using sorted_nth_less [OF sorted _ that(1), of "nat m"] that(2) by auto
        then show False using 3 by blast
      qed
      then have inv: "\<forall>j < length ns. ns ! j = name \<longrightarrow> a \<le> int j \<and> int j \<le> m - 1" using less.prems(4) by auto
      have "find_loop img name ents a (m - 1) = Some (table_find ns os name)"
        by (rule less.hyps) (use m less.prems inv in auto)
      then show ?thesis
        using True e 3 by (simp add: find_loop.simps [of img name ents a b] m_def [symmetric] Let_def)
    qed
  qed
qed

lemma find_entity_ok:
  assumes "table_at img ents ns os" and "sorted_wrt name_less ns" and "CHR 0x00 \<notin> set name"
  shows "find_entity img name ents (length ns) = Some (table_find ns os name)"
proof (cases "ns = []")
  case True
  then show ?thesis by (simp add: find_entity_def table_find_def)
next
  case False
  then have "find_loop img name ents 0 (int (length ns) - 1) = Some (table_find ns os name)"
    by (intro find_loop_ok [OF assms]) auto
  then show ?thesis using False by (simp add: find_entity_def)
qed

subsection \<open>Paths\<close>

fun components :: "string \<Rightarrow> string \<Rightarrow> string list" where
  "components name [] = (if name \<noteq> [] then [name] else [])"
| "components name (c # path) =
     (if c = CHR ''/'' then name # components [] path else components (name @ [c]) path)"

fun tree_lookup :: "tree \<Rightarrow> string list \<Rightarrow> tree option" where
  "tree_lookup t [] = Some t"
| "tree_lookup t (n # ns) =
     (case t of Dir a xs es \<Rightarrow> (case map_of es n of None \<Rightarrow> None | Some t' \<Rightarrow> tree_lookup t' ns)
      | _ \<Rightarrow> None)"

text \<open>Trees whose directories have no extended attributes.\<close>

primrec plain_dirs :: "tree \<Rightarrow> bool" where
  "plain_dirs (Reg a xs pos len) = True"
| "plain_dirs (Lnk a xs target) = True"
| "plain_dirs (Dir a xs es) = (xs = [] \<and> list_all snd (map (map_prod id plain_dirs) es))"

lemma plain_dirs_Dir: "plain_dirs (Dir a xs es) \<longleftrightarrow> xs = [] \<and> (\<forall>e \<in> set es. plain_dirs (snd e))"
  by (simp add: list_all_iff)

lemma not_dir: "S_ISREG m \<Longrightarrow> \<not> S_ISDIR m" "S_ISLNK m \<Longrightarrow> \<not> S_ISDIR m"
  by (auto simp: S_ISREG_def S_ISDIR_def S_ISLNK_def)

lemma map_of_table:
  assumes "table_at img ents (map fst es) os" and "sorted_wrt name_less (map fst es)"
  shows "case map_of es name of
      None \<Rightarrow> table_find (map fst es) os name = 0
    | Some t \<Rightarrow> \<exists>i < length es. es ! i = (name, t) \<and> table_find (map fst es) os name = os ! i \<and> os ! i \<noteq> 0"
proof (cases "map_of es name")
  case None
  then have "name \<notin> set (map fst es)" by (simp add: map_of_eq_None_iff)
  then show ?thesis using None by (simp add: table_find_none)
next
  case (Some t)
  then obtain i where i: "i < length es" "es ! i = (name, t)" by (metis in_set_conv_nth map_of_SomeD)
  have os: "length os = length (map fst es)" "0 \<notin> set os" using assms(1) by (simp_all add: table_at_def)
  have "table_find (map fst es) os name = os ! i"
    using table_find_nth [OF sorted_names_distinct [OF assms(2)] os(1), of i] i by simp
  moreover have "os ! i \<noteq> 0" using os i(1) by (metis length_map nth_mem)
  ultimately show ?thesis using Some i by auto
qed

lemma get_child_ok:
  assumes r: "represents img n t" and plain: "plain_dirs t" and name: "CHR 0x00 \<notin> set name"
  shows "case tree_lookup t [name] of
      None \<Rightarrow> get_child img n name = Some 0
    | Some t' \<Rightarrow> \<exists>n'. get_child img n name = Some n' \<and> n' \<noteq> 0 \<and> represents img n' t' \<and> plain_dirs t'"
  using r
proof (cases rule: represents.cases)
  case (reg a xs pos len)
  then show ?thesis by (simp add: get_child_def attrs_at_def not_dir)
next
  case (lnk a xs off target)
  then show ?thesis by (simp add: get_child_def attrs_at_def not_dir)
next
  case (dir a xs es os)
  have xs: "xs = []" and sub: "\<forall>e \<in> set es. plain_dirs (snd e)"
    using plain unfolding dir(1) plain_dirs_Dir by auto
  have tab: "table_at img (n + NODE_SIZE) (map fst es) os" using dir(9) xs by (simp add: xattrs_size_def)
  have "wrap 32 (int (length es)) = length (map fst es)" using dir(6) wrap_of_nat [of "length es" 32] by simp
  then have c: "get_child img n name = Some (table_find (map fst es) os name)"
    using find_entity_ok [OF tab dir(8) name] dir(2,3,5) by (simp add: get_child_def attrs_at_def)
  show ?thesis
  proof (cases "map_of es name")
    case None
    then show ?thesis using map_of_table [OF tab dir(8), of name] c by (simp add: dir(1))
  next
    case (Some t')
    then obtain i where i: "i < length es" "es ! i = (name, t')"
        "table_find (map fst es) os name = os ! i" "os ! i \<noteq> 0"
      using map_of_table [OF tab dir(8), of name] by auto
    have "represents img (os ! i) t'" using dir(10) i(1,2) by auto
    moreover have "plain_dirs t'" using sub i(1,2) by (metis nth_mem snd_conv)
    ultimately show ?thesis using Some c i by (simp add: dir(1))
  qed
qed

lemma tree_lookup_Cons:
  "tree_lookup t (n # ns) = (case tree_lookup t [n] of None \<Rightarrow> None | Some t' \<Rightarrow> tree_lookup t' ns)"
  by (simp split: tree.split option.split)

lemma walk_ok:
  assumes "represents img n t" and "plain_dirs t" and "CHR 0x00 \<notin> set name" and "CHR 0x00 \<notin> set path"
    and "n \<noteq> 0"
  shows "case tree_lookup t (components name path) of
      None \<Rightarrow> walk img n name path = Some (NOT_FOUND, 0)
    | Some t' \<Rightarrow> \<exists>n'. walk img n name path = Some (OK, n') \<and> n' \<noteq> 0 \<and> represents img n' t' \<and> plain_dirs t'"
  using assms
proof (induction path arbitrary: n t name)
  case Nil
  show ?case
  proof (cases "name = []")
    case True
    then show ?thesis using Nil by simp
  next
    case False
    have "components name [] = [name]" using False by simp
    then show ?thesis
      using get_child_ok [OF Nil(1,2,3)] False by (auto simp del: tree_lookup.simps(2) split: option.splits)
  qed
next
  case (Cons c path)
  show ?case
  proof (cases "c = CHR ''/''")
    case True
    have cs: "components name (c # path) = name # components [] path" using True by simp
    note gc = get_child_ok [OF Cons.prems(1,2,3)]
    show ?thesis
    proof (cases "tree_lookup t [name]")
      case None
      then show ?thesis using gc True unfolding cs tree_lookup_Cons [of t name "components [] path"] by simp
    next
      case (Some t')
      then obtain n' where n': "get_child img n name = Some n'" "n' \<noteq> 0" "represents img n' t'" "plain_dirs t'"
        using gc by auto
      have w: "walk img n name (c # path) = walk img n' [] path" using n'(1,2) True by simp
      have "CHR 0x00 \<notin> set path" using Cons.prems(4) by simp
      from Cons.IH [OF n'(3,4) _ this n'(2), of "[]"] show ?thesis
        unfolding cs tree_lookup_Cons [of t name "components [] path"] Some option.case w by simp
    qed
  next
    case False
    have "CHR 0x00 \<notin> set (name @ [c])" "CHR 0x00 \<notin> set path" using Cons.prems(3,4) by auto
    note ih = Cons.IH [OF Cons.prems(1,2) this Cons.prems(5)]
    have "walk img n name (c # path) = walk img n (name @ [c]) path"
      "components name (c # path) = components (name @ [c]) path"
      using False by simp_all
    with ih show ?thesis by metis
  qed
qed

text \<open>Running an operation at a path of an image.\<close>

lemma at_path_ok:
  assumes "represents img 8 t" and "plain_dirs t" and "CHR 0x00 \<notin> set path"
  shows "case tree_lookup t (components [] path) of
      None \<Rightarrow> at_path img (CHR ''/'' # path) f r = Some (Inr (NOT_FOUND, r))
    | Some t' \<Rightarrow> \<exists>n. at_path img (CHR ''/'' # path) f r = map_option Inr (f n) \<and> represents img n t'"
proof (cases "tree_lookup t (components [] path)")
  case None
  then show ?thesis
    using walk_ok [OF assms(1,2), of "[]" path] assms(3) by (simp add: at_path_def get_node_offset_def)
next
  case (Some t')
  then obtain n where "walk img 8 [] path = Some (OK, n)" "represents img n t'"
    using walk_ok [OF assms(1,2), of "[]" path] assms(3) by auto
  then show ?thesis using Some by (auto simp: at_path_def get_node_offset_def)
qed

lemma at_path_tree:
  assumes "represents img 8 t" and "plain_dirs t" and "CHR 0x00 \<notin> set path"
    and "\<And>n t'. represents img n t' \<Longrightarrow> f n = Some (g t')"
  shows "at_path img (CHR ''/'' # path) f r =
    Some (Inr (case tree_lookup t (components [] path) of None \<Rightarrow> (NOT_FOUND, r) | Some t' \<Rightarrow> g t'))"
  using at_path_ok [OF assms(1-3), of f r] assms(4) by (auto split: option.splits)

subsection \<open>Reading a represented node\<close>

fun tree_attrs :: "tree \<Rightarrow> attrs" where
  "tree_attrs (Reg a xs pos len) = a"
| "tree_attrs (Lnk a xs target) = a"
| "tree_attrs (Dir a xs es) = a"

fun tree_xattrs :: "tree \<Rightarrow> xattrs" where
  "tree_xattrs (Reg a xs pos len) = xs"
| "tree_xattrs (Lnk a xs target) = xs"
| "tree_xattrs (Dir a xs es) = xs"

definition stat_of :: "attrs \<Rightarrow> stat" where
  "stat_of a =
     \<lparr>st_mode = a_mode a, st_nlink = (if S_ISDIR (a_mode a) then 2 else 1), st_uid = a_uid a, st_gid = a_gid a,
      st_size = a_size a, st_blocks = a_blocks a, st_atim = timespec (a_mtime a), st_mtim = timespec (a_mtime a),
      st_ctim = timespec (a_ctime a)\<rparr>"

lemma represents_attrs: "represents img n t \<Longrightarrow> attrs_at img n (tree_attrs t)"
  by (induction rule: represents.induct) simp_all

lemma represents_xattrs: "represents img n t \<Longrightarrow> xattrs_at img n (tree_xattrs t)"
  by (induction rule: represents.induct) simp_all

lemma get_stat_at_ok: "attrs_at img n a \<Longrightarrow> get_stat_at img n = Some (stat_of a)"
  by (simp add: get_stat_at_def attrs_at_def stat_of_def)

text \<open>The callbacks of a directory listing, one after the other until one asks to stop.\<close>

fun list_until :: "(string \<Rightarrow> stat \<Rightarrow> 'a \<Rightarrow> bool \<times> 'a) \<Rightarrow> (string \<times> tree) list \<Rightarrow> 'a \<Rightarrow> 'a" where
  "list_until f [] acc = acc"
| "list_until f (e # es) acc =
     (case f (fst e) (stat_of (tree_attrs (snd e))) acc of (stop, acc') \<Rightarrow> if stop then acc' else list_until f es acc')"

lemma read_entries_ok:
  assumes "table_at img d (map fst es) os" and "\<forall>i < length es. represents img (os ! i) (snd (es ! i))"
    and "k \<le> length es"
  shows "read_entries img d f [k..<length es] acc = Some (list_until f (drop k es) acc)"
  using assms(3)
proof (induction "length es - k" arbitrary: k acc)
  case 0
  then show ?case by simp
next
  case (Suc m)
  then have k: "k < length es" by simp
  obtain no where e: "e_data_offset img d k = Some (os ! k)" "e_name_offset img d k = Some no"
      "c_str img no = Some (fst (es ! k))"
    using assms(1) k unfolding table_at_def by auto
  have st: "get_stat_at img (os ! k) = Some (stat_of (tree_attrs (snd (es ! k))))"
    using assms(2) k by (intro get_stat_at_ok represents_attrs) blast
  obtain stop acc' where f: "f (fst (es ! k)) (stat_of (tree_attrs (snd (es ! k)))) acc = (stop, acc')" by fastforce
  have "read_entries img d f [Suc k..<length es] acc' = Some (list_until f (drop (Suc k) es) acc')"
    using Suc by (intro Suc.hyps(1)) auto
  then show ?case
    using e st f k by (simp add: upt_conv_Cons Cons_nth_drop_Suc [symmetric])
qed

lemma get_dir_at_ok:
  assumes "represents img n t"
  shows "(do {
      mode \<leftarrow> n_mode img n;
      if \<not> S_ISDIR mode then Some (BAD_TYPE, acc)
      else do {
        dirents \<leftarrow> n_data_offset img n;
        len \<leftarrow> n_length img n;
        acc' \<leftarrow> read_entries img dirents f [start_at..<len] acc;
        Some (OK, acc')
      }
    }) = Some (case t of Dir a xs es \<Rightarrow> (OK, list_until f (drop start_at es) acc) | _ \<Rightarrow> (BAD_TYPE, acc))"
  using assms
proof (cases rule: represents.cases)
  case (dir a xs es os)
  have "read_entries img (n + NODE_SIZE + xattrs_size xs) f [start_at..<length es] acc =
      Some (list_until f (drop start_at es) acc)"
  proof (cases "start_at \<le> length es")
    case True
    then show ?thesis by (rule read_entries_ok [OF dir(9,10)])
  qed simp
  then show ?thesis using dir(1-3,5,7) by (simp add: attrs_at_def)
qed (simp_all add: attrs_at_def not_dir)

lemma find_xattr:
  assumes "xattrs_at img n xs" and "CHR 0x00 \<notin> set name"
  shows "case map_of xs name of
      None \<Rightarrow> find_entity img name (n + NODE_SIZE) (length xs) = Some 0
    | Some v \<Rightarrow> \<exists>d. find_entity img name (n + NODE_SIZE) (length xs) = Some d \<and> d \<noteq> 0 \<and>
        get_u64 img d = Some (length v) \<and> slice img (d + 8) (length v) = Some v"
proof -
  obtain os where sorted: "sorted_wrt name_less (map fst xs)" and tab: "table_at img (n + NODE_SIZE) (map fst xs) os"
    and val: "\<forall>i < length xs. get_u64 img (os ! i) = Some (length (snd (xs ! i))) \<and>
        slice img (os ! i + 8) (length (snd (xs ! i))) = Some (snd (xs ! i))"
    using assms(1) by (auto simp: xattrs_at_def)
  have f: "find_entity img name (n + NODE_SIZE) (length xs) = Some (table_find (map fst xs) os name)"
    using find_entity_ok [OF tab sorted assms(2)] by simp
  show ?thesis
  proof (cases "map_of xs name")
    case None
    then have "name \<notin> set (map fst xs)" by (simp add: map_of_eq_None_iff)
    then show ?thesis using None f table_find_none by (simp del: set_map)
  next
    case (Some v)
    then obtain i where i: "i < length xs" "xs ! i = (name, v)" by (metis in_set_conv_nth map_of_SomeD)
    have os: "length os = length (map fst xs)" "0 \<notin> set os" using tab by (simp_all add: table_at_def)
    have "table_find (map fst xs) os name = os ! i"
      using table_find_nth [OF sorted_names_distinct [OF sorted] os(1), of i] i by simp
    moreover have "os ! i \<noteq> 0" using os i(1) by (metis length_map nth_mem)
    moreover have "get_u64 img (os ! i) = Some (length v)" "slice img (os ! i + 8) (length v) = Some v"
      using val [rule_format, OF i(1)] i(2) by simp_all
    ultimately show ?thesis using Some f by auto
  qed
qed

text \<open>The names as \<^verbatim>\<open>listxattr\<close> reports them: each followed by a NUL.\<close>

definition name_list :: "string list \<Rightarrow> bytes" where
  "name_list ns = concat (map (\<lambda>n. n @ [CHR 0x00]) ns)"

lemma name_list_simps [simp]:
  "name_list [] = []" "name_list (n # ns) = n @ CHR 0x00 # name_list ns" "name_list (ms @ ns) = name_list ms @ name_list ns"
  by (simp_all add: name_list_def)

definition entry_named :: "bytes \<Rightarrow> nat \<Rightarrow> nat \<Rightarrow> string \<Rightarrow> bool" where
  "entry_named img entries i name \<longleftrightarrow> (\<exists>no. e_name_offset img entries i = Some no \<and> c_str img no = Some name)"

lemma list_names_no_room:
  assumes "list_all2 (entry_named img entries) is ns"
  shows "list_names img entries is buf pos 0 len = Some (OK, buf, len + length (name_list ns))"
  using assms by (induction arbitrary: len) (auto simp: entry_named_def)

lemma list_names_ok:
  assumes "list_all2 (entry_named img entries) is (ps @ qs)" and "pos + k \<le> length buf"
    and "length (name_list ps) \<le> k" and "qs = [] \<or> length (name_list ps) = k"
  shows "list_names img entries is buf pos k len =
    Some (OK, take pos buf @ name_list ps @ drop (pos + length (name_list ps)) buf, len + length (name_list (ps @ qs)))"
  using assms
proof (induction ps arbitrary: "is" buf pos k len)
  case Nil
  then show ?case using list_names_no_room [of img entries "is" qs] by (cases "qs = []") auto
next
  case (Cons p ps)
  obtain i is' where i: "is = i # is'" "entry_named img entries i p" "list_all2 (entry_named img entries) is' (ps @ qs)"
    using Cons.prems(1) by (auto simp: list_all2_Cons2)
  let ?r = "length p + 1"
  let ?buf = "take pos buf @ (p @ [CHR 0x00]) @ drop (pos + ?r) buf"
  have r: "0 < k" "?r \<le> k" "pos + ?r \<le> length buf" using Cons.prems(2,3) by simp_all
  have cp: "strncpy buf pos p ?r = Some ?buf" using r(3) by (simp add: strncpy_def blit_def)
  have ih: "list_names img entries is' ?buf (pos + ?r) (k - ?r) (len + ?r) =
      Some (OK, take (pos + ?r) ?buf @ name_list ps @ drop (pos + ?r + length (name_list ps)) ?buf,
        len + ?r + length (name_list (ps @ qs)))"
    by (rule Cons.IH [OF i(3)]) (use Cons.prems(2-4) r in auto)
  have b: "take (pos + ?r) ?buf = take pos buf @ p @ [CHR 0x00]"
    "drop (pos + ?r + length (name_list ps)) ?buf = drop (pos + length (name_list (p # ps))) buf"
    using r(3) by (simp_all add: add.commute add.left_commute)
  obtain no where "e_name_offset img entries i = Some no" "c_str img no = Some p"
    using i(2) by (auto simp: entry_named_def)
  then have "list_names img entries is buf pos k len =
      list_names img entries is' ?buf (pos + ?r) (k - ?r) (len + ?r)"
    using r cp unfolding i(1) by (simp add: Let_def)
  then show ?case unfolding ih b by simp
qed

lemma list_xattr_at_ok:
  assumes "represents img n t" and "map fst (tree_xattrs t) = ps @ qs" and "k \<le> length buf"
    and "length (name_list ps) \<le> k" and "qs = [] \<or> length (name_list ps) = k"
  shows "(do {
      count \<leftarrow> n_xattrs_count img n;
      list_names img (n + NODE_SIZE) [0..<count] buf 0 k 0
    }) = Some (OK, name_list ps @ drop (length (name_list ps)) buf, length (name_list (ps @ qs)))"
proof -
  have x: "xattrs_at img n (tree_xattrs t)" by (rule represents_xattrs [OF assms(1)])
  have "list_all2 (entry_named img (n + NODE_SIZE)) [0..<length (tree_xattrs t)] (map fst (tree_xattrs t))"
    using x by (auto simp: xattrs_at_def table_at_def entry_named_def list_all2_conv_all_nth)
  then show ?thesis
    using list_names_ok [of img "n + NODE_SIZE" "[0..<length (tree_xattrs t)]" ps qs 0 k buf 0] x assms(2-5)
    by (simp add: xattrs_at_def)
qed

text \<open>
  The search of \<^verbatim>\<open>get_child\<close> in a directory with extended attributes and one entry looks at the
  first attribute.
\<close>

lemma get_child_sees_xattr:
  assumes "represents img n (Dir a ((k, v) # xs) [e])" and "CHR 0x00 \<notin> set name"
  shows "\<exists>d. d \<noteq> 0 \<and> get_child img n name = Some (if name = k then d else 0)"
  using assms(1)
proof (cases rule: represents.cases)
  case (dir nodes)
  obtain os where tab: "table_at img (n + NODE_SIZE) (k # map fst xs) os" using dir(3) by (auto simp: xattrs_at_def)
  have "0 < length (k # map fst xs)" by simp
  note entry = strcmp_entry [OF tab this assms(2)]
  obtain off where
    e: "e_name_offset img (n + NODE_SIZE) 0 = Some off" "e_data_offset img (n + NODE_SIZE) 0 = Some (os ! 0)"
      "strcmp (drop off img) name =
        Some (if (k # map fst xs) ! 0 = name then 0 else if name_less ((k # map fst xs) ! 0) name then -1 else 1)"
    by (rule entry)
  have "os ! 0 \<noteq> 0" using tab by (cases os) (auto simp: table_at_def)
  moreover have "get_child img n name = Some (if name = k then os ! 0 else 0)"
  proof -
    have "find_loop img name (n + NODE_SIZE) 0 0 = Some (if name = k then os ! 0 else 0)"
      unfolding find_loop.simps [of img name "n + NODE_SIZE" 0 0] using e by simp
    moreover have "wrap 32 (int (length [e])) = 1" by (simp add: wrap_def)
    ultimately show ?thesis using dir(1,2,4) by (simp add: get_child_def attrs_at_def find_entity_def)
  qed
  ultimately show ?thesis by blast
qed

end
