(* ===== verification/Compressed_Store.thy ===== *)
theory Compressed_Store
  imports Chunk_Store_Runs
begin

text \<open>
  data/compression_engine.cc and data/compressed_store.cc: a ChunkStore whose chunks are
  compressed. The compressor is the LZ4 library, which is a parameter here: a record with
  its two functions, which get the source and the capacity of the destination and give the
  status and the bytes written. What the library documents of them is the predicate
  \<open>codec_ok\<close>. The operations are given over the operations \<open>rd\<close> and \<open>wr\<close> of the raw store,
  so that their correctness rests on the interface \<open>chunk_map\<close> only.
\<close>

subsection \<open>The compressor\<close>

record codec =
  lz4_compress :: "bytes \<Rightarrow> nat \<Rightarrow> int \<times> bytes"
  lz4_decompress :: "bytes \<Rightarrow> nat \<Rightarrow> int \<times> bytes"

text \<open>\<^verbatim>\<open>CompressionEngine::compress\<close> and \<^verbatim>\<open>CompressionEngine::decompress\<close>.\<close>

definition compress :: "codec \<Rightarrow> bytes \<Rightarrow> nat \<Rightarrow> bytes \<Rightarrow> nat \<Rightarrow> (int \<times> bytes) option" where
  "compress lz4 dest dest_max_size src src_size = do {
     d \<leftarrow> slice src 0 src_size;
     let (status, out) = lz4_compress lz4 d dest_max_size;
     dest' \<leftarrow> blit dest 0 out;
     Some (status, dest')
   }"

definition decompress :: "codec \<Rightarrow> bytes \<Rightarrow> nat \<Rightarrow> bytes \<Rightarrow> nat \<Rightarrow> (int \<times> bytes) option" where
  "decompress lz4 dest dest_max_size src src_size = do {
     d \<leftarrow> slice src 0 src_size;
     let (status, out) = lz4_decompress lz4 d dest_max_size;
     dest' \<leftarrow> blit dest 0 out;
     Some (status, dest')
   }"

text \<open>
  The documented behaviour of \<^verbatim>\<open>LZ4_compress_default\<close> (it returns the number of bytes
  written, or 0 when the destination is too small, and never writes past the destination) and
  of \<^verbatim>\<open>LZ4_decompress_safe\<close> (the number of bytes decompressed, or a negative value on a
  malformed source), which undoes a compression.
\<close>

definition codec_ok :: "codec \<Rightarrow> bool" where
  "codec_ok lz4 \<longleftrightarrow>
     (\<forall>src cap r out. lz4_compress lz4 src cap = (r, out) \<longrightarrow>
        0 \<le> r \<and> length out \<le> cap \<and>
        (0 < r \<longrightarrow> int (length out) = r \<and>
           (\<forall>cap' \<ge> length src. lz4_decompress lz4 out cap' = (int (length src), src)))) \<and>
     (\<forall>src cap r out. lz4_decompress lz4 src cap = (r, out) \<longrightarrow>
        length out \<le> cap \<and> (0 \<le> r \<longrightarrow> int (length out) = r))"

subsection \<open>The operations\<close>

definition compressed_read ::
    "codec \<Rightarrow> (nat \<Rightarrow> bytes \<Rightarrow> nat \<Rightarrow> 's \<Rightarrow> (ErrorCode \<times> bytes \<times> nat \<times> 's) option) \<Rightarrow>
     nat \<Rightarrow> bytes \<Rightarrow> nat \<Rightarrow> 's \<Rightarrow> (ErrorCode \<times> bytes \<times> nat \<times> 's) option" where
  "compressed_read lz4 rd i buffer sz s = do {
     (err, buf, rdsz, s') \<leftarrow> rd i new_buffer 0 s;
     if err = OK then do {
       (status, buffer') \<leftarrow> decompress lz4 buffer CHUNK_SIZE_BYTES buf rdsz;
       if status < 0 then Some (INTERNAL_ERROR, buffer', sz, s')
       else Some (err, buffer', nat status, s')
     }
     else Some (err, buffer, sz, s')
   }"

definition compressed_write ::
    "codec \<Rightarrow> (nat \<Rightarrow> bytes \<Rightarrow> nat \<Rightarrow> 's \<Rightarrow> (ErrorCode \<times> 's) option) \<Rightarrow>
     nat \<Rightarrow> bytes \<Rightarrow> nat \<Rightarrow> 's \<Rightarrow> (ErrorCode \<times> 's) option" where
  "compressed_write lz4 wr i buffer sz s = do {
     (status, buf) \<leftarrow> compress lz4 new_buffer CHUNK_SIZE_BYTES buffer sz;
     if status < 0 then Some (INTERNAL_ERROR, s)
     else wr i buf (nat status) s
   }"

text \<open>The class: these operations on a ChunkStore.\<close>

definition cs_read_chunk ::
    "codec \<Rightarrow> nat \<Rightarrow> bytes \<Rightarrow> nat \<Rightarrow> chunk_store \<Rightarrow> (ErrorCode \<times> bytes \<times> nat \<times> chunk_store) option" where
  "cs_read_chunk lz4 = compressed_read lz4 store_read_chunk"

definition cs_write_chunk ::
    "codec \<Rightarrow> nat \<Rightarrow> bytes \<Rightarrow> nat \<Rightarrow> chunk_store \<Rightarrow> (ErrorCode \<times> chunk_store) option" where
  "cs_write_chunk lz4 = compressed_write lz4 store_write_chunk"

definition cs_remove_chunk :: "nat \<Rightarrow> chunk_store \<Rightarrow> ErrorCode \<times> chunk_store" where
  "cs_remove_chunk i s = store_remove_chunk i s"

definition cs_available :: "chunk_store \<Rightarrow> nat set" where
  "cs_available s = store_available s"

subsection \<open>A compressed chunk map is a chunk map\<close>

text \<open>
  The contents a compressed store stands for, its invariant (every stored chunk
  decompresses), and what can be stored: what the compressor fits into a chunk.
\<close>

definition coded_lookup :: "codec \<Rightarrow> ('s \<Rightarrow> nat \<rightharpoonup> bytes) \<Rightarrow> 's \<Rightarrow> nat \<rightharpoonup> bytes" where
  "coded_lookup lz4 lk s i =
     (case lk s i of None \<Rightarrow> None
      | Some z \<Rightarrow> (case lz4_decompress lz4 z CHUNK_SIZE_BYTES of (r, d) \<Rightarrow> if r < 0 then None else Some d))"

definition coded_inv :: "codec \<Rightarrow> ('s \<Rightarrow> nat \<rightharpoonup> bytes) \<Rightarrow> ('s \<Rightarrow> bool) \<Rightarrow> 's \<Rightarrow> bool" where
  "coded_inv lz4 lk good s \<longleftrightarrow> codec_ok lz4 \<and> good s \<and>
     (\<forall>i z. lk s i = Some z \<longrightarrow> 0 \<le> fst (lz4_decompress lz4 z CHUNK_SIZE_BYTES))"

definition coded_storable :: "codec \<Rightarrow> (bytes \<Rightarrow> bool) \<Rightarrow> bytes \<Rightarrow> bool" where
  "coded_storable lz4 st d \<longleftrightarrow> length d \<le> CHUNK_SIZE_BYTES \<and>
     (case lz4_compress lz4 d CHUNK_SIZE_BYTES of (r, out) \<Rightarrow> 0 < r \<and> st out)"

lemma codec_decompress:
  "codec_ok lz4 \<Longrightarrow> lz4_decompress lz4 z cap = (r, d) \<Longrightarrow> length d \<le> cap \<and> (0 \<le> r \<longrightarrow> int (length d) = r)"
  by (simp add: codec_ok_def)

lemma codec_compress:
  assumes "codec_ok lz4" and "lz4_compress lz4 d cap = (r, out)" and "0 < r"
  shows "length out \<le> cap" "int (length out) = r"
    "length d \<le> cap' \<Longrightarrow> lz4_decompress lz4 out cap' = (int (length d), d)"
  using assms by (auto simp: codec_ok_def)

lemma decompress_ok:
  assumes ok: "codec_ok lz4" and z: "lz4_decompress lz4 z CHUNK_SIZE_BYTES = (r, d)" "0 \<le> r"
    and len: "CHUNK_SIZE_BYTES \<le> length buffer"
  shows "decompress lz4 buffer CHUNK_SIZE_BYTES (z @ rest) (length z) = Some (r, d @ drop (length d) buffer)"
  using codec_decompress [OF ok z(1)] z len
  by (simp add: decompress_def buf_simps)

lemma coded_lookup_Some:
  assumes "coded_inv lz4 lk good s" and "coded_lookup lz4 lk s i = Some d"
  obtains z where "lk s i = Some z" and "lz4_decompress lz4 z CHUNK_SIZE_BYTES = (int (length d), d)"
  using assms codec_decompress [of lz4]
  by (auto simp: coded_lookup_def coded_inv_def split: option.splits prod.splits if_splits) 

lemma coded_lookup_None:
  assumes "coded_inv lz4 lk good s"
  shows "coded_lookup lz4 lk s i = None \<longleftrightarrow> lk s i = None"
  using assms by (fastforce simp: coded_lookup_def coded_inv_def split: option.splits prod.splits if_splits)

lemma coded_lookup_cong: "lk s' = lk s \<Longrightarrow> coded_lookup lz4 lk s' = coded_lookup lz4 lk s"
  by (simp add: coded_lookup_def fun_eq_iff)

context chunk_map
begin

lemma compressed_read_ok:
  assumes inv: "coded_inv lz4 lookup inv s" and d: "coded_lookup lz4 lookup s i = Some d"
    and len: "CHUNK_SIZE_BYTES \<le> length buffer"
  shows "\<exists>s'. compressed_read lz4 rd i buffer sz s = Some (OK, d @ drop (length d) buffer, length d, s') \<and>
    coded_inv lz4 lookup inv s' \<and> coded_lookup lz4 lookup s' = coded_lookup lz4 lookup s \<and> room s' = room s"
proof -
  obtain z where z: "lookup s i = Some z" "lz4_decompress lz4 z CHUNK_SIZE_BYTES = (int (length d), d)"
    by (rule coded_lookup_Some [OF inv d])
  have ok: "codec_ok lz4" "inv s" using inv by (auto simp: coded_inv_def)
  obtain s' where r: "rd i new_buffer 0 s = Some (OK, z @ drop (length z) new_buffer, length z, s')"
      "inv s'" "lookup s' = lookup s" "room s' = room s"
    using read_ok [OF ok(2) z(1), of new_buffer 0] by auto
  have "decompress lz4 buffer CHUNK_SIZE_BYTES (z @ drop (length z) new_buffer) (length z) =
      Some (int (length d), d @ drop (length d) buffer)"
    by (rule decompress_ok [OF ok(1) z(2) _ len]) simp
  then show ?thesis
    using r inv coded_lookup_cong [of lookup s' s lz4] by (auto simp: compressed_read_def coded_inv_def)
qed

lemma compressed_read_missing:
  assumes inv: "coded_inv lz4 lookup inv s" and i: "i < 2 ^ 32"
    and none: "coded_lookup lz4 lookup s i = None"
  shows "\<exists>s'. compressed_read lz4 rd i buffer sz s = Some (NOT_FOUND, buffer, sz, s') \<and>
    coded_inv lz4 lookup inv s' \<and> coded_lookup lz4 lookup s' = coded_lookup lz4 lookup s \<and> room s' = room s"
proof -
  have "inv s" "lookup s i = None"
    using inv none coded_lookup_None [OF inv] by (auto simp: coded_inv_def)
  from read_missing [OF this(1) i this(2), of new_buffer 0] obtain s' where
    r: "rd i new_buffer 0 s = Some (NOT_FOUND, new_buffer, 0, s')" "inv s'" "lookup s' = lookup s"
      "room s' = room s" by auto
  then show ?thesis
    using inv coded_lookup_cong [of lookup s' s lz4] by (auto simp: compressed_read_def coded_inv_def)
qed

lemma compressed_write_ok:
  assumes inv: "coded_inv lz4 lookup inv s" and i: "i < 2 ^ 32" and n: "n \<le> length buffer"
    and st: "coded_storable lz4 storable (take n buffer)"
  shows "\<exists>s' E. compressed_write lz4 wr i buffer n s = Some (OK, s') \<and>
    coded_inv lz4 lookup inv s' \<and> i \<notin> E \<and>
    coded_lookup lz4 lookup s' = (coded_lookup lz4 lookup s |` (- E))(i \<mapsto> take n buffer) \<and>
    (\<forall>K. room s K \<longrightarrow> i < K \<longrightarrow> E = {} \<and> room s' K)"
proof -
  let ?d = "take n buffer"
  obtain r out where c: "lz4_compress lz4 ?d CHUNK_SIZE_BYTES = (r, out)" "0 < r" "storable out"
    and len: "length ?d \<le> CHUNK_SIZE_BYTES" using st by (auto simp: coded_storable_def)
  have ok: "codec_ok lz4" "inv s" using inv by (auto simp: coded_inv_def)
  note o = codec_compress [OF ok(1) c(1,2)]
  let ?buf = "out @ drop (length out) new_buffer"
  have comp: "compress lz4 new_buffer CHUNK_SIZE_BYTES buffer n = Some (r, ?buf)"
    using n c(1) o(1) by (simp add: compress_def buf_simps)
  have "nat r \<le> length ?buf" "take (nat r) ?buf = out" using o by auto
  then obtain s' E where w: "wr i ?buf (nat r) s = Some (OK, s')" "inv s'" "i \<notin> E"
      "lookup s' = (lookup s |` (- E))(i \<mapsto> out)" "\<forall>K. room s K \<longrightarrow> i < K \<longrightarrow> E = {} \<and> room s' K"
    using write_ok [OF ok(2) i, of "nat r" ?buf] c(3) by auto
  have dec: "lz4_decompress lz4 out CHUNK_SIZE_BYTES = (int (length ?d), ?d)" by (rule o(3) [OF len])
  have "coded_inv lz4 lookup inv s'"
    using inv w(2,4) dec by (auto simp: coded_inv_def restrict_map_def)
  moreover have "coded_lookup lz4 lookup s' = (coded_lookup lz4 lookup s |` (- E))(i \<mapsto> ?d)"
    using w(3,4) dec by (auto simp: coded_lookup_def restrict_map_def fun_eq_iff)
  ultimately show ?thesis using w comp c(2) by (auto simp: compressed_write_def)
qed

lemma compressed_chunk_map:
  "chunk_map (compressed_read lz4 rd) (compressed_write lz4 wr) avail (coded_lookup lz4 lookup)
     (coded_inv lz4 lookup inv) room (coded_storable lz4 storable)"
proof (unfold_locales, goal_cases)
  case 1
  then show ?case by (rule compressed_read_ok)
next
  case 2
  then show ?case by (rule compressed_read_missing)
next
  case 3
  then show ?case by (rule compressed_write_ok)
next
  case (4 s)
  then show ?case
    using avail_dom [of s] coded_lookup_None [OF 4] by (auto simp: coded_inv_def dom_def)
next
  case (5 s i d)
  obtain z where "lookup s i = Some z" by (rule coded_lookup_Some [OF 5])
  then show ?case using lookup_32 [of s i z] 5(1) by (simp add: coded_inv_def)
next
  case (6 s i d)
  obtain z where "lz4_decompress lz4 z CHUNK_SIZE_BYTES = (int (length d), d)"
    by (rule coded_lookup_Some [OF 6])
  then show ?case using codec_decompress 6(1) by (auto simp: coded_inv_def)
next
  case 7
  then show ?case by (simp add: coded_storable_def)
qed

end

text \<open>The contents of a CompressedStore, its invariant, and what can be stored in it.\<close>

definition cs_lookup :: "codec \<Rightarrow> chunk_store \<Rightarrow> nat \<rightharpoonup> bytes" where
  "cs_lookup lz4 = coded_lookup lz4 store_lookup"

definition cs_inv :: "codec \<Rightarrow> chunk_store \<Rightarrow> bool" where
  "cs_inv lz4 = coded_inv lz4 store_lookup store_bounded"

definition cs_storable :: "codec \<Rightarrow> bytes \<Rightarrow> bool" where
  "cs_storable lz4 = coded_storable lz4 (\<lambda>d. length d \<le> CHUNK_SIZE_BYTES)"

interpretation compressed_files: chunk_map "cs_read_chunk lz4" "cs_write_chunk lz4" cs_available
  "cs_lookup lz4" "cs_inv lz4" store_room "cs_storable lz4" for lz4
proof -
  have "cs_available = store_available" by (simp add: cs_available_def fun_eq_iff)
  then show "chunk_map (cs_read_chunk lz4) (cs_write_chunk lz4) cs_available (cs_lookup lz4) (cs_inv lz4)
      store_room (cs_storable lz4)"
    unfolding cs_read_chunk_def cs_write_chunk_def cs_lookup_def cs_inv_def cs_storable_def
    using chunk_files.compressed_chunk_map by simp
qed

subsection \<open>A codec\<close>

text \<open>
  A small codec that has the documented behaviour: it stores the length, then the data
  without the zero bytes at its end. It serves as the instance of the parameter in examples.
\<close>

definition strip_zeros :: "bytes \<Rightarrow> bytes" where
  "strip_zeros d = rev (dropWhile (\<lambda>c. c = CHR 0x00) (rev d))"

definition zero_compress :: "bytes \<Rightarrow> nat \<Rightarrow> int \<times> bytes" where
  "zero_compress src cap =
     (let out = le_bytes 4 (length src) @ strip_zeros src
      in if length src < 2 ^ 32 \<and> length out \<le> cap then (int (length out), out) else (0, []))"

definition zero_decompress :: "bytes \<Rightarrow> nat \<Rightarrow> int \<times> bytes" where
  "zero_decompress z cap =
     (let n = le_val (take 4 z); body = drop 4 z
      in if 4 \<le> length z \<and> length body \<le> n \<and> n \<le> cap
         then (int n, body @ replicate (n - length body) (CHR 0x00)) else (-1, []))"

definition zero_codec :: codec where
  "zero_codec = \<lparr>lz4_compress = zero_compress, lz4_decompress = zero_decompress\<rparr>"

lemma strip_zeros_append: "strip_zeros d @ replicate (length d - length (strip_zeros d)) (CHR 0x00) = d"
proof -
  have t: "takeWhile (\<lambda>c. c = CHR 0x00) xs = replicate (length (takeWhile (\<lambda>c. c = CHR 0x00) xs)) (CHR 0x00)"
    for xs :: bytes by (induction xs) simp_all
  have "length (takeWhile (\<lambda>c. c = CHR 0x00) (rev d)) = length d - length (strip_zeros d)"
    using arg_cong [OF takeWhile_dropWhile_id [of "\<lambda>c. c = CHR 0x00" "rev d"], of length]
    by (simp add: strip_zeros_def del: takeWhile_dropWhile_id)
  then show ?thesis
    using arg_cong [OF takeWhile_dropWhile_id [of "\<lambda>c. c = CHR 0x00" "rev d"], of rev] t [of "rev d"]
    by (simp add: strip_zeros_def del: takeWhile_dropWhile_id)
qed

lemma length_strip_zeros: "length (strip_zeros d) \<le> length d"
  using length_dropWhile_le [of "\<lambda>c. c = CHR 0x00" "rev d"] by (simp add: strip_zeros_def)

lemma length_strip_zeros_pad: "length (strip_zeros (d @ replicate k (CHR 0x00))) \<le> length d"
proof -
  have "strip_zeros (d @ replicate k (CHR 0x00)) = strip_zeros d"
    by (simp add: strip_zeros_def dropWhile_append)
  then show ?thesis by (simp add: length_strip_zeros)
qed

lemma zero_codec_ok: "codec_ok zero_codec"
proof -
  have "lz4_decompress zero_codec out cap' = (int (length d), d)"
    if "zero_compress d cap = (r, out)" "0 < r" "length d \<le> cap'" for d cap r out cap'
    using that length_strip_zeros [of d] strip_zeros_append [of d]
    by (auto simp: zero_compress_def zero_decompress_def zero_codec_def Let_def split: if_splits)
  then show ?thesis
    by (auto simp: codec_ok_def zero_codec_def zero_compress_def zero_decompress_def Let_def split: if_splits)
qed

lemma cs_lookup_fresh [simp]: "cs_lookup lz4 (fresh_store base sz cs) = Map.empty"
  by (simp add: cs_lookup_def coded_lookup_def fun_eq_iff)

lemma fresh_cs_inv:
  "codec_ok lz4 \<Longrightarrow> short_base base \<Longrightarrow> 0 < sz \<Longrightarrow> Fault \<notin> set cs \<Longrightarrow> cs_inv lz4 (fresh_store base sz cs)"
  by (simp add: cs_inv_def coded_inv_def fresh_store_bounded)

lemmas fresh_store_cs_inv = fresh_cs_inv [OF zero_codec_ok]

text \<open>A codec that copies: it fits every chunk.\<close>

definition copy_codec :: codec where
  "copy_codec = \<lparr>lz4_compress = (\<lambda>d cap. if length d \<le> cap then (int (length d), d) else (0, [])),
     lz4_decompress = (\<lambda>z cap. if length z \<le> cap then (int (length z), z) else (-1, []))\<rparr>"

lemma copy_codec_ok: "codec_ok copy_codec"
  by (auto simp: codec_ok_def copy_codec_def split: if_splits)

lemma copy_codec_storable: "length c = CHUNK_SIZE_BYTES \<Longrightarrow> cs_storable copy_codec c"
  using chunk_size_pos by (simp add: cs_storable_def coded_storable_def copy_codec_def)

subsection \<open>Properties\<close>

text \<open>
  C27: A chunk that fits after compression is written with the result OK and read back
  unchanged, for every compressor with LZ4's documented behaviour and every chunk size up to
  \<open>CHUNK_SIZE_BYTES\<close>.
\<close>

theorem compressed_store_read_after_write:
  assumes "cs_inv lz4 s" and "i < 2 ^ 32" and "n \<le> length src" and "cs_storable lz4 (take n src)"
    and "CHUNK_SIZE_BYTES \<le> length buffer"
  shows "\<exists>s' s''. cs_write_chunk lz4 i src n s = Some (OK, s') \<and>
    cs_read_chunk lz4 i buffer sz s' = Some (OK, take n src @ drop n buffer, n, s'')"
  using assms by (rule compressed_files.read_after_write)

theorem compressed_store_read_after_write_witness:
  "\<exists>s' s''. cs_write_chunk zero_codec 7 ''abc'' 3 (fresh_store ''/s'' 1 []) = Some (OK, s') \<and>
    cs_read_chunk zero_codec 7 new_buffer 0 s' = Some (OK, ''abc'' @ drop 3 new_buffer, 3, s'')"
proof -
  have inv: "cs_inv zero_codec (fresh_store ''/s'' 1 [])"
    by (rule fresh_store_cs_inv) (simp_all add: short_base_def)
  have st: "cs_storable zero_codec (take 3 ''abc'')"
    by (simp add: cs_storable_def coded_storable_def zero_codec_def zero_compress_def strip_zeros_def
        CHUNK_SIZE_BYTES_def)
  show ?thesis using compressed_store_read_after_write [OF inv _ _ st, of 7 new_buffer 0] by simp
qed

text \<open>
  C35: When the compressor does not fit a chunk into the destination, which LZ4 reports with
  the status 0, \<open>write_chunk\<close> reports OK all the same, after replacing the chunk by an empty
  file; reading it gives INTERNAL_ERROR (an empty source is malformed). The previous content
  of the chunk is gone as well.
\<close>

theorem compressed_write_loses_incompressible_chunk:
  assumes "codec_ok lz4" and "store_bounded s" and "i < 2 ^ 32" and "n \<le> length src"
    and "lz4_compress lz4 (take n src) CHUNK_SIZE_BYTES = (0, out)"
    and "fst (lz4_decompress lz4 [] CHUNK_SIZE_BYTES) < 0"
    and "CHUNK_SIZE_BYTES \<le> length buffer"
  shows "\<exists>s' s'' buffer'. cs_write_chunk lz4 i src n s = Some (OK, s') \<and> store_lookup s' i = Some [] \<and>
    cs_read_chunk lz4 i buffer sz s' = Some (INTERNAL_ERROR, buffer', sz, s'')"
proof -
  have len: "length out \<le> CHUNK_SIZE_BYTES" using assms(1,5) by (auto simp: codec_ok_def)
  obtain s' E where w: "store_write_chunk i (out @ drop (length out) new_buffer) 0 s = Some (OK, s')"
      "store_bounded s'" "store_lookup s' = (store_lookup s |` (- E))(i \<mapsto> [])"
    using chunk_files.write_ok [OF assms(2,3), of 0 "out @ drop (length out) new_buffer"] by auto
  have wr: "cs_write_chunk lz4 i src n s = Some (OK, s')"
    using w(1) assms(4,5) len by (simp add: cs_write_chunk_def compressed_write_def compress_def buf_simps)
  have lk: "store_lookup s' i = Some []" by (simp add: w(3))
  obtain s'' where r: "store_read_chunk i new_buffer 0 s' = Some (OK, new_buffer, 0, s'')"
    using chunk_files.read_ok [OF w(2) lk, of new_buffer 0] by auto
  obtain st d where d: "lz4_decompress lz4 [] CHUNK_SIZE_BYTES = (st, d)" by fastforce
  then have "length d \<le> length buffer" "st < 0"
    using codec_decompress [OF assms(1) d] assms(6,7) by auto
  then have "\<exists>b'. cs_read_chunk lz4 i buffer sz s' = Some (INTERNAL_ERROR, b', sz, s'')"
    using r d by (simp add: cs_read_chunk_def compressed_read_def decompress_def buf_simps)
  then show ?thesis using wr lk by blast
qed

theorem compressed_write_loses_incompressible_chunk_witness:
  "\<exists>s' s'' buffer'.
     cs_write_chunk zero_codec 7 (replicate CHUNK_SIZE_BYTES CHR ''x'') CHUNK_SIZE_BYTES (fresh_store ''/s'' 1 []) =
       Some (OK, s') \<and> store_lookup s' 7 = Some [] \<and>
     cs_read_chunk zero_codec 7 new_buffer 0 s' = Some (INTERNAL_ERROR, buffer', 0, s'')"
proof -
  have b: "store_bounded (fresh_store ''/s'' 1 [])"
    by (rule fresh_store_bounded) (simp_all add: short_base_def)
  have "strip_zeros (replicate CHUNK_SIZE_BYTES CHR ''x'') = replicate CHUNK_SIZE_BYTES CHR ''x''"
    by (simp add: strip_zeros_def CHUNK_SIZE_BYTES_def)
  then have c: "lz4_compress zero_codec (take CHUNK_SIZE_BYTES (replicate CHUNK_SIZE_BYTES CHR ''x''))
      CHUNK_SIZE_BYTES = (0, [])"
    by (simp add: zero_codec_def zero_compress_def)
  have e: "fst (lz4_decompress zero_codec [] CHUNK_SIZE_BYTES) < 0"
    by (simp add: zero_codec_def zero_decompress_def)
  show ?thesis
    using compressed_write_loses_incompressible_chunk [OF zero_codec_ok b _ _ c e, of 7 new_buffer 0] by simp
qed

end
