(* ===== verification/Chunk_Provider.thy ===== *)
theory Chunk_Provider
  imports Compressed_Store
begin

text \<open>
  data/chunk_provider.cc: an in-memory cache of decompressed chunks in front of a
  CompressedStore and an external provider (data/chunk_external_provider.h) that fetches
  missing chunks into the store. Both are parameters: \<open>rd\<close> is \<open>compressedStore.read_chunk\<close>
  and \<open>fetch\<close> is \<open>client.fetch_chunk\<close>, whose contract is the predicate \<open>fetch_ok\<close>. The model
  runs one call at a time, so that the mutexes are free at the beginning and the end of every
  call; the cache entry a call works on is written back to the map where the code shares it.
  The interleavings of several calls are in \<open>Provider_Threads\<close>.
\<close>

subsection \<open>The cache\<close>

record CacheEntry =
  entry_data :: bytes
  entry_len :: nat

record 's provider =
  p_store :: 's
  entries :: "nat \<rightharpoonup> CacheEntry"
  p_collector :: LruCollector

definition provider_new :: "'s \<Rightarrow> nat \<Rightarrow> 's provider" where
  "provider_new st cache_size =
     \<lparr>p_store = st, entries = Map.empty, p_collector = lru_new cache_size\<rparr>"

definition new_entry :: CacheEntry where
  "new_entry = \<lparr>entry_data = new_buffer, entry_len = 0\<rparr>"

definition provider_remove_chunk :: "nat \<Rightarrow> 's provider \<Rightarrow> 's provider" where
  "provider_remove_chunk i p = p\<lparr>entries := (entries p)(i := None)\<rparr>"

text \<open>\<open>collector->update(id)\<close> with the callback that the constructor installed.\<close>

definition provider_touch :: "nat \<Rightarrow> 's provider \<Rightarrow> 's provider option" where
  "provider_touch i p =
     (case lru_update provider_remove_chunk i (p_collector p) p of
        None \<Rightarrow> None
      | Some (c, p') \<Rightarrow> Some (p'\<lparr>p_collector := c\<rparr>))"

text \<open>
  The copy to the caller's buffer, with \<^verbatim>\<open>std::min(len, ce->len - offset)\<close> in 32-bit
  unsigned arithmetic.
\<close>

definition copy_out :: "CacheEntry \<Rightarrow> nat \<Rightarrow> nat \<Rightarrow> bytes \<Rightarrow> (bytes \<times> nat) option" where
  "copy_out e offset len buffer = do {
     let n = min len (wrap 32 (int (entry_len e) - int offset));
     d \<leftarrow> slice (entry_data e) offset n;
     buffer' \<leftarrow> blit buffer 0 d;
     Some (buffer', n)
   }"

text \<open>Loading a chunk into a new entry, from the store or through the external provider.\<close>

definition load_entry ::
    "(nat \<Rightarrow> bytes \<Rightarrow> nat \<Rightarrow> 's \<Rightarrow> (ErrorCode \<times> bytes \<times> nat \<times> 's) option) \<Rightarrow>
     (nat \<Rightarrow> 's \<Rightarrow> (ErrorCode \<times> 's) option) \<Rightarrow> nat \<Rightarrow> 's \<Rightarrow> (ErrorCode \<times> CacheEntry \<times> 's) option" where
  "load_entry rd fetch i st = do {
     (err, d, l, st') \<leftarrow> rd i (entry_data new_entry) (entry_len new_entry) st;
     if err = NOT_FOUND then do {
       (err', st'') \<leftarrow> fetch i st';
       if err' = OK then do {
         (err'', d', l', st''') \<leftarrow> rd i d l st'';
         Some (err'', \<lparr>entry_data = d', entry_len = l'\<rparr>, st''')
       }
       else Some (err', \<lparr>entry_data = d, entry_len = l\<rparr>, st'')
     }
     else Some (err, \<lparr>entry_data = d, entry_len = l\<rparr>, st')
   }"

definition provider_read_chunk ::
    "(nat \<Rightarrow> bytes \<Rightarrow> nat \<Rightarrow> 's \<Rightarrow> (ErrorCode \<times> bytes \<times> nat \<times> 's) option) \<Rightarrow>
     (nat \<Rightarrow> 's \<Rightarrow> (ErrorCode \<times> 's) option) \<Rightarrow>
     nat \<Rightarrow> bytes \<Rightarrow> nat \<Rightarrow> nat \<Rightarrow> nat \<Rightarrow> 's provider \<Rightarrow> (ErrorCode \<times> bytes \<times> nat \<times> 's provider) option" where
  "provider_read_chunk rd fetch i buffer offset len read_size p =
     (let load = (do {
            (err, e, st) \<leftarrow> load_entry rd fetch i (p_store p);
            if err = OK then do {
              (buffer', n) \<leftarrow> copy_out e offset len buffer;
              p' \<leftarrow> provider_touch i (p\<lparr>p_store := st, entries := (entries p)(i \<mapsto> e)\<rparr>);
              Some (OK, buffer', n, p')
            }
            else Some (err, buffer, read_size, p\<lparr>p_store := st, entries := (entries p)(i := None)\<rparr>)
          })
      in if wrap 32 (int offset + int len) > CHUNK_SIZE_BYTES then Some (INTERNAL_ERROR, buffer, read_size, p)
         else case entries p i of
                None \<Rightarrow> load
              | Some e \<Rightarrow>
                  if entry_len e > 0 then do {
                    p' \<leftarrow> provider_touch i p;
                    (buffer', n) \<leftarrow> copy_out e offset len buffer;
                    Some (OK, buffer', n, p')
                  }
                  else load)"

subsection \<open>The contract of the external provider, and the invariant\<close>

text \<open>
  \<open>T\<close> is the volume as it was published, chunk by chunk. A store is faithful to it when every
  chunk it holds is the chunk of \<open>T\<close>. A fetch keeps the store faithful, and when it reports
  OK the chunk is in the store.
\<close>

definition faithful :: "(nat \<rightharpoonup> bytes) \<Rightarrow> ('s \<Rightarrow> nat \<rightharpoonup> bytes) \<Rightarrow> ('s \<Rightarrow> bool) \<Rightarrow> 's \<Rightarrow> bool" where
  "faithful T lk good s \<longleftrightarrow> good s \<and> lk s \<subseteq>\<^sub>m T"

definition fetch_ok ::
    "(nat \<rightharpoonup> bytes) \<Rightarrow> ('s \<Rightarrow> nat \<rightharpoonup> bytes) \<Rightarrow> ('s \<Rightarrow> bool) \<Rightarrow> (nat \<Rightarrow> 's \<Rightarrow> (ErrorCode \<times> 's) option) \<Rightarrow> bool"
    where
  "fetch_ok T lk good fetch \<longleftrightarrow>
     (\<forall>i < 2 ^ 32. \<forall>s. faithful T lk good s \<longrightarrow>
        (\<exists>err s'. fetch i s = Some (err, s') \<and> faithful T lk good s' \<and> (err = OK \<longrightarrow> lk s' i \<noteq> None)))"

text \<open>A chunk that is fetched whenever it is asked for.\<close>

definition fetch_sure ::
    "(nat \<rightharpoonup> bytes) \<Rightarrow> ('s \<Rightarrow> nat \<rightharpoonup> bytes) \<Rightarrow> ('s \<Rightarrow> bool) \<Rightarrow> (nat \<Rightarrow> 's \<Rightarrow> (ErrorCode \<times> 's) option) \<Rightarrow> nat \<Rightarrow> bool"
    where
  "fetch_sure T lk good fetch i \<longleftrightarrow> (\<forall>s. faithful T lk good s \<longrightarrow> (\<exists>s'. fetch i s = Some (OK, s')))"

definition entry_ok :: "(nat \<rightharpoonup> bytes) \<Rightarrow> nat \<Rightarrow> CacheEntry \<Rightarrow> bool" where
  "entry_ok T i e \<longleftrightarrow> length (entry_data e) = CHUNK_SIZE_BYTES \<and>
     (\<exists>d. T i = Some d \<and> entry_len e = length d \<and> length d \<le> CHUNK_SIZE_BYTES \<and>
        take (length d) (entry_data e) = d)"

definition provider_inv ::
    "(nat \<rightharpoonup> bytes) \<Rightarrow> ('s \<Rightarrow> nat \<rightharpoonup> bytes) \<Rightarrow> ('s \<Rightarrow> bool) \<Rightarrow> 's provider \<Rightarrow> bool" where
  "provider_inv T lk good p \<longleftrightarrow>
     faithful T lk good (p_store p) \<and> lru_inv (p_collector p) \<and> 0 < lru_size (p_collector p) \<and>
     dom (entries p) \<subseteq> set (lru_ids (p_collector p)) \<and>
     (\<forall>i e. entries p i = Some e \<longrightarrow> entry_ok T i e)"

lemma provider_invI:
  assumes "faithful T lk good (p_store p)" and "lru_inv (p_collector p)" and "0 < lru_size (p_collector p)"
    and "dom (entries p) \<subseteq> set (lru_ids (p_collector p))" and "entries p \<subseteq>\<^sub>m m"
    and "\<And>j e. m j = Some e \<Longrightarrow> entry_ok T j e"
  shows "provider_inv T lk good p"
proof -
  have "entry_ok T j e" if "entries p j = Some e" for j e
    using that assms(5) by (intro assms(6)) (metis domI map_le_def)
  then show ?thesis using assms(1-4) by (simp add: provider_inv_def)
qed

lemma provider_touch_ok:
  assumes lru: "lru_inv (p_collector p)" "0 < lru_size (p_collector p)"
    and dom: "dom (entries p) \<subseteq> insert i (set (lru_ids (p_collector p)))"
  obtains p' where "provider_touch i p = Some p'" and "p_store p' = p_store p"
    and "entries p' \<subseteq>\<^sub>m entries p" and "entries p' i = entries p i"
    and "lru_inv (p_collector p')" and "lru_size (p_collector p') = lru_size (p_collector p)"
    and "dom (entries p') \<subseteq> set (lru_ids (p_collector p'))"
proof -
  have keys: "dom (entries (provider_remove_chunk l p)) = dom (entries p) - {l}" for l
    by (auto simp: provider_remove_chunk_def)
  obtain c p' where u: "lru_update provider_remove_chunk i (p_collector p) p = Some (c, p')"
    and c: "lru_inv c" "lru_size c = lru_size (p_collector p)" "dom (entries p') \<subseteq> set (lru_ids c)"
    and p': "p' = p \<or> (\<exists>l. p' = provider_remove_chunk l p \<and> l \<noteq> i)"
    using lru.update_client [OF lru, where keys = "\<lambda>p. dom (entries p)" and w = p and i = i
        and remover = provider_remove_chunk, OF keys dom] by blast
  have "p_store p' = p_store p \<and> entries p' \<subseteq>\<^sub>m entries p \<and> entries p' i = entries p i"
    using p' by (auto simp: provider_remove_chunk_def map_le_def split: if_splits)
  then show thesis
    using u c by (intro that [of "p'\<lparr>p_collector := c\<rparr>"]) (simp_all add: provider_touch_def)
qed

text \<open>What a copy gives: inside the chunk its bytes, and past its end as many bytes as asked for.\<close>

lemma copy_out_ok:
  assumes e: "entry_ok T i e" "T i = Some d" and len: "offset + len \<le> CHUNK_SIZE_BYTES" "len \<le> length buffer"
  shows "\<exists>buffer' n. copy_out e offset len buffer = Some (buffer', n) \<and> length buffer' = length buffer \<and>
    n = (if offset \<le> length d then min len (length d - offset) else len) \<and>
    (offset \<le> length d \<longrightarrow> buffer' = take n (drop offset d) @ drop n buffer) \<and>
    buffer' = take n (drop offset (entry_data e)) @ drop n buffer"
proof -
  have dat: "length (entry_data e) = CHUNK_SIZE_BYTES" "entry_len e = length d" "length d \<le> CHUNK_SIZE_BYTES"
      "take (length d) (entry_data e) = d"
    using e by (auto simp: entry_ok_def)
  have C: "CHUNK_SIZE_BYTES < 2 ^ 31" by (simp add: CHUNK_SIZE_BYTES_def)
  define n where "n = min len (wrap 32 (int (entry_len e) - int offset))"
  have n: "n = (if offset \<le> length d then min len (length d - offset) else len)"
  proof (cases "offset \<le> length d")
    case True
    then have "wrap 32 (int (length d) - int offset) = length d - offset"
      using dat(3) C by (intro wrap_diff) auto
    then show ?thesis using True by (simp add: n_def dat(2))
  next
    case False
    then have "wrap 32 (int (length d) - int offset) = nat (int (length d) - int offset + 2 ^ 32)"
      using C len(1) by (intro wrap_negative) auto
    then have "len \<le> wrap 32 (int (length d) - int offset)"
      using C len(1) by simp
    then show ?thesis using False by (simp add: n_def dat(2))
  qed
  have le: "n \<le> len" by (simp add: n_def)
  have s: "slice (entry_data e) offset n = Some (take n (drop offset (entry_data e)))"
    using le len(1) dat(1) by (intro slice_Some) simp
  have l: "length (take n (drop offset (entry_data e))) = n" using le len(1) dat(1) by simp
  have b: "blit buffer 0 (take n (drop offset (entry_data e))) =
      Some (take n (drop offset (entry_data e)) @ drop n buffer)"
    using blit_Some [of 0 "take n (drop offset (entry_data e))" buffer] le len(2) l by simp
  have "copy_out e offset len buffer = Some (take n (drop offset (entry_data e)) @ drop n buffer, n)"
    by (simp add: copy_out_def n_def [symmetric] s b)
  moreover have "take n (drop offset (entry_data e)) = take n (drop offset d)" if "offset \<le> length d"
  proof -
    have "take n (drop offset d) = take n (drop offset (take (length d) (entry_data e)))" by (simp only: dat(4))
    also have "\<dots> = take (min n (length d - offset)) (drop offset (entry_data e))"
      by (simp add: drop_take)
    also have "min n (length d - offset) = n" using that n by simp
    finally show ?thesis ..
  qed
  ultimately show ?thesis using n l le len(2) by auto
qed

subsection \<open>Correctness over any chunk map\<close>

text \<open>The outcome of a read of \<open>len\<close> bytes at \<open>offset\<close> of chunk \<open>i\<close>.\<close>

definition read_result ::
    "(nat \<rightharpoonup> bytes) \<Rightarrow> nat \<Rightarrow> bytes \<Rightarrow> nat \<Rightarrow> nat \<Rightarrow> nat \<Rightarrow> ErrorCode \<Rightarrow> bytes \<Rightarrow> nat \<Rightarrow> bool" where
  "read_result T i buffer offset len junk err buffer' n \<longleftrightarrow>
     length buffer' = length buffer \<and>
     (if err = OK then \<exists>d. T i = Some d \<and>
        n = (if offset \<le> length d then min len (length d - offset) else len) \<and>
        (offset \<le> length d \<longrightarrow> buffer' = take n (drop offset d) @ drop n buffer)
      else buffer' = buffer \<and> n = junk)"

context chunk_map
begin

lemma entry_after_read:
  assumes s: "faithful T lookup inv st" and d: "lookup st i = Some d" and l: "length buf = CHUNK_SIZE_BYTES"
  shows "\<exists>st'. rd i buf sz st = Some (OK, d @ drop (length d) buf, length d, st') \<and>
    faithful T lookup inv st' \<and> lookup st' = lookup st \<and>
    entry_ok T i \<lparr>entry_data = d @ drop (length d) buf, entry_len = length d\<rparr>"
proof -
  have inv: "inv st" and T: "T i = Some d" using s d by (auto simp: faithful_def map_le_def dom_def)
  have len: "length d \<le> CHUNK_SIZE_BYTES" by (rule lookup_length [OF inv d])
  obtain st' where r: "rd i buf sz st = Some (OK, d @ drop (length d) buf, length d, st')" "inv st'"
      "lookup st' = lookup st"
    using read_ok [OF inv d, of buf sz] l by auto
  moreover have "faithful T lookup inv st'" using s r(2,3) by (simp add: faithful_def)
  ultimately show ?thesis using T len l by (auto simp: entry_ok_def)
qed

lemma load_entry_ok:
  assumes s: "faithful T lookup inv st" and f: "fetch_ok T lookup inv fetch" and i: "i < 2 ^ 32"
  shows "\<exists>err e st'. load_entry rd fetch i st = Some (err, e, st') \<and> faithful T lookup inv st' \<and>
    (err = OK \<longrightarrow> entry_ok T i e) \<and> (lookup st i \<noteq> None \<longrightarrow> err = OK \<and> lookup st' = lookup st) \<and>
    (fetch_sure T lookup inv fetch i \<longrightarrow> err = OK)"
proof (cases "lookup st i")
  case (Some d)
  from entry_after_read [OF s Some, of new_buffer 0] show ?thesis
    using Some by (auto simp: load_entry_def new_entry_def)
next
  case None
  have "inv st" using s by (simp add: faithful_def)
  from read_missing [OF this i None, of new_buffer 0] obtain st1 where
    r: "rd i new_buffer 0 st = Some (NOT_FOUND, new_buffer, 0, st1)" "inv st1" "lookup st1 = lookup st" by auto
  then have "faithful T lookup inv st1" using s by (simp add: faithful_def)
  then obtain err st2 where ft: "fetch i st1 = Some (err, st2)" "faithful T lookup inv st2"
      "err = OK \<longrightarrow> lookup st2 i \<noteq> None"
    using f i unfolding fetch_ok_def by blast
  have sure: "fetch_sure T lookup inv fetch i \<longrightarrow> err = OK"
    using \<open>faithful T lookup inv st1\<close> ft(1) by (auto simp: fetch_sure_def)
  show ?thesis
  proof (cases "err = OK")
    case True
    then obtain d where d: "lookup st2 i = Some d" using ft(3) by auto
    from entry_after_read [OF ft(2) this, of new_buffer 0] show ?thesis
      using None r(1) ft(1) True by (auto simp: load_entry_def new_entry_def)
  next
    case False
    then show ?thesis using None r(1) ft sure by (simp add: load_entry_def new_entry_def)
  qed
qed

lemma provider_read_ok:
  assumes p: "provider_inv T lookup inv p" and f: "fetch_ok T lookup inv fetch" and i: "i < 2 ^ 32"
    and len: "offset + len \<le> CHUNK_SIZE_BYTES" "len \<le> length buffer"
  shows "\<exists>err buffer' n p'. provider_read_chunk rd fetch i buffer offset len junk p = Some (err, buffer', n, p') \<and>
    provider_inv T lookup inv p' \<and> lru_size (p_collector p') = lru_size (p_collector p) \<and>
    read_result T i buffer offset len junk err buffer' n \<and>
    (lookup (p_store p) i \<noteq> None \<longrightarrow> err = OK \<and> lookup (p_store p') = lookup (p_store p)) \<and>
    (fetch_sure T lookup inv fetch i \<longrightarrow> err = OK)"
proof -
  have lru: "lru_inv (p_collector p)" "0 < lru_size (p_collector p)"
    and dom: "dom (entries p) \<subseteq> set (lru_ids (p_collector p))"
    and s: "faithful T lookup inv (p_store p)" and es: "\<And>j e. entries p j = Some e \<Longrightarrow> entry_ok T j e"
    using p by (auto simp: provider_inv_def)
  have guard: "\<not> wrap 32 (int offset + int len) > CHUNK_SIZE_BYTES"
    using wrap_add [of offset len 32] len(1) chunk_size_lt_32 by simp
  show ?thesis
  proof (cases "\<exists>e. entries p i = Some e \<and> 0 < entry_len e")
    case True
    then obtain e where e: "entries p i = Some e" "0 < entry_len e" by blast
    obtain d where d: "T i = Some d" using es [OF e(1)] by (auto simp: entry_ok_def)
    have "dom (entries p) \<subseteq> insert i (set (lru_ids (p_collector p)))" using dom by auto
    note dom' = this
    obtain p' where
      t: "provider_touch i p = Some p'" "p_store p' = p_store p" "entries p' \<subseteq>\<^sub>m entries p"
        "entries p' i = entries p i" "lru_inv (p_collector p')" "lru_size (p_collector p') = lru_size (p_collector p)"
        "dom (entries p') \<subseteq> set (lru_ids (p_collector p'))"
      by (rule provider_touch_ok [OF lru dom'])
    obtain buffer' n where c: "copy_out e offset len buffer = Some (buffer', n)"
        "length buffer' = length buffer" "n = (if offset \<le> length d then min len (length d - offset) else len)"
        "offset \<le> length d \<longrightarrow> buffer' = take n (drop offset d) @ drop n buffer"
      using copy_out_ok [OF es [OF e(1)] d len] by blast
    have "provider_inv T lookup inv p'"
      by (rule provider_invI [OF _ t(5) _ t(7,3) es]) (simp_all add: t(2,6) s lru(2))
    moreover have "read_result T i buffer offset len junk OK buffer' n"
      using d c(2-4) by (auto simp: read_result_def)
    moreover have "provider_read_chunk rd fetch i buffer offset len junk p = Some (OK, buffer', n, p')"
      using guard e t(1) c(1) by (simp add: provider_read_chunk_def)
    ultimately show ?thesis using t(2,6) by auto
  next
    case False
    obtain err e st where l: "load_entry rd fetch i (p_store p) = Some (err, e, st)" "faithful T lookup inv st"
        "err = OK \<longrightarrow> entry_ok T i e"
        "lookup (p_store p) i \<noteq> None \<longrightarrow> err = OK \<and> lookup st = lookup (p_store p)"
        "fetch_sure T lookup inv fetch i \<longrightarrow> err = OK"
      using load_entry_ok [OF s f i] by blast
    let ?p1 = "p\<lparr>p_store := st, entries := (entries p)(i \<mapsto> e)\<rparr>"
    have step: "provider_read_chunk rd fetch i buffer offset len junk p =
        (if err = OK then do {
           (buffer', n) \<leftarrow> copy_out e offset len buffer;
           p' \<leftarrow> provider_touch i ?p1;
           Some (OK, buffer', n, p')
         }
         else Some (err, buffer, junk, p\<lparr>p_store := st, entries := (entries p)(i := None)\<rparr>))"
    proof (cases "entries p i")
      case None
      then show ?thesis unfolding provider_read_chunk_def Let_def if_not_P [OF guard] l(1) by simp
    next
      case (Some e')
      then have "\<not> 0 < entry_len e'" using False by simp
      then show ?thesis unfolding provider_read_chunk_def Let_def if_not_P [OF guard] l(1) Some option.case by simp
    qed
    show ?thesis
    proof (cases "err = OK")
      case True
      then have e: "entry_ok T i e" using l(3) by simp
      then obtain d where d: "T i = Some d" by (auto simp: entry_ok_def)
      have "lru_inv (p_collector ?p1)" "0 < lru_size (p_collector ?p1)"
        "dom (entries ?p1) \<subseteq> insert i (set (lru_ids (p_collector ?p1)))"
        using lru dom by auto
      from provider_touch_ok [OF this] obtain p' where
        t: "provider_touch i ?p1 = Some p'" "p_store p' = st" "entries p' \<subseteq>\<^sub>m (entries p)(i \<mapsto> e)"
          "lru_inv (p_collector p')" "lru_size (p_collector p') = lru_size (p_collector p)"
          "dom (entries p') \<subseteq> set (lru_ids (p_collector p'))" by auto
      obtain buffer' n where c: "copy_out e offset len buffer = Some (buffer', n)"
          "length buffer' = length buffer" "n = (if offset \<le> length d then min len (length d - offset) else len)"
          "offset \<le> length d \<longrightarrow> buffer' = take n (drop offset d) @ drop n buffer"
        using copy_out_ok [OF e d len] by blast
      have "entry_ok T j e'" if "((entries p)(i \<mapsto> e)) j = Some e'" for j e'
        using that e es by (auto split: if_splits)
      then have "provider_inv T lookup inv p'"
        by (intro provider_invI [OF _ t(4) _ t(6,3)]) (simp_all add: t(2,5) l(2) lru(2))
      moreover have "read_result T i buffer offset len junk OK buffer' n"
        using d c(2-4) by (auto simp: read_result_def)
      ultimately show ?thesis using True step c(1) t(1,2,5) l(4) by auto
    next
      case err: False
      then have "provider_inv T lookup inv (p\<lparr>p_store := st, entries := (entries p)(i := None)\<rparr>)"
        using p l(2) by (auto simp: provider_inv_def split: if_splits)
      then show ?thesis using err step l(4,5) by (auto simp: read_result_def)
    qed
  qed
qed

text \<open>
  A provider that has the volume at hand and writes the chunks it is asked for into the store
  meets the contract.
\<close>

lemma copying_fetch_ok:
  assumes T: "\<And>i d. T i = Some d \<Longrightarrow> storable d"
  shows "fetch_ok T lookup inv
    (\<lambda>i s. case T i of None \<Rightarrow> Some (NOT_FOUND, s) | Some d \<Rightarrow> wr i d (length d) s)"
  unfolding fetch_ok_def
proof (intro allI impI)
  fix i :: nat and s
  assume i: "i < 2 ^ 32" and s: "faithful T lookup inv s"
  show "\<exists>err s'. (case T i of None \<Rightarrow> Some (NOT_FOUND, s) | Some d \<Rightarrow> wr i d (length d) s) = Some (err, s') \<and>
      faithful T lookup inv s' \<and> (err = OK \<longrightarrow> lookup s' i \<noteq> None)"
  proof (cases "T i")
    case None
    then show ?thesis using s by simp
  next
    case (Some d)
    have "inv s" "length d \<le> length d" "storable (take (length d) d)" using s T [OF Some] by (auto simp: faithful_def)
    from write_ok [OF this(1) i this(2,3)] obtain s' E where
      w: "wr i d (length d) s = Some (OK, s')" "inv s'" "lookup s' = (lookup s |` (- E))(i \<mapsto> d)"
      unfolding take_all [OF order_refl] by blast
    have "lookup s' \<subseteq>\<^sub>m T"
      using s Some unfolding w(3) faithful_def map_le_def by (auto simp: restrict_map_def split: if_splits)
    then show ?thesis using Some w by (auto simp: faithful_def)
  qed
qed

end

subsection \<open>The provider over a CompressedStore\<close>

abbreviation cs_provider_inv :: "codec \<Rightarrow> (nat \<rightharpoonup> bytes) \<Rightarrow> chunk_store provider \<Rightarrow> bool" where
  "cs_provider_inv lz4 T \<equiv> provider_inv T (cs_lookup lz4) (cs_inv lz4)"

abbreviation cs_fetch_ok ::
    "codec \<Rightarrow> (nat \<rightharpoonup> bytes) \<Rightarrow> (nat \<Rightarrow> chunk_store \<Rightarrow> (ErrorCode \<times> chunk_store) option) \<Rightarrow> bool" where
  "cs_fetch_ok lz4 T \<equiv> fetch_ok T (cs_lookup lz4) (cs_inv lz4)"

lemma provider_new_inv:
  assumes "cs_inv lz4 s" "cs_lookup lz4 s \<subseteq>\<^sub>m T" "0 < sz"
  shows "cs_provider_inv lz4 T (provider_new s sz)"
  using assms by (simp add: provider_inv_def provider_new_def faithful_def)

lemma provider_cache_bound:
  assumes "provider_inv T lk good p"
  shows "card (dom (entries p)) \<le> lru_size (p_collector p)"
  using assms lru.keys_bounded(2) [of "p_collector p" "dom (entries p)"] by (simp add: provider_inv_def)

text \<open>An external provider for examples: it has one small chunk.\<close>

definition example_volume :: "nat \<rightharpoonup> bytes" where
  "example_volume = [3 \<mapsto> ''abc'']"

definition example_fetch :: "nat \<Rightarrow> chunk_store \<Rightarrow> (ErrorCode \<times> chunk_store) option" where
  "example_fetch i s =
     (case example_volume i of None \<Rightarrow> Some (NOT_FOUND, s)
      | Some d \<Rightarrow> cs_write_chunk zero_codec i d (length d) s)"

lemma example_fetch_ok: "cs_fetch_ok zero_codec example_volume example_fetch"
proof -
  have "cs_storable zero_codec ''abc''"
    by (simp add: cs_storable_def coded_storable_def zero_codec_def zero_compress_def strip_zeros_def
        CHUNK_SIZE_BYTES_def)
  then have "example_volume i = Some d \<Longrightarrow> cs_storable zero_codec d" for i d
    by (auto simp: example_volume_def split: if_splits)
  from compressed_files.copying_fetch_ok [OF this] show ?thesis
    by (simp add: example_fetch_def [abs_def])
qed

lemma example_provider_inv:
  "cs_provider_inv zero_codec example_volume (provider_new (fresh_store ''/s'' 4 []) 2)"
  by (rule provider_new_inv [OF fresh_store_cs_inv])
    (simp_all add: short_base_def)

subsection \<open>Properties\<close>

text \<open>
  A read through the cache gives the bytes of the published chunk, whether it comes from
  the cache, from the compressed store or over the network: with the result OK the buffer
  holds the requested part of the chunk and the size is that part's; with an error buffer and
  size are unchanged. The cache stays coherent with the volume and within its size. A chunk
  that is in the store is always read successfully.
\<close>

theorem provider_read_returns_volume:
  assumes "cs_provider_inv lz4 T p" and "cs_fetch_ok lz4 T fetch" and "i < 2 ^ 32"
    and "offset + len \<le> CHUNK_SIZE_BYTES" and "len \<le> length buffer"
  shows "\<exists>err buffer' n p'.
    provider_read_chunk (cs_read_chunk lz4) fetch i buffer offset len junk p = Some (err, buffer', n, p') \<and>
    cs_provider_inv lz4 T p' \<and> card (dom (entries p')) \<le> lru_size (p_collector p) \<and>
    read_result T i buffer offset len junk err buffer' n \<and>
    (cs_lookup lz4 (p_store p) i \<noteq> None \<longrightarrow> err = OK)"
proof -
  obtain err buffer' n p' where
    "provider_read_chunk (cs_read_chunk lz4) fetch i buffer offset len junk p = Some (err, buffer', n, p')"
    "cs_provider_inv lz4 T p'" "lru_size (p_collector p') = lru_size (p_collector p)"
    "read_result T i buffer offset len junk err buffer' n"
    "cs_lookup lz4 (p_store p) i \<noteq> None \<longrightarrow> err = OK"
    using compressed_files.provider_read_ok [OF assms, of junk] by blast
  then show ?thesis using provider_cache_bound by fastforce
qed

theorem provider_read_returns_volume_witness:
  "\<exists>s p'. example_fetch 3 (fresh_store ''/s'' 4 []) = Some (OK, s) \<and>
     provider_read_chunk (cs_read_chunk zero_codec) example_fetch 3 ''......'' 1 2 99 (provider_new s 2) =
       Some (OK, ''bc....'', 2, p')"
proof -
  have l: "1 + 2 \<le> CHUNK_SIZE_BYTES" by (simp add: CHUNK_SIZE_BYTES_def)
  have inv: "cs_inv zero_codec (fresh_store ''/s'' 4 [])"
    by (rule fresh_store_cs_inv) (simp_all add: short_base_def)
  have st: "cs_storable zero_codec (take 3 ''abc'')"
    by (simp add: cs_storable_def coded_storable_def zero_codec_def zero_compress_def strip_zeros_def
        CHUNK_SIZE_BYTES_def)
  obtain s E where s: "cs_write_chunk zero_codec 3 ''abc'' 3 (fresh_store ''/s'' 4 []) = Some (OK, s)"
      "cs_inv zero_codec s" "cs_lookup zero_codec s = (Map.empty |` (- E))(3 \<mapsto> take 3 ''abc'')"
    using compressed_files.write_ok [OF inv _ _ st, of 3] by auto
  have "cs_lookup zero_codec s \<subseteq>\<^sub>m example_volume"
    unfolding s(3) example_volume_def by (auto simp: map_le_def restrict_map_def split: if_splits)
  then have p: "cs_provider_inv zero_codec example_volume (provider_new s 2)"
    by (rule provider_new_inv [OF s(2)]) simp
  have f: "example_fetch 3 (fresh_store ''/s'' 4 []) = Some (OK, s)"
    using s(1) by (simp add: example_fetch_def example_volume_def numeral_3_eq_3)
  have "p_store (provider_new s 2) = s" by (simp add: provider_new_def)
  with f show ?thesis
    using provider_read_returns_volume [OF p example_fetch_ok, of 3 1 2 "''......''" 99] l s(3)
    by (force simp: read_result_def example_volume_def)
qed

text \<open>
  When the offset lies behind the end of a cached chunk, the unsigned difference
  \<open>ce->len - offset\<close> wraps: the call reports OK and the full length, and copies bytes of the
  cache buffer that were never part of the chunk.
\<close>

theorem provider_reads_past_chunk_end:
  assumes "cs_provider_inv lz4 T p" and "entries p i = Some e" and "0 < entry_len e"
    and "entry_len e < offset" and "offset + len \<le> CHUNK_SIZE_BYTES" and "len \<le> length buffer"
  shows "\<exists>p'. provider_read_chunk (cs_read_chunk lz4) fetch i buffer offset len junk p =
    Some (OK, take len (drop offset (entry_data e)) @ drop len buffer, len, p')"
proof -
  have lru: "lru_inv (p_collector p)" "0 < lru_size (p_collector p)"
    and dom: "dom (entries p) \<subseteq> insert i (set (lru_ids (p_collector p)))" and e: "entry_ok T i e"
    using assms(1,2) by (auto simp: provider_inv_def)
  obtain p' where t: "provider_touch i p = Some p'" by (rule provider_touch_ok [OF lru dom])
  obtain d where d: "T i = Some d" "entry_len e = length d" using e by (auto simp: entry_ok_def)
  have "\<not> offset \<le> length d" using assms(4) d(2) by simp
  then have c: "copy_out e offset len buffer =
      Some (take len (drop offset (entry_data e)) @ drop len buffer, len)"
    using copy_out_ok [OF e d(1) assms(5,6)] by auto
  moreover have "\<not> wrap 32 (int offset + int len) > CHUNK_SIZE_BYTES"
    using wrap_add [of offset len 32] assms(5) chunk_size_lt_32 by simp
  ultimately show ?thesis using assms(2,3) t c by (simp add: provider_read_chunk_def)
qed

lemma small_entry_inv:
  "cs_provider_inv zero_codec example_volume
     \<lparr>p_store = fresh_store ''/s'' 4 [], entries = [3 \<mapsto> \<lparr>entry_data = ''abc'' @ drop 3 new_buffer, entry_len = 3\<rparr>],
      p_collector = push_front 3 (lru_new 2)\<rparr>"
proof -
  have i: "lru_inv (push_front 3 (lru_new 2))"
    by (rule lru_inv_push_front) (simp, simp, simp add: lru_new_def)
  have f: "faithful example_volume (cs_lookup zero_codec) (cs_inv zero_codec) (fresh_store ''/s'' 4 [])"
    using example_provider_inv by (simp add: provider_inv_def provider_new_def)
  have e: "entry_ok example_volume 3 \<lparr>entry_data = ''abc'' @ drop 3 new_buffer, entry_len = 3\<rparr>"
    by (simp add: entry_ok_def example_volume_def) (simp add: CHUNK_SIZE_BYTES_def)
  show ?thesis using i f e by (simp add: provider_inv_def)
qed

theorem provider_reads_past_chunk_end_witness:
  "\<exists>p'. provider_read_chunk (cs_read_chunk zero_codec) example_fetch 3 ''......'' 10 2 99
     \<lparr>p_store = fresh_store ''/s'' 4 [], entries = [3 \<mapsto> \<lparr>entry_data = ''abc'' @ drop 3 new_buffer, entry_len = 3\<rparr>],
      p_collector = push_front 3 (lru_new 2)\<rparr> =
     Some (OK, take 2 (drop 10 (''abc'' @ drop 3 new_buffer)) @ ''....'', 2, p')"
proof -
  have l: "10 + 2 \<le> CHUNK_SIZE_BYTES" by (simp add: CHUNK_SIZE_BYTES_def)
  show ?thesis
    using provider_reads_past_chunk_end [OF small_entry_inv, where i = 3 and offset = 10 and len = 2
        and buffer = "''......''" and junk = 99 and fetch = example_fetch] l by simp
qed

text \<open>
  The guard \<open>offset + len > CHUNK_SIZE_BYTES\<close> is computed with 32 bits: an offset behind
  the chunk with a length that makes the sum wrap passes it, and the copy from the cached
  chunk is then out of bounds.
\<close>

theorem provider_guard_wraps:
  assumes "cs_provider_inv lz4 T p" and "entries p i = Some e" and "0 < entry_len e"
    and "CHUNK_SIZE_BYTES < offset" and "offset < 2 ^ 32" and "len < 2 ^ 32"
    and "2 ^ 32 \<le> offset + len" and "offset + len \<le> 2 ^ 32 + CHUNK_SIZE_BYTES"
  shows "provider_read_chunk (cs_read_chunk lz4) fetch i buffer offset len junk p = None"
proof -
  have e: "length (entry_data e) = CHUNK_SIZE_BYTES" "entry_len e \<le> CHUNK_SIZE_BYTES"
    using assms(1,2) by (auto simp: provider_inv_def entry_ok_def dest!: spec [of _ i])
  have "(int offset + int len) mod 2 ^ 32 = (int offset + int len - 2 ^ 32) mod 2 ^ 32" by simp
  also have "\<dots> = int offset + int len - 2 ^ 32"
    using assms(7,8) chunk_size_lt_32 by (intro mod_pos_pos_trivial) auto
  finally have guard: "\<not> wrap 32 (int offset + int len) > CHUNK_SIZE_BYTES"
    using assms(8) by (simp add: wrap_def)
  have "wrap 32 (int (entry_len e) - int offset) = nat (int (entry_len e) - int offset + 2 ^ 32)"
    using assms(4,5) e(2) by (intro wrap_negative) auto
  then have "0 < min len (wrap 32 (int (entry_len e) - int offset))"
    using assms(3,5,7) by auto
  then have "copy_out e offset len buffer = None"
    using assms(4) e(1) by (simp add: copy_out_def slice_def)
  then show ?thesis
    using guard assms(2,3) by (simp add: provider_read_chunk_def bind_eq_None_conv)
qed

theorem provider_guard_wraps_witness:
  "provider_read_chunk (cs_read_chunk zero_codec) example_fetch 3 ''......'' (2 ^ 32 - 1) 2 99
     \<lparr>p_store = fresh_store ''/s'' 4 [], entries = [3 \<mapsto> \<lparr>entry_data = ''abc'' @ drop 3 new_buffer, entry_len = 3\<rparr>],
      p_collector = push_front 3 (lru_new 2)\<rparr> = None"
proof -
  have l: "CHUNK_SIZE_BYTES < 2 ^ 32 - 1" "(2 ^ 32 - 1) + 2 \<le> 2 ^ 32 + CHUNK_SIZE_BYTES"
    by (simp_all add: CHUNK_SIZE_BYTES_def)
  show ?thesis
    by (rule provider_guard_wraps [OF small_entry_inv, where e = "\<lparr>entry_data = ''abc'' @ drop 3 new_buffer, entry_len = 3\<rparr>"])
      (use l in simp_all)
qed

end
