(* ===== verification/Data_Provider.thy ===== *)
theory Data_Provider
  imports Chunk_Provider
begin

text \<open>
  data/data_provider.cc: reading a range of the volume, chunk by chunk, through a
  ChunkProvider. The reader of a part of a chunk is a parameter (\<open>read_chunk\<close>), and what is
  relied on of it is the interface \<open>chunk_reader\<close>, which the ChunkProvider provides.
\<close>

subsection \<open>The operation\<close>

text \<open>
  The loop of \<^verbatim>\<open>DataProvider::read\<close>. \<open>start\<close> is the volume offset in the first round, where
  \<^verbatim>\<open>of\<close> is its remainder, and 0 in the later ones; \<open>dest\<close> is where the pointer \<open>buffer\<close>
  stands in the caller's buffer \<open>buf\<close>; \<open>junk i\<close> is what the uninitialised \<open>read_size\<close> holds
  before the read of chunk \<open>i\<close>.
\<close>

function dp_loop ::
    "(nat \<Rightarrow> bytes \<Rightarrow> nat \<Rightarrow> nat \<Rightarrow> nat \<Rightarrow> 'p \<Rightarrow> (ErrorCode \<times> bytes \<times> nat \<times> 'p) option) \<Rightarrow> (nat \<Rightarrow> nat) \<Rightarrow>
     nat \<Rightarrow> nat \<Rightarrow> bytes \<Rightarrow> nat \<Rightarrow> nat \<Rightarrow> 'p \<Rightarrow> (ErrorCode \<times> bytes \<times> 'p) option" where
  "dp_loop read_chunk junk i start buf dest remaining p =
     (if remaining > 0 then
        let ofs = start mod CHUNK_SIZE_BYTES;
            len = min remaining (CHUNK_SIZE_BYTES - ofs)
        in case read_chunk i (drop dest buf) ofs len (junk i) p of
             None \<Rightarrow> None
           | Some (err, rest, read_size, p') \<Rightarrow>
               let buf' = take dest buf @ rest
               in if read_size \<noteq> len then Some (INTERNAL_ERROR, buf', p')
                  else if err \<noteq> OK then Some (err, buf', p')
                  else dp_loop read_chunk junk (wrap 32 (int i + 1)) 0 buf' (dest + len) (remaining - len) p'
      else Some (OK, buf, p))"
  by pat_completeness auto
termination
  by (relation "measure (\<lambda>(read_chunk, junk, i, start, buf, dest, remaining, p). remaining)") auto

declare dp_loop.simps [simp del]

definition dp_read ::
    "(nat \<Rightarrow> bytes \<Rightarrow> nat \<Rightarrow> nat \<Rightarrow> nat \<Rightarrow> 'p \<Rightarrow> (ErrorCode \<times> bytes \<times> nat \<times> 'p) option) \<Rightarrow> (nat \<Rightarrow> nat) \<Rightarrow>
     nat \<Rightarrow> bytes \<Rightarrow> nat \<Rightarrow> 'p \<Rightarrow> (ErrorCode \<times> bytes \<times> 'p) option" where
  "dp_read read_chunk junk offset buffer len p =
     dp_loop read_chunk junk (wrap 32 (int (offset div CHUNK_SIZE_BYTES))) offset buffer 0 len p"

subsection \<open>The interface it relies on\<close>

text \<open>
  \<open>T\<close> is the volume by chunks, of which the first \<open>chunks\<close> are asked for, and \<open>present p i\<close> says
  that the chunk can be read for sure. A read inside a full chunk gives its bytes or an error that leaves the buffer and
  \<open>read_size\<close> as they were; a chunk that is present is read successfully and stays present
  like all others.
\<close>

locale chunk_reader =
  fixes read_chunk :: "nat \<Rightarrow> bytes \<Rightarrow> nat \<Rightarrow> nat \<Rightarrow> nat \<Rightarrow> 'p \<Rightarrow> (ErrorCode \<times> bytes \<times> nat \<times> 'p) option"
    and inv :: "'p \<Rightarrow> bool"
    and T :: "nat \<rightharpoonup> bytes"
    and present :: "'p \<Rightarrow> nat \<Rightarrow> bool"
    and chunks :: nat
  assumes chunks_32: "chunks \<le> 2 ^ 32"
    and read_part:
    "inv p \<Longrightarrow> i < chunks \<Longrightarrow> ofs + len \<le> CHUNK_SIZE_BYTES \<Longrightarrow> len \<le> length buffer \<Longrightarrow>
       \<exists>err buffer' n p'. read_chunk i buffer ofs len junk p = Some (err, buffer', n, p') \<and> inv p' \<and>
         (err = OK \<longrightarrow> (\<exists>d. T i = Some d \<and>
            (ofs + len \<le> length d \<longrightarrow> n = len \<and> buffer' = take len (drop ofs d) @ drop len buffer))) \<and>
         (err \<noteq> OK \<longrightarrow> buffer' = buffer \<and> n = junk) \<and> length buffer' = length buffer \<and>
         (present p i \<longrightarrow> err = OK \<and> present p' = present p)"

text \<open>The bytes of the volume from an address on, chunk after chunk.\<close>

definition volume_bytes :: "(nat \<rightharpoonup> bytes) \<Rightarrow> nat \<Rightarrow> nat \<Rightarrow> bytes" where
  "volume_bytes T offset len =
     map (\<lambda>a. the (T (a div CHUNK_SIZE_BYTES)) ! (a mod CHUNK_SIZE_BYTES)) [offset..<offset + len]"

definition full_volume :: "(nat \<rightharpoonup> bytes) \<Rightarrow> bool" where
  "full_volume T \<longleftrightarrow> (\<forall>i d. T i = Some d \<longrightarrow> length d = CHUNK_SIZE_BYTES)"

lemma length_volume_bytes [simp]: "length (volume_bytes T offset len) = len"
  by (simp add: volume_bytes_def)

lemma volume_bytes_add:
  "volume_bytes T offset (m + n) = volume_bytes T offset m @ volume_bytes T (offset + m) n"
  using upt_add_eq_append [of offset "offset + m" n] by (simp add: volume_bytes_def add.assoc)

lemma volume_bytes_chunk:
  assumes "T (offset div CHUNK_SIZE_BYTES) = Some d" and "length d = CHUNK_SIZE_BYTES"
    and "offset mod CHUNK_SIZE_BYTES + len \<le> CHUNK_SIZE_BYTES"
  shows "volume_bytes T offset len = take len (drop (offset mod CHUNK_SIZE_BYTES) d)"
proof (rule nth_equalityI)
  show l: "length (volume_bytes T offset len) = length (take len (drop (offset mod CHUNK_SIZE_BYTES) d))"
    using assms(2,3) by simp
  fix k
  assume "k < length (volume_bytes T offset len)"
  then have k: "k < len" by simp
  let ?C = CHUNK_SIZE_BYTES
  have "(offset + k) div ?C = offset div ?C" "(offset + k) mod ?C = offset mod ?C + k"
    using address_in_chunk [OF refl assms(3), of "offset + k"] k by simp_all
  then show "volume_bytes T offset len ! k = take len (drop (offset mod ?C) d) ! k"
    using k assms by (simp add: volume_bytes_def)
qed

context chunk_reader
begin

lemma chunks_bytes: "chunks * CHUNK_SIZE_BYTES \<le> 2 ^ 32 * CHUNK_SIZE_BYTES"
  using chunks_32 by simp

lemma dp_loop_ok:
  assumes "inv p" and "full_volume T" and "i = a div CHUNK_SIZE_BYTES" and "start mod CHUNK_SIZE_BYTES = a mod CHUNK_SIZE_BYTES"
    and "dest + remaining \<le> length buf" and "a + remaining \<le> chunks * CHUNK_SIZE_BYTES"
  shows "\<exists>err buf' p'. dp_loop read_chunk junk i start buf dest remaining p = Some (err, buf', p') \<and>
    inv p' \<and> length buf' = length buf \<and>
    (err = OK \<longrightarrow> buf' = take dest buf @ volume_bytes T a remaining @ drop (dest + remaining) buf) \<and>
    ((\<forall>j. a < (j + 1) * CHUNK_SIZE_BYTES \<and> j * CHUNK_SIZE_BYTES < a + remaining \<longrightarrow> present p j) \<longrightarrow>
       err = OK \<and> present p' = present p)"
  using assms
proof (induction remaining arbitrary: i start buf dest a p rule: less_induct)
  case (less r)
  let ?C = CHUNK_SIZE_BYTES
  show ?case
  proof (cases "r = 0")
    case True
    then show ?thesis using less.prems by (simp add: dp_loop.simps volume_bytes_def)
  next
    case False
    define ofs where "ofs = a mod ?C"
    define len where "len = min r (?C - ofs)"
    have "ofs < ?C" by (simp add: ofs_def)
    then have l: "0 < len" "len \<le> r" "ofs + len \<le> ?C" and cut: "len < r \<Longrightarrow> ofs + len = ?C"
      using False unfolding len_def by linarith+
    have aC: "a = i * ?C + ofs" using less.prems(3) by (simp add: ofs_def)
    have "i * ?C < chunks * ?C" using less.prems(6) False aC by linarith
    then have i: "i < chunks" by simp
    have "len \<le> length (drop dest buf)" using less.prems(5) l(2) by simp
    from read_part [OF less.prems(1) i l(3) this, of "junk i"] obtain err rest n p' where
      rd: "read_chunk i (drop dest buf) ofs len (junk i) p = Some (err, rest, n, p')" "inv p'"
      and ok: "err = OK \<longrightarrow> (\<exists>d. T i = Some d \<and>
            (ofs + len \<le> length d \<longrightarrow> n = len \<and> rest = take len (drop ofs d) @ drop len (drop dest buf)))"
      and lrest: "length rest = length (drop dest buf)"
      and pres: "present p i \<longrightarrow> err = OK \<and> present p' = present p"
      by blast
    let ?buf = "take dest buf @ rest"
    have step: "dp_loop read_chunk junk i start buf dest r p =
        (if n \<noteq> len then Some (INTERNAL_ERROR, ?buf, p') else if err \<noteq> OK then Some (err, ?buf, p')
         else dp_loop read_chunk junk (wrap 32 (int i + 1)) 0 ?buf (dest + len) (r - len) p')"
      using False rd(1) less.prems(4) unfolding dp_loop.simps [of _ _ i start] Let_def
      by (simp add: ofs_def len_def)
    have lbuf: "length ?buf = length buf" using lrest less.prems(5) by simp
    have here: "present p i"
      if "\<forall>j. a < (j + 1) * ?C \<and> j * ?C < a + r \<longrightarrow> present p j"
    proof -
      have "a < (i + 1) * ?C" "i * ?C < a + r" using aC \<open>ofs < ?C\<close> False by (simp_all add: algebra_simps)
      then show ?thesis using that by blast
    qed
    have stay: "(\<forall>j. a < (j + 1) * ?C \<and> j * ?C < a + r \<longrightarrow> present p j) \<longrightarrow> present p' = present p"
      using here pres by blast
    show ?thesis
    proof (cases "err = OK")
      case True
      then obtain d where d: "T i = Some d" using ok by blast
      then have ld: "length d = ?C" using less.prems(2) by (simp add: full_volume_def)
      then have n: "n = len" and rest: "rest = take len (drop ofs d) @ drop (dest + len) buf"
        using ok True d l(3) by (auto simp: add.commute)
      have chunk: "take len (drop ofs d) = volume_bytes T a len"
        using volume_bytes_chunk [of T a d len] d ld l(3) less.prems(3) by (simp add: ofs_def)
      show ?thesis
      proof (cases "len < r")
        case False
        then have "len = r" using l(2) by simp
        have "dp_loop read_chunk junk (wrap 32 (int i + 1)) 0 ?buf (dest + len) 0 p' = Some (OK, ?buf, p')"
          by (simp add: dp_loop.simps)
        then show ?thesis
          using True step n rd(2) lbuf rest chunk stay \<open>len = r\<close> less.prems(5) by simp
      next
        case more: True
        have a': "a + len = (i + 1) * ?C" using aC cut [OF more] by (simp add: algebra_simps)
        have "(i + 1) * ?C < chunks * ?C" using less.prems(6) more a' by linarith
        then have "i + 1 < chunks" by (rule mult_less_cancel2 [THEN iffD1, THEN conjunct2])
        then have i': "i + 1 < 2 ^ 32" using chunks_32 by linarith
        then have w: "wrap 32 (int i + 1) = (a + len) div ?C"
          using wrap_of_nat [of "i + 1" 32] a' by (simp add: add.commute)
        have p0: "r - len < r" "0 mod ?C = (a + len) mod ?C" "dest + len + (r - len) \<le> length ?buf"
          "a + len + (r - len) \<le> chunks * ?C"
          using l(1,2) a' less.prems(5,6) lbuf by simp_all
        obtain err' buf' p'' where
          ih: "dp_loop read_chunk junk (wrap 32 (int i + 1)) 0 ?buf (dest + len) (r - len) p' = Some (err', buf', p'')"
            "inv p''" "length buf' = length ?buf"
            "err' = OK \<longrightarrow> buf' = take (dest + len) ?buf @ volume_bytes T (a + len) (r - len) @
               drop (dest + len + (r - len)) ?buf"
            "(\<forall>j. a + len < (j + 1) * ?C \<and> j * ?C < a + len + (r - len) \<longrightarrow> present p' j) \<longrightarrow>
               err' = OK \<and> present p'' = present p'"
          using less.IH [OF p0(1) rd(2) less.prems(2) w p0(2-4)] by blast
        have "take (dest + len) ?buf = take dest buf @ volume_bytes T a len"
          using rest chunk less.prems(5) l(2) by simp
        moreover have "drop (dest + len + (r - len)) ?buf = drop (dest + r) buf"
          using rest chunk less.prems(5) l(2) by (simp add: add.commute)
        moreover have "volume_bytes T a r = volume_bytes T a len @ volume_bytes T (a + len) (r - len)"
          using volume_bytes_add [of T a len "r - len"] l(2) by simp
        ultimately have "err' = OK \<longrightarrow> buf' = take dest buf @ volume_bytes T a r @ drop (dest + r) buf"
          using ih(4) by simp
        moreover have "err' = OK \<and> present p'' = present p"
          if all: "\<forall>j. a < (j + 1) * ?C \<and> j * ?C < a + r \<longrightarrow> present p j"
        proof -
          have "present p' = present p" using pres here [OF all] by blast
          then show ?thesis using ih(5) all l(1,2) by auto
        qed
        ultimately show ?thesis
          using step n True ih(1-3) lbuf by auto
      qed
    next
      case False
      then show ?thesis using step rd(2) lbuf pres here by auto
    qed
  qed
qed

lemma data_read_ok:
  assumes "inv p" and "full_volume T" and "len \<le> length buffer" and "offset + len \<le> chunks * CHUNK_SIZE_BYTES"
    and "offset < 2 ^ 32 * CHUNK_SIZE_BYTES"
  shows "\<exists>err buffer' p'. dp_read read_chunk junk offset buffer len p = Some (err, buffer', p') \<and> inv p' \<and>
    length buffer' = length buffer \<and> (err = OK \<longrightarrow> buffer' = volume_bytes T offset len @ drop len buffer) \<and>
    ((\<forall>j. offset < (j + 1) * CHUNK_SIZE_BYTES \<and> j * CHUNK_SIZE_BYTES < offset + len \<longrightarrow> present p j) \<longrightarrow>
       err = OK \<and> present p' = present p)"
proof -
  have "offset div CHUNK_SIZE_BYTES < 2 ^ 32" using assms(5) by (simp add: less_mult_imp_div_less)
  then have i: "wrap 32 (int (offset div CHUNK_SIZE_BYTES)) = offset div CHUNK_SIZE_BYTES"
    by (rule wrap_of_nat)
  have "0 + len \<le> length buffer" using assms(3) by simp
  from dp_loop_ok [OF assms(1,2) refl refl this assms(4), of junk]
  show ?thesis unfolding dp_read_def i by simp
qed

end

subsection \<open>The ChunkProvider provides the interface\<close>

definition provider_ready ::
    "codec \<Rightarrow> (nat \<rightharpoonup> bytes) \<Rightarrow> (nat \<Rightarrow> chunk_store \<Rightarrow> (ErrorCode \<times> chunk_store) option) \<Rightarrow>
     chunk_store provider \<Rightarrow> bool" where
  "provider_ready lz4 T fetch p \<longleftrightarrow> cs_provider_inv lz4 T p \<and> cs_fetch_ok lz4 T fetch"

definition locally_present :: "codec \<Rightarrow> chunk_store provider \<Rightarrow> nat \<Rightarrow> bool" where
  "locally_present lz4 p i \<longleftrightarrow> cs_lookup lz4 (p_store p) i \<noteq> None"

interpretation provider_reader: chunk_reader "provider_read_chunk (cs_read_chunk lz4) fetch"
  "provider_ready lz4 T fetch" T "locally_present lz4" "2 ^ 32" for lz4 fetch T
proof (unfold_locales, goal_cases)
  case (2 p i ofs len buffer junk)
  then have p: "cs_provider_inv lz4 T p" "cs_fetch_ok lz4 T fetch" by (simp_all add: provider_ready_def)
  obtain err buffer' n p' where
    r: "provider_read_chunk (cs_read_chunk lz4) fetch i buffer ofs len junk p = Some (err, buffer', n, p')"
      "cs_provider_inv lz4 T p'" "read_result T i buffer ofs len junk err buffer' n"
      "cs_lookup lz4 (p_store p) i \<noteq> None \<longrightarrow> err = OK \<and> cs_lookup lz4 (p_store p') = cs_lookup lz4 (p_store p)"
    using compressed_files.provider_read_ok [OF p 2(2-4), of junk] by blast
  have "provider_ready lz4 T fetch p'" using r(2) p(2) by (simp add: provider_ready_def)
  moreover have "locally_present lz4 p i \<longrightarrow> err = OK \<and> locally_present lz4 p' = locally_present lz4 p"
    using r(4) by (simp add: locally_present_def fun_eq_iff)
  moreover have "err = OK \<longrightarrow> (\<exists>d. T i = Some d \<and>
      (ofs + len \<le> length d \<longrightarrow> n = len \<and> buffer' = take len (drop ofs d) @ drop len buffer))"
    using r(3) by (auto simp: read_result_def)
  moreover have "(err \<noteq> OK \<longrightarrow> buffer' = buffer \<and> n = junk) \<and> length buffer' = length buffer"
    using r(3) by (auto simp: read_result_def split: if_splits)
  ultimately show ?case using r(1) by blast
qed simp

subsection \<open>Properties\<close>

text \<open>
  C12: Reading a range of the volume with the result OK gives exactly the volume's bytes,
  across chunk boundaries and from whichever mix of cache, store and network they come; the
  rest of the buffer is untouched, and nothing is undefined. If all chunks of the range are in
  the store, the read succeeds and they all stay there.
\<close>

theorem data_read_returns_volume_bytes:
  assumes "provider_ready lz4 T fetch p" and "full_volume T"
    and "len \<le> length buffer" and "offset + len \<le> 2 ^ 32 * CHUNK_SIZE_BYTES" and "offset < 2 ^ 32 * CHUNK_SIZE_BYTES"
  shows "\<exists>err buffer' p'. dp_read (provider_read_chunk (cs_read_chunk lz4) fetch) junk offset buffer len p =
      Some (err, buffer', p') \<and> provider_ready lz4 T fetch p' \<and> length buffer' = length buffer \<and>
    (err = OK \<longrightarrow> buffer' = volume_bytes T offset len @ drop len buffer) \<and>
    ((\<forall>j. offset < (j + 1) * CHUNK_SIZE_BYTES \<and> j * CHUNK_SIZE_BYTES < offset + len \<longrightarrow>
        locally_present lz4 p j) \<longrightarrow> err = OK \<and> locally_present lz4 p' = locally_present lz4 p)"
  by (rule provider_reader.data_read_ok [OF assms])

text \<open>A chunk that starts with the given bytes, and a store that holds it as chunk 0.\<close>

definition padded_chunk :: "bytes \<Rightarrow> bytes" where
  "padded_chunk d = d @ replicate (CHUNK_SIZE_BYTES - length d) (CHR 0x00)"

lemma length_padded_chunk [simp]: "length d \<le> CHUNK_SIZE_BYTES \<Longrightarrow> length (padded_chunk d) = CHUNK_SIZE_BYTES"
  by (simp add: padded_chunk_def)

lemma padded_chunk_Nil [simp]: "padded_chunk [] = new_buffer"
  by (simp add: padded_chunk_def new_buffer_def)

lemma padded_chunk_bytes:
  assumes "length d \<le> CHUNK_SIZE_BYTES"
  shows "volume_bytes [0 \<mapsto> padded_chunk d] 0 (length d) = d"
  using volume_bytes_chunk [of "[0 \<mapsto> padded_chunk d]" 0 "padded_chunk d" "length d"] assms
  by simp (simp add: padded_chunk_def)

lemma padded_volume_ready:
  assumes "length d + 4 \<le> CHUNK_SIZE_BYTES"
  shows "\<exists>s. cs_write_chunk zero_codec 0 (padded_chunk d) CHUNK_SIZE_BYTES (fresh_store ''/s'' 4 []) = Some (OK, s) \<and>
     provider_ready zero_codec [0 \<mapsto> padded_chunk d] (\<lambda>i s. Some (NOT_FOUND, s)) (provider_new s 2) \<and>
     locally_present zero_codec (provider_new s 2) 0"
proof -
  have len: "length (padded_chunk d) = CHUNK_SIZE_BYTES" using assms by simp
  have inv: "cs_inv zero_codec (fresh_store ''/s'' 4 [])"
    by (rule fresh_store_cs_inv) (simp_all add: short_base_def)
  have "length (strip_zeros (padded_chunk d)) \<le> length d"
    unfolding padded_chunk_def by (rule length_strip_zeros_pad)
  then have st: "cs_storable zero_codec (take CHUNK_SIZE_BYTES (padded_chunk d))"
    using chunk_size_lt_32 assms len
    by (simp add: cs_storable_def coded_storable_def zero_codec_def zero_compress_def)
  obtain s E where s: "cs_write_chunk zero_codec 0 (padded_chunk d) CHUNK_SIZE_BYTES (fresh_store ''/s'' 4 []) = Some (OK, s)"
      "cs_inv zero_codec s" "cs_lookup zero_codec s = (Map.empty |` (- E))(0 \<mapsto> take CHUNK_SIZE_BYTES (padded_chunk d))"
    using compressed_files.write_ok [OF inv _ _ st, of 0] len by auto
  have "cs_lookup zero_codec s \<subseteq>\<^sub>m [0 \<mapsto> padded_chunk d]"
    unfolding s(3) using len by (auto simp: map_le_def restrict_map_def split: if_splits)
  then have "cs_provider_inv zero_codec [0 \<mapsto> padded_chunk d] (provider_new s 2)"
    by (rule provider_new_inv [OF s(2)]) simp
  moreover have "cs_fetch_ok zero_codec [0 \<mapsto> padded_chunk d] (\<lambda>i s. Some (NOT_FOUND, s))"
    by (simp add: fetch_ok_def)
  ultimately show ?thesis
    using s(1,3) by (simp add: provider_ready_def locally_present_def provider_new_def)
qed

theorem data_read_returns_volume_bytes_witness:
  "\<exists>s p'. cs_write_chunk zero_codec 0 new_buffer CHUNK_SIZE_BYTES (fresh_store ''/s'' 4 []) = Some (OK, s) \<and>
     dp_read (provider_read_chunk (cs_read_chunk zero_codec) (\<lambda>i s. Some (NOT_FOUND, s))) (\<lambda>_. 77) 5 ''abc'' 2
       (provider_new s 2) = Some (OK, [CHR 0x00, CHR 0x00, CHR ''c''], p')"
proof -
  obtain s where s: "cs_write_chunk zero_codec 0 new_buffer CHUNK_SIZE_BYTES (fresh_store ''/s'' 4 []) = Some (OK, s)"
    and r: "provider_ready zero_codec [0 \<mapsto> new_buffer] (\<lambda>i s. Some (NOT_FOUND, s)) (provider_new s 2)"
    and l: "locally_present zero_codec (provider_new s 2) 0"
    using padded_volume_ready [of "[]"] by (auto simp: CHUNK_SIZE_BYTES_def)
  have full: "full_volume [0 \<mapsto> new_buffer]" by (simp add: full_volume_def)
  have C: "5 + 2 \<le> (2::nat) ^ 32 * CHUNK_SIZE_BYTES" "5 < (2::nat) ^ 32 * CHUNK_SIZE_BYTES" "(2::nat) \<le> length ''abc''"
    by (simp_all add: CHUNK_SIZE_BYTES_def)
  have all: "\<forall>j. 5 < (j + 1) * CHUNK_SIZE_BYTES \<and> j * CHUNK_SIZE_BYTES < 5 + 2 \<longrightarrow>
      locally_present zero_codec (provider_new s 2) j"
  proof (intro allI impI)
    fix j
    assume "5 < (j + 1) * CHUNK_SIZE_BYTES \<and> j * CHUNK_SIZE_BYTES < 5 + 2"
    then have "j = 0" by (simp add: CHUNK_SIZE_BYTES_def)
    then show "locally_present zero_codec (provider_new s 2) j" using l by simp
  qed
  have small: "5 div CHUNK_SIZE_BYTES = 0" "5 mod CHUNK_SIZE_BYTES = 5" "6 div CHUNK_SIZE_BYTES = 0"
      "6 mod CHUNK_SIZE_BYTES = 6" "5 < CHUNK_SIZE_BYTES" "6 < CHUNK_SIZE_BYTES"
    by (simp_all add: CHUNK_SIZE_BYTES_def)
  have "[5..<5 + 2] = [5, 6::nat]" by (simp add: upt_conv_Cons)
  then have v: "volume_bytes [0 \<mapsto> new_buffer] 5 2 = [CHR 0x00, CHR 0x00]"
    using small by (simp add: volume_bytes_def new_buffer_def)
  show ?thesis
    using data_read_returns_volume_bytes [OF r full C(3,1,2), of "\<lambda>_. 77"] all s v by auto
qed

text \<open>
  When a part cannot be read, which error \<open>read\<close> reports depends on the garbage in the
  uninitialised \<open>read_size\<close>: the error of the ChunkProvider is passed on only if the garbage
  happens to equal the expected size, otherwise the result is INTERNAL_ERROR.
\<close>

theorem data_read_error_depends_on_garbage:
  assumes "0 < len" and "offset mod CHUNK_SIZE_BYTES + len \<le> CHUNK_SIZE_BYTES"
    and "read_chunk (wrap 32 (int (offset div CHUNK_SIZE_BYTES))) buffer (offset mod CHUNK_SIZE_BYTES) len g p =
      Some (err, buffer, g, p')"
    and "err \<noteq> OK"
  shows "dp_read read_chunk (\<lambda>_. g) offset buffer len p =
    Some (if g = len then err else INTERNAL_ERROR, buffer, p')"
proof -
  have "min len (CHUNK_SIZE_BYTES - offset mod CHUNK_SIZE_BYTES) = len" using assms(2) by linarith
  then show ?thesis
    using assms(1,3,4) by (simp add: dp_read_def dp_loop.simps Let_def)
qed

theorem data_read_error_depends_on_garbage_witness:
  "dp_read (\<lambda>i b ofs len g p. Some (NOT_FOUND, b, g, p)) (\<lambda>_. 7) 0 ''abc'' 2 () = Some (INTERNAL_ERROR, ''abc'', ()) \<and>
   dp_read (\<lambda>i b ofs len g p. Some (NOT_FOUND, b, g, p)) (\<lambda>_. 2) 0 ''abc'' 2 () = Some (NOT_FOUND, ''abc'', ())"
proof -
  have C: "0 mod CHUNK_SIZE_BYTES + 2 \<le> CHUNK_SIZE_BYTES" by (simp add: CHUNK_SIZE_BYTES_def)
  show ?thesis
    using data_read_error_depends_on_garbage [OF _ C, where err = NOT_FOUND and g = 7 and buffer = "''abc''"
        and p = "()" and p' = "()" and read_chunk = "\<lambda>i b ofs len g p. Some (NOT_FOUND, b, g, p)"]
      data_read_error_depends_on_garbage [OF _ C, where err = NOT_FOUND and g = 2 and buffer = "''abc''"
        and p = "()" and p' = "()" and read_chunk = "\<lambda>i b ofs len g p. Some (NOT_FOUND, b, g, p)"]
    by simp
qed

end
