(* ===== verification/Meta_Read_Back.thy ===== *)
theory Meta_Read_Back
  imports Meta_File_System Data_Provider
begin

text \<open>
  The properties of MetaFileSystem: an image that represents a tree of files answers every
  query as the tree does, and the places where the code departs from that.
\<close>

subsection \<open>An example image\<close>

text \<open>
  A root directory with a file \<open>a\<close> of five bytes at volume address 300, which has the attribute
  \<open>k = v\<close>, and a symbolic link \<open>l\<close> to \<open>a\<close>.
\<close>

definition node_bytes :: "nat \<Rightarrow> nat \<Rightarrow> nat \<Rightarrow> nat \<Rightarrow> bytes" where
  "node_bytes mode xattrs len off =
     le_bytes 4 mode @ le_bytes 4 1 @ le_bytes 4 2 @ le_bytes 4 0 @ le_bytes 8 5 @ le_bytes 8 1 @
     le_bytes 8 7000000009 @ le_bytes 8 8000000000 @ le_bytes 4 xattrs @ le_bytes 4 0 @ le_bytes 8 len @ le_bytes 8 off"

definition entry_bytes :: "nat \<Rightarrow> nat \<Rightarrow> bytes" where
  "entry_bytes no d = le_bytes 8 no @ le_bytes 8 d"

definition example_image :: bytes where
  "example_image =
     le_bytes 8 290 @ node_bytes 0x41ED 0 2 80 @ entry_bytes 112 116 @ entry_bytes 114 216 @
     ''a'' @ [CHR 0x00] @ ''l'' @ [CHR 0x00] @
     node_bytes 0x81A4 1 5 300 @ entry_bytes 204 206 @ ''k'' @ [CHR 0x00] @ le_bytes 8 1 @ ''v'' @ [CHR 0x00] @
     node_bytes 0xA1FF 0 0 288 @ ''a'' @ [CHR 0x00]"

definition example_attrs :: "nat \<Rightarrow> attrs" where
  "example_attrs mode =
     \<lparr>a_mode = mode, a_uid = 1, a_gid = 2, a_size = 5, a_blocks = 1, a_mtime = 7000000009, a_ctime = 8000000000\<rparr>"

definition example_tree :: tree where
  "example_tree =
     Dir (example_attrs 0x41ED) []
       [(''a'', Reg (example_attrs 0x81A4) [(''k'', ''v'')] 300 5), (''l'', Lnk (example_attrs 0xA1FF) [] ''a'')]"

lemmas example_eval = example_image_def node_bytes_def entry_bytes_def example_attrs_def get_u32_def get_u64_def
  c_str_def slice_def NODE_SIZE_def ENTRY_SIZE_def
  n_mode_def n_uid_def n_gid_def n_size_def n_block_count_def n_mtime_ns_def n_ctime_ns_def n_xattrs_count_def
  n_length_def n_data_offset_def e_name_offset_def e_data_offset_def

lemma example_nodes:
  "attrs_at example_image 8 (example_attrs 0x41ED)" 
  "attrs_at example_image 116 (example_attrs 0x81A4)"
  "attrs_at example_image 216 (example_attrs 0xA1FF)"
  by (simp_all add: attrs_at_def example_eval)

lemma example_fields:
  "n_xattrs_count example_image 8 = Some 0" "n_length example_image 8 = Some 2" "n_data_offset example_image 8 = Some 80"
  "n_xattrs_count example_image 116 = Some 1" "n_length example_image 116 = Some 5"
  "n_data_offset example_image 116 = Some 300"
  "n_xattrs_count example_image 216 = Some 0" "n_data_offset example_image 216 = Some 288"
  "c_str example_image 288 = Some ''a''"
  by (simp_all add: example_eval)

lemma example_entries:
  "e_name_offset example_image 80 0 = Some 112" "e_data_offset example_image 80 0 = Some 116"
  "c_str example_image 112 = Some ''a''"
  "e_name_offset example_image 80 1 = Some 114" "e_data_offset example_image 80 1 = Some 216"
  "c_str example_image 114 = Some ''l''"
  "e_name_offset example_image 188 0 = Some 204" "e_data_offset example_image 188 0 = Some 206"
  "c_str example_image 204 = Some ''k''" "get_u64 example_image 206 = Some 1" "slice example_image 214 1 = Some ''v''"
  by (simp_all add: example_eval)

lemma example_file_represents: "represents example_image 116 (Reg (example_attrs 0x81A4) [(''k'', ''v'')] 300 5)"
  using example_nodes(2) example_fields example_entries
  by (intro represents.reg) (auto simp: xattrs_at_def table_at_def S_ISREG_def example_attrs_def NODE_SIZE_def
      intro!: exI [of _ "[206]"])

lemma example_represents: "represents example_image 8 example_tree"
proof -
  note f = example_file_represents
  have l: "represents example_image 216 (Lnk (example_attrs 0xA1FF) [] ''a'')"
    using example_nodes(3) example_fields
    by (intro represents.lnk [where t = 288]) (auto simp: xattrs_at_def table_at_def S_ISLNK_def example_attrs_def)
  have tab: "table_at example_image 80 [''a'', ''l''] [116, 216]"
    using example_entries by (auto simp: table_at_def less_Suc_eq)
  have x: "xattrs_at example_image 8 []"
    using example_fields(1) by (simp add: xattrs_at_def table_at_def)
  show ?thesis
    unfolding example_tree_def
    using example_nodes(1) example_fields(1-3) x tab f l
    by (intro represents.dir [of _ _ _ _ _ "[116, 216]"])
      (simp_all add: S_ISDIR_def example_attrs_def xattrs_size_def NODE_SIZE_def name_less_def less_Suc_eq)
qed

lemma example_plain: "plain_dirs example_tree"
  by (simp add: example_tree_def)

subsection \<open>Queries\<close>



text \<open>
  \<^verbatim>\<open>get_stat\<close> of a path gives the attributes of the file the path names in the tree, with
  the times split into seconds and nanoseconds, and NOT_FOUND exactly when the tree has no such
  file.
\<close>

theorem get_stat_of_path:
  assumes "represents img 8 t" and "plain_dirs t" and "CHR 0x00 \<notin> set path"
  shows "get_stat img (CHR ''/'' # path) st = Some (Inr (case tree_lookup t (components [] path) of
      None \<Rightarrow> (NOT_FOUND, st)
    | Some t' \<Rightarrow> (OK, stat_of (tree_attrs t'))))"
  unfolding get_stat_def by (rule at_path_tree [OF assms]) (simp add: get_stat_at_ok [OF represents_attrs])

theorem get_stat_of_path_witness:
  "get_stat example_image ''/a'' (stat_of (example_attrs 0)) = Some (Inr (OK, stat_of (example_attrs 0x81A4))) \<and>
   get_stat example_image ''/a/x'' (stat_of (example_attrs 0)) = Some (Inr (NOT_FOUND, stat_of (example_attrs 0)))"
  using get_stat_of_path [OF example_represents example_plain, of "''a''" "stat_of (example_attrs 0)"]
    get_stat_of_path [OF example_represents example_plain, of "''a/x''" "stat_of (example_attrs 0)"]
  by (simp add: example_tree_def)

text \<open>
  \<^verbatim>\<open>get_dir\<close> calls the reader for the entries of the directory in the order of the tree,
  from the given index on and until the reader asks to stop, each with its name and its
  attributes; for other files the result is BAD_TYPE.
\<close>

theorem get_dir_lists_entries:
  assumes "represents img 8 t" and "plain_dirs t" and "CHR 0x00 \<notin> set path"
  shows "get_dir img (CHR ''/'' # path) start_at dir_reader acc =
    Some (Inr (case tree_lookup t (components [] path) of
        None \<Rightarrow> (NOT_FOUND, acc)
      | Some (Dir a xs es) \<Rightarrow> (OK, list_until dir_reader (drop start_at es) acc)
      | Some _ \<Rightarrow> (BAD_TYPE, acc)))"
  unfolding get_dir_def
  by (rule at_path_tree [OF assms], rule get_dir_at_ok)

theorem get_dir_lists_entries_witness:
  "get_dir example_image ''/'' 1 (\<lambda>name st acc. (False, acc @ [(name, st_mode st)])) [] =
     Some (Inr (OK, [(''l'', 0xA1FF)])) \<and>
   get_dir example_image ''/a'' 0 (\<lambda>name st acc. (False, acc @ [(name, st_mode st)])) [] =
     Some (Inr (BAD_TYPE, []))"
  using get_dir_lists_entries [OF example_represents example_plain, of "[]" 1
      "\<lambda>name st acc. (False, acc @ [(name, st_mode st)])" "[]"]
    get_dir_lists_entries [OF example_represents example_plain, of "''a''" 0
      "\<lambda>name st acc. (False, acc @ [(name, st_mode st)])" "[]"]
  by (simp add: example_tree_def example_attrs_def stat_of_def)

subsection \<open>Symbolic links\<close>

lemma get_symlink_at_ok:
  assumes "represents img n (Lnk a xs target)" and "0 < k" and "k < 2 ^ 64" and "k \<le> length buff"
  shows "(do {
      mode \<leftarrow> n_mode img n;
      if \<not> S_ISLNK mode then Some (BAD_TYPE, buff)
      else do {
        d \<leftarrow> n_data_offset img n;
        name \<leftarrow> c_str img d;
        buff' \<leftarrow> strncpy buff 0 name (wrap 64 (int k - 1));
        buff'' \<leftarrow> blit buff' k [CHR 0x00];
        Some (if length name > k then TOO_LONG else OK, buff'')
      }
    }) = (if length buff = k then None else Some (if length target > k then TOO_LONG else OK,
      take (k - 1) target @ replicate (k - 1 - length target) (CHR 0x00) @ [buff ! (k - 1), CHR 0x00] @ drop (k + 1) buff))"
  using assms(1)
proof (cases rule: represents.cases)
  case (lnk d)
  define pre where "pre = take (k - 1) target @ replicate (k - 1 - length target) (CHR 0x00)"
  have len: "length pre = k - 1" by (simp add: pre_def)
  have w: "wrap 64 (int k - 1) = k - 1" using wrap_diff [of 1 k 64] assms(2,3) by simp
  have one: "strncpy buff 0 target (k - 1) = Some (pre @ drop (k - 1) buff)"
    using assms(4) len unfolding strncpy_def pre_def [symmetric] by (simp add: blit_def)
  have two: "blit (pre @ drop (k - 1) buff) k [CHR 0x00] =
      (if length buff = k then None else Some (pre @ [buff ! (k - 1), CHR 0x00] @ drop (k + 1) buff))"
  proof -
    obtain j where k: "k = Suc j" using assms(2) not0_implies_Suc by blast
    have "drop j buff = buff ! j # drop (Suc j) buff" using assms(4) k by (simp add: Cons_nth_drop_Suc)
    then show ?thesis using assms(4) len by (auto simp: blit_def k)
  qed
  show ?thesis
    using lnk one two by (simp add: attrs_at_def w pre_def)
qed

text \<open>
  C36: \<^verbatim>\<open>get_symlink\<close> writes one character behind a buffer of the size it is told, which is
  undefined; with a larger buffer it copies at most the first \<open>buff_size - 1\<close> characters, leaves
  the character at \<open>buff_size - 1\<close> as it was and puts the end of the string behind it, so that
  a long target is followed by a stray character.
\<close>

theorem get_symlink_off_by_one:
  assumes "represents img 8 t" and "plain_dirs t" and "CHR 0x00 \<notin> set path"
    and "tree_lookup t (components [] path) = Some (Lnk a xs target)"
    and "0 < buff_size" and "buff_size < 2 ^ 64" and "buff_size \<le> length buff"
  shows "get_symlink img (CHR ''/'' # path) buff_size buff =
    (if length buff = buff_size then None
     else Some (Inr (if length target > buff_size then TOO_LONG else OK,
       take (buff_size - 1) target @ replicate (buff_size - 1 - length target) (CHR 0x00) @
       [buff ! (buff_size - 1), CHR 0x00] @ drop (buff_size + 1) buff)))"
proof -
  obtain n where n: "represents img n (Lnk a xs target)"
    "get_symlink img (CHR ''/'' # path) buff_size buff = map_option Inr (do {
      mode \<leftarrow> n_mode img n;
      if \<not> S_ISLNK mode then Some (BAD_TYPE, buff)
      else do {
        d \<leftarrow> n_data_offset img n;
        name \<leftarrow> c_str img d;
        buff' \<leftarrow> strncpy buff 0 name (wrap 64 (int buff_size - 1));
        buff'' \<leftarrow> blit buff' buff_size [CHR 0x00];
        Some (if length name > buff_size then TOO_LONG else OK, buff'')
      }
    })"
    using at_path_ok [OF assms(1-3)] assms(4) unfolding get_symlink_def by fastforce
  show ?thesis unfolding n(2) get_symlink_at_ok [OF n(1) assms(5-7)] by simp
qed

theorem get_symlink_off_by_one_witness:
  "get_symlink example_image ''/l'' 2 ''xx'' = None \<and>
   get_symlink example_image ''/l'' 1 ''xyz'' = Some (Inr (OK, [CHR ''x'', CHR 0x00, CHR ''z'']))"
  using get_symlink_off_by_one [OF example_represents example_plain, of "''l''" "example_attrs 0xA1FF" "[]" "''a''" 2 "''xx''"]
    get_symlink_off_by_one [OF example_represents example_plain, of "''l''" "example_attrs 0xA1FF" "[]" "''a''" 1 "''xyz''"]
  by (simp add: example_tree_def)

subsection \<open>Extended attributes\<close>

lemma get_xattr_at_ok:
  assumes "represents img n t" and "CHR 0x00 \<notin> set name" and "buff_size \<le> length buf"
  shows "(do {
      count \<leftarrow> n_xattrs_count img n;
      d \<leftarrow> find_entity img name (n + NODE_SIZE) count;
      if d = 0 then Some (NO_DATA, buf, len)
      else do {
        data_size \<leftarrow> get_u64 img d;
        if buff_size > 0 then
          if data_size > buff_size then Some (TOO_LONG, buf, data_size)
          else do {
            v \<leftarrow> slice img (d + 8) data_size;
            buf' \<leftarrow> blit buf 0 v;
            Some (OK, buf', data_size)
          }
        else Some (OK, buf, data_size)
      }
    }) = Some (case map_of (tree_xattrs t) name of
        None \<Rightarrow> (NO_DATA, buf, len)
      | Some v \<Rightarrow> if buff_size = 0 then (OK, buf, length v)
          else if length v > buff_size then (TOO_LONG, buf, length v)
          else (OK, v @ drop (length v) buf, length v))"
proof -
  have x: "xattrs_at img n (tree_xattrs t)" by (rule represents_xattrs [OF assms(1)])
  then have c: "n_xattrs_count img n = Some (length (tree_xattrs t))" by (simp add: xattrs_at_def)
  show ?thesis
  proof (cases "map_of (tree_xattrs t) name")
    case None
    then show ?thesis using find_xattr [OF x assms(2)] c by simp
  next
    case (Some v)
    then obtain d where d: "find_entity img name (n + NODE_SIZE) (length (tree_xattrs t)) = Some d" "d \<noteq> 0"
        "get_u64 img d = Some (length v)" "slice img (d + 8) (length v) = Some v"
      using find_xattr [OF x assms(2)] by auto
    then show ?thesis using Some c assms(3) by (simp add: blit_def)
  qed
qed

text \<open>
  \<^verbatim>\<open>get_xattr\<close> gives the value of the attribute: its length alone if the caller has no
  buffer, TOO_LONG if the buffer is too small, NO_DATA if the file has no such attribute.
\<close>

theorem get_xattr_of_path:
  assumes "represents img 8 t" and "plain_dirs t" and "CHR 0x00 \<notin> set path"
    and "CHR 0x00 \<notin> set name" and "buff_size \<le> length buf"
  shows "get_xattr img (CHR ''/'' # path) name buf buff_size len =
    Some (Inr (case tree_lookup t (components [] path) of
        None \<Rightarrow> (NOT_FOUND, buf, len)
      | Some t' \<Rightarrow> (case map_of (tree_xattrs t') name of
          None \<Rightarrow> (NO_DATA, buf, len)
        | Some v \<Rightarrow> if buff_size = 0 then (OK, buf, length v)
            else if length v > buff_size then (TOO_LONG, buf, length v)
            else (OK, v @ drop (length v) buf, length v))))"
  unfolding get_xattr_def
  by (rule at_path_tree [OF assms(1-3)], rule get_xattr_at_ok [OF _ assms(4,5)])

theorem get_xattr_of_path_witness:
  "get_xattr example_image ''/a'' ''k'' ''xy'' 2 7 = Some (Inr (OK, ''vy'', 1)) \<and>
   get_xattr example_image ''/l'' ''k'' ''xy'' 2 7 = Some (Inr (NO_DATA, ''xy'', 7))"
  using get_xattr_of_path [OF example_represents example_plain, of "''a''" "''k''" 2 "''xy''" 7]
    get_xattr_of_path [OF example_represents example_plain, of "''l''" "''k''" 2 "''xy''" 7]
  by (simp add: example_tree_def)

text \<open>
  \<^verbatim>\<open>list_xattr\<close> of a file whose names \<open>ps @ qs\<close> all fit into the buffer (\<open>qs = []\<close>) gives
  the list of the names and its length. If the first names fill the buffer exactly (\<open>ps = []\<close>:
  the caller has no buffer and asks for the length), the others are left out, and the result is
  OK all the same, with the length of the whole list, not TOO_LONG.
\<close>

theorem list_xattr_of_path:
  assumes "represents img 8 t" and "plain_dirs t" and "CHR 0x00 \<notin> set path"
    and "tree_lookup t (components [] path) = Some t'" and "map fst (tree_xattrs t') = ps @ qs"
    and "length (name_list ps) \<le> buff_size" and "buff_size \<le> length buf"
    and "qs = [] \<or> length (name_list ps) = buff_size"
  shows "list_xattr img (CHR ''/'' # path) buf buff_size len =
    Some (Inr (OK, name_list ps @ drop (length (name_list ps)) buf, length (name_list (ps @ qs))))"
proof -
  obtain n where n: "represents img n t'"
    "list_xattr img (CHR ''/'' # path) buf buff_size len = map_option Inr (do {
      count \<leftarrow> n_xattrs_count img n;
      list_names img (n + NODE_SIZE) [0..<count] buf 0 buff_size 0
    })"
    using at_path_ok [OF assms(1-3)] assms(4) unfolding list_xattr_def by fastforce
  show ?thesis unfolding n(2) list_xattr_at_ok [OF n(1) assms(5,7,6,8)] by simp
qed

theorem list_xattr_of_path_witness:
  "list_xattr example_image ''/a'' ''xyz'' 3 0 = Some (Inr (OK, [CHR ''k'', CHR 0x00, CHR ''z''], 2)) \<and>
   list_xattr example_image ''/a'' ''xyz'' 0 0 = Some (Inr (OK, ''xyz'', 2))"
  using list_xattr_of_path [OF example_represents example_plain, of "''a''"
      "Reg (example_attrs 0x81A4) [(''k'', ''v'')] 300 5" "[''k'']" "[]" 3 "''xyz''" 0]
    list_xattr_of_path [OF example_represents example_plain, of "''a''"
      "Reg (example_attrs 0x81A4) [(''k'', ''v'')] 300 5" "[]" "[''k'']" 0 "''xyz''" 0]
  by (simp add: example_tree_def)

subsection \<open>Directories with extended attributes\<close>

lemma walk_name:
  assumes "CHR ''/'' \<notin> set name" and "acc @ name \<noteq> []"
  shows "walk img n acc name = do {
    m \<leftarrow> get_child img n (acc @ name);
    Some (if m = 0 then (NOT_FOUND, 0) else (OK, m))
  }"
  using assms by (induction name arbitrary: acc) auto

lemma components_name: "CHR ''/'' \<notin> set name \<Longrightarrow> acc @ name \<noteq> [] \<Longrightarrow> components acc name = [acc @ name]"
  by (induction name arbitrary: acc) auto

text \<open>
  The entry of a directory that has extended attributes cannot be found: \<^verbatim>\<open>get_child\<close>
  takes the attributes that follow the node for the entries, which begin at \<^verbatim>\<open>data_offset\<close>.
\<close>

theorem dir_with_xattrs_hides_entry:
  assumes "represents img 8 (Dir a ((k, v) # xs) [(name, t)])" and "CHR 0x00 \<notin> set name"
    and "CHR ''/'' \<notin> set name" and "name \<noteq> []" and "name \<noteq> k"
  shows "get_node_offset img (CHR ''/'' # name) = Some (Inr (NOT_FOUND, 0)) \<and>
    tree_lookup (Dir a ((k, v) # xs) [(name, t)]) (components [] name) = Some t"
  using get_child_sees_xattr [OF assms(1,2)] walk_name [of name "[]" img 8] components_name [of name "[]"] assms(3-5)
  by (auto simp: get_node_offset_def)

text \<open>A root directory with an attribute and a file.\<close>

definition example_xattr_image :: bytes where
  "example_xattr_image =
     le_bytes 8 199 @ node_bytes 0x41ED 1 1 108 @ entry_bytes 96 98 @ ''k'' @ [CHR 0x00] @ le_bytes 8 1 @ ''v'' @ [CHR 0x00] @
     entry_bytes 124 126 @ ''a'' @ [CHR 0x00] @ node_bytes 0x81A4 0 5 300"

lemma example_xattr_fields:
  "attrs_at example_xattr_image 8 (example_attrs 0x41ED)" "attrs_at example_xattr_image 126 (example_attrs 0x81A4)"
  "n_xattrs_count example_xattr_image 8 = Some 1" "n_length example_xattr_image 8 = Some 1"
  "n_data_offset example_xattr_image 8 = Some 108"
  "n_xattrs_count example_xattr_image 126 = Some 0" "n_length example_xattr_image 126 = Some 5"
  "n_data_offset example_xattr_image 126 = Some 300"
  "e_name_offset example_xattr_image 80 0 = Some 96" "e_data_offset example_xattr_image 80 0 = Some 98"
  "c_str example_xattr_image 96 = Some ''k''" "get_u64 example_xattr_image 98 = Some 1"
  "slice example_xattr_image 106 1 = Some ''v''"
  "e_name_offset example_xattr_image 108 0 = Some 124" "e_data_offset example_xattr_image 108 0 = Some 126"
  "c_str example_xattr_image 124 = Some ''a''"
  by (simp_all add: attrs_at_def example_eval example_xattr_image_def)

lemma example_xattr_represents:
  "represents example_xattr_image 8
     (Dir (example_attrs 0x41ED) [(''k'', ''v'')] [(''a'', Reg (example_attrs 0x81A4) [] 300 5)])"
proof -
  have f: "represents example_xattr_image 126 (Reg (example_attrs 0x81A4) [] 300 5)"
    using example_xattr_fields
    by (intro represents.reg) (auto simp: xattrs_at_def table_at_def S_ISREG_def example_attrs_def)
  have x: "xattrs_at example_xattr_image 8 [(''k'', ''v'')]"
    using example_xattr_fields
    by (auto simp: xattrs_at_def table_at_def NODE_SIZE_def intro!: exI [of _ "[98]"])
  have tab: "table_at example_xattr_image 108 [''a''] [126]"
    using example_xattr_fields by (auto simp: table_at_def)
  show ?thesis
    using example_xattr_fields(1,4,5) x tab f
    by (intro represents.dir [of _ _ _ _ _ "[126]"])
      (simp_all add: S_ISDIR_def example_attrs_def xattrs_size_def NODE_SIZE_def ENTRY_SIZE_def)
qed

theorem dir_with_xattrs_hides_entry_witness:
  "get_node_offset example_xattr_image ''/a'' = Some (Inr (NOT_FOUND, 0))"
  using dir_with_xattrs_hides_entry [OF example_xattr_represents] by simp

subsection \<open>Downloading the image\<close>

context chunk_reader
begin

lemma download_ok:
  assumes "inv p" and "full_volume T" and "\<And>n. length (junk n) = n"
    and "volume_bytes T 0 (length img) = img" and "get_u64 img 0 = Some (length img)"
    and "length img \<le> chunks * CHUNK_SIZE_BYTES"
  shows "\<exists>r p'. mfs_download (dp_read read_chunk j) junk p = Some (r, p') \<and>
    inv p' \<and> (\<forall>d. r = Inr d \<longrightarrow> d = img) \<and>
    ((\<forall>i. i * CHUNK_SIZE_BYTES < length img \<longrightarrow> present p i) \<longrightarrow>
       r = Inr img \<and> present p' = present p)"
proof -
  let ?rd = "dp_read read_chunk j"
  have len: "8 \<le> length img" using assms(5) by (auto simp: get_u64_def slice_def split: if_splits)
  have C: "(0::nat) < 2 ^ 32 * CHUNK_SIZE_BYTES" "0 + 8 \<le> chunks * CHUNK_SIZE_BYTES"
    "0 + length img \<le> chunks * CHUNK_SIZE_BYTES"
    using assms(6) len by (simp_all add: CHUNK_SIZE_BYTES_def)
  have vol: "volume_bytes T 0 8 = take 8 img"
    using volume_bytes_add [of T 0 8 "length img - 8"] len assms(4) by (metis append_eq_conv_conj le_add_diff_inverse length_volume_bytes)
  obtain err buf p1 where one: "?rd 0 (junk 8) 8 p = Some (err, buf, p1)" "inv p1"
      "err = OK \<longrightarrow> buf = take 8 img"
      "(\<forall>i. 0 < (i + 1) * CHUNK_SIZE_BYTES \<and> i * CHUNK_SIZE_BYTES < 0 + 8 \<longrightarrow> present p i) \<longrightarrow>
         err = OK \<and> present p1 = present p"
    using data_read_ok [OF assms(1,2) _ C(2,1), of "junk 8" j] assms(3) vol by auto
  obtain err' d p2 where two: "?rd 0 (junk (length img)) (length img) p1 = Some (err', d, p2)"
      "inv p2" "err' = OK \<longrightarrow> d = img"
      "(\<forall>i. 0 < (i + 1) * CHUNK_SIZE_BYTES \<and> i * CHUNK_SIZE_BYTES < 0 + length img \<longrightarrow> present p1 i) \<longrightarrow>
         err' = OK \<and> present p2 = present p1"
    using data_read_ok [OF one(2) assms(2) _ C(3,1), of "junk (length img)" j] assms(3,4) by auto
  have sz: "get_u64 (take 8 img) 0 = Some (length img)"
    using assms(5) by (auto simp: get_u64_def slice_def split: if_splits)
  have "err = OK \<and> present p1 = present p"
    if "\<forall>i. i * CHUNK_SIZE_BYTES < length img \<longrightarrow> present p i"
    using one(4) that len by auto
  then show ?thesis using one two sz by (cases "err = OK"; cases "err' = OK") (auto simp: mfs_download_def)
qed

end

end
