(* ===== verification/Fuse_Callbacks.thy ===== *)
theory Fuse_Callbacks
  imports Meta_Read_Back
begin

text \<open>
  fuse/fuse_main.cc: the callbacks the kernel reaches the mounted volume through. The static
  pointers \<^verbatim>\<open>mfs\<close> and \<^verbatim>\<open>dp\<close> are parameters: the image of the MetaFileSystem (\<open>img\<close>) and
  \<^verbatim>\<open>dp->read\<close> (\<open>rd\<close>) with its state. A C++ exception that leaves a callback is \<open>Inl\<close>.
\<close>

subsection \<open>Results\<close>

definition ENOENT_no :: int where "ENOENT_no = 2"
definition EACCES_no :: int where "EACCES_no = 13"
definition ENOTDIR_no :: int where "ENOTDIR_no = 20"
definition EINVAL_no :: int where "EINVAL_no = 22"
definition ERANGE_no :: int where "ERANGE_no = 34"
definition ENODATA_no :: int where "ENODATA_no = 61"

text \<open>The conversion to a signed 32-bit integer (\<^verbatim>\<open>static_cast<int>\<close>).\<close>

definition to_int :: "nat \<Rightarrow> int" where
  "to_int n = (int n + 2 ^ 31) mod 2 ^ 32 - 2 ^ 31"

lemma to_int_exact [simp]: "n < 2 ^ 31 \<Longrightarrow> to_int n = int n"
  by (simp add: to_int_def)

subsection \<open>The callbacks\<close>

definition distfs_getattr :: "bytes \<Rightarrow> string \<Rightarrow> stat \<Rightarrow> (string + int \<times> stat) option" where
  "distfs_getattr img path st =
     map_option (map_sum id (\<lambda>(err, st'). (if err = OK then 0 else - ENOENT_no, st'))) (get_stat img path st)"

definition distfs_readlink :: "bytes \<Rightarrow> string \<Rightarrow> bytes \<Rightarrow> nat \<Rightarrow> (string + int \<times> bytes) option" where
  "distfs_readlink img path buff buff_size =
     map_option (map_sum id (\<lambda>(err, buff').
       (case err of OK \<Rightarrow> 0 | TOO_LONG \<Rightarrow> 0 | BAD_TYPE \<Rightarrow> - EINVAL_no | _ \<Rightarrow> - ENOENT_no, buff')))
     (get_symlink img path buff_size buff)"

text \<open>
  \<open>filler\<close> is the kernel's function; it gets the number of the next entry and answers with a
  number other than 0 when its buffer is full. The callback passed to \<^verbatim>\<open>get_dir\<close> counts
  \<^verbatim>\<open>offset\<close> up.
\<close>

definition distfs_readdir ::
    "bytes \<Rightarrow> string \<Rightarrow> (string \<Rightarrow> stat \<Rightarrow> nat \<Rightarrow> 'b \<Rightarrow> int \<times> 'b) \<Rightarrow> nat \<Rightarrow> 'b \<Rightarrow> (string + int \<times> 'b) option" where
  "distfs_readdir img path filler offset buffer =
     map_option (map_sum id (\<lambda>(err, _, buffer').
       (case err of OK \<Rightarrow> 0 | BAD_TYPE \<Rightarrow> - ENOTDIR_no | _ \<Rightarrow> - ENOENT_no, buffer')))
     (get_dir img path (wrap 32 (int offset))
       (\<lambda>name st (off, buf). case filler name st (off + 1) buf of (full, buf') \<Rightarrow> (full \<noteq> 0, off + 1, buf'))
       (offset, buffer))"

text \<open>\<open>len\<close> is what the uninitialised variable of the next two callbacks holds.\<close>

definition distfs_getxattr ::
    "bytes \<Rightarrow> string \<Rightarrow> string \<Rightarrow> bytes \<Rightarrow> nat \<Rightarrow> nat \<Rightarrow> (string + int \<times> bytes) option" where
  "distfs_getxattr img path name value_buf size_arg len =
     map_option (map_sum id (\<lambda>(err, value_buf', len').
       (case err of OK \<Rightarrow> to_int len' | TOO_LONG \<Rightarrow> - ERANGE_no | NO_DATA \<Rightarrow> - ENODATA_no
          | _ \<Rightarrow> - ENOENT_no, value_buf')))
     (get_xattr img path name value_buf size_arg len)"

definition distfs_listattr :: "bytes \<Rightarrow> string \<Rightarrow> bytes \<Rightarrow> nat \<Rightarrow> nat \<Rightarrow> (string + int \<times> bytes) option" where
  "distfs_listattr img path list_buf size_arg len =
     map_option (map_sum id (\<lambda>(err, list_buf', len').
       (case err of OK \<Rightarrow> to_int len' | TOO_LONG \<Rightarrow> - ERANGE_no | _ \<Rightarrow> - ENOENT_no, list_buf')))
     (list_xattr img path list_buf size_arg len)"

text \<open>
  The result of \<^verbatim>\<open>distfs_open\<close> with \<^verbatim>\<open>fi->fh\<close>; the two low bits of the flags are \<^verbatim>\<open>O_WRONLY\<close>
  and \<^verbatim>\<open>O_RDWR\<close>.
\<close>

definition distfs_open :: "bytes \<Rightarrow> string \<Rightarrow> nat \<Rightarrow> nat \<Rightarrow> (string + int \<times> nat) option" where
  "distfs_open img path flags fh =
     (if flags mod 4 \<noteq> 0 then Some (Inr (-1, fh))
      else map_option (map_sum id (\<lambda>(err, off). (if err = OK then 0 else - ENOENT_no, off))) (get_offset img path))"

definition distfs_read ::
    "(nat \<Rightarrow> bytes \<Rightarrow> nat \<Rightarrow> 'p \<Rightarrow> (ErrorCode \<times> bytes \<times> 'p) option) \<Rightarrow> bytes \<Rightarrow> nat \<Rightarrow> bytes \<Rightarrow> nat \<Rightarrow> nat \<Rightarrow> 'p \<Rightarrow>
     (int \<times> bytes \<times> 'p) option" where
  "distfs_read rd img fh buf size_arg offset p =
     (case get_file_position_at img fh (0, 0) of
        None \<Rightarrow> None
      | Some (err, off, len) \<Rightarrow>
          if err \<noteq> OK then Some (- EACCES_no, buf, p)
          else let n = min (wrap 64 (int len - int offset)) size_arg
               in case rd (wrap 64 (int off + int offset)) buf n p of
                    None \<Rightarrow> None
                  | Some (err', buf', p') \<Rightarrow> Some (if err' = OK then to_int n else - EACCES_no, buf', p'))"

subsection \<open>Reading ranges of the volume\<close>

abbreviation mounted_read ::
    "codec \<Rightarrow> (nat \<Rightarrow> chunk_store \<Rightarrow> (ErrorCode \<times> chunk_store) option) \<Rightarrow> (nat \<Rightarrow> nat) \<Rightarrow>
     nat \<Rightarrow> bytes \<Rightarrow> nat \<Rightarrow> chunk_store provider \<Rightarrow> (ErrorCode \<times> bytes \<times> chunk_store provider) option" where
  "mounted_read lz4 fetch junk \<equiv> dp_read (provider_read_chunk (cs_read_chunk lz4) fetch) junk"

text \<open>All chunks of a range of the volume are \<open>present\<close>.\<close>

definition addresses_present :: "('p \<Rightarrow> nat \<Rightarrow> bool) \<Rightarrow> 'p \<Rightarrow> nat \<Rightarrow> nat \<Rightarrow> bool" where
  "addresses_present present p a n \<longleftrightarrow> (\<forall>x. a \<le> x \<and> x < a + n \<longrightarrow> present p (x div CHUNK_SIZE_BYTES))"

abbreviation range_present :: "codec \<Rightarrow> chunk_store provider \<Rightarrow> nat \<Rightarrow> nat \<Rightarrow> bool" where
  "range_present lz4 \<equiv> addresses_present (locally_present lz4)"

lemma addresses_present_mono:
  assumes "addresses_present pr p a n" and "a \<le> a'" and "a' + n' \<le> a + n"
  shows "addresses_present pr p a' n'"
  using assms unfolding addresses_present_def by (meson le_trans less_le_trans)

lemma addresses_present_chunks:
  assumes "addresses_present pr p a n" and "0 < n" and "a < (j + 1) * CHUNK_SIZE_BYTES" and "j * CHUNK_SIZE_BYTES < a + n"
  shows "pr p j"
proof -
  let ?x = "max a (j * CHUNK_SIZE_BYTES)"
  have "?x div CHUNK_SIZE_BYTES = j" using assms(3) by (intro div_nat_eqI) (auto simp: algebra_simps)
  moreover have "a \<le> ?x \<and> ?x < a + n" using assms(2,4) by simp
  ultimately show ?thesis using assms(1) unfolding addresses_present_def by metis
qed

context chunk_reader
begin

lemma read_range_ok:
  assumes "inv p" and "full_volume T" and "n \<le> length buf" and "a + n \<le> chunks * CHUNK_SIZE_BYTES"
  shows "\<exists>err buf' p'. dp_read read_chunk junk a buf n p = Some (err, buf', p') \<and> inv p' \<and>
    (err = OK \<longrightarrow> buf' = volume_bytes T a n @ drop n buf) \<and> (addresses_present present p a n \<longrightarrow> err = OK)"
proof (cases "n = 0")
  case True
  then show ?thesis using assms(1) by (simp add: dp_read_def dp_loop.simps volume_bytes_def)
next
  case False
  then have "a < 2 ^ 32 * CHUNK_SIZE_BYTES" using assms(4) chunks_bytes by linarith
  from data_read_ok [OF assms this, of junk] show ?thesis
    using addresses_present_chunks [of present p a n] False by blast
qed

end

lemma volume_bytes_part:
  assumes "k + n \<le> len"
  shows "volume_bytes T (a + k) n = take n (drop k (volume_bytes T a len))"
proof -
  have "volume_bytes T a len = volume_bytes T a k @ volume_bytes T (a + k) n @ volume_bytes T (a + k + n) (len - k - n)"
    using volume_bytes_add [of T a k "len - k"] volume_bytes_add [of T "a + k" n "len - k - n"] assms by simp
  then show ?thesis by simp
qed

lemma read_of_node:
  assumes "represents img fh (Reg a xs pos len)" and "pos + offset < 2 ^ 64"
  shows "distfs_read rd img fh buf k offset p =
    (let n = min (wrap 64 (int len - int offset)) k
     in case rd (pos + offset) buf n p of
          None \<Rightarrow> None
        | Some (err, buf', p') \<Rightarrow> Some (if err = OK then to_int n else - EACCES_no, buf', p'))"
  using assms(1)
proof (cases rule: represents.cases)
  case reg
  then show ?thesis
    using wrap_add [OF assms(2)] by (simp add: distfs_read_def get_file_position_at_def attrs_at_def)
qed

context chunk_reader
begin

lemma open_read_ok:
  assumes "represents img 8 t" and "plain_dirs t" and "CHR 0x00 \<notin> set path"
    and "tree_lookup t (components [] path) = Some (Reg a xs pos len)" and "flags mod 4 = 0"
    and "inv p" and "full_volume T"
    and "volume_bytes T pos len = content" and "pos + len \<le> chunks * CHUNK_SIZE_BYTES"
    and "offset \<le> len" and "k \<le> length buf" and "k < 2 ^ 31"
  shows "\<exists>fh. distfs_open img (CHR ''/'' # path) flags fh0 = Some (Inr (0, fh)) \<and>
    (\<exists>r buf' p'. distfs_read (dp_read read_chunk junk) img fh buf k offset p = Some (r, buf', p') \<and>
       inv p' \<and>
       (r = - EACCES_no \<or>
        r = int (min (len - offset) k) \<and> buf' = take k (drop offset content) @ drop (min (len - offset) k) buf) \<and>
       (addresses_present present p pos len \<longrightarrow> r \<noteq> - EACCES_no))"
proof -
  obtain fh where o: "get_node_offset img (CHR ''/'' # path) = Some (Inr (OK, fh))" "represents img fh (Reg a xs pos len)"
    using walk_ok [OF assms(1,2), of "[]" path] assms(3,4) by (auto simp: get_node_offset_def)
  define n where "n = min (len - offset) k"
  have C: "(2::nat) ^ 32 * CHUNK_SIZE_BYTES < 2 ^ 64" by (simp add: CHUNK_SIZE_BYTES_def)
  then have b: "pos + offset < 2 ^ 64" "len < 2 ^ 64" using assms(9,10) chunks_bytes by linarith+
  have w: "wrap 64 (int len - int offset) = len - offset" by (rule wrap_diff [OF assms(10) b(2)])
  have range: "n \<le> length buf" "(pos + offset) + n \<le> chunks * CHUNK_SIZE_BYTES" "offset + n \<le> len" "n < 2 ^ 31"
    using assms(9-12) by (simp_all add: n_def)
  obtain err buf' p' where r: "dp_read read_chunk junk (pos + offset) buf n p = Some (err, buf', p')"
      "inv p'" "err = OK \<longrightarrow> buf' = volume_bytes T (pos + offset) n @ drop n buf"
      "addresses_present present p (pos + offset) n \<longrightarrow> err = OK"
    using read_range_ok [OF assms(6,7) range(1,2), of junk] by blast
  have "length content = len" using assms(8) by auto
  then have "volume_bytes T (pos + offset) n = take k (drop offset content)"
    using volume_bytes_part [OF range(3), of T pos] assms(8) by (simp add: n_def min_def)
  moreover have "distfs_read (dp_read read_chunk junk) img fh buf k offset p =
      Some (if err = OK then int n else - EACCES_no, buf', p')"
    unfolding read_of_node [OF o(2) b(1)] w Let_def n_def [symmetric] using r(1) range(4) by simp
  moreover have "addresses_present present p pos len \<longrightarrow> err = OK"
    using r(4) addresses_present_mono [of present p pos len "pos + offset" n] range(3) by auto
  ultimately show ?thesis
    using o(1) assms(5) r(2,3) by (auto simp: distfs_open_def get_offset_def n_def EACCES_no_def)
qed

end

text \<open>
  Opening a file of the image by its path for reading and reading from it through the
  kernel's interface gives the bytes of the file from the offset on, as many as asked for and as
  there are, or the error EACCES when a chunk could not be had; if the chunks of the file are in
  the local store, the read succeeds.
\<close>

theorem fuse_open_read_returns_file:
  assumes "represents img 8 t" and "plain_dirs t" and "CHR 0x00 \<notin> set path"
    and "tree_lookup t (components [] path) = Some (Reg a xs pos len)" and "flags mod 4 = 0"
    and "provider_ready lz4 T fetch p" and "full_volume T"
    and "volume_bytes T pos len = content" and "pos + len \<le> 2 ^ 32 * CHUNK_SIZE_BYTES"
    and "offset \<le> len" and "k \<le> length buf" and "k < 2 ^ 31"
  shows "\<exists>fh. distfs_open img (CHR ''/'' # path) flags fh0 = Some (Inr (0, fh)) \<and>
    (\<exists>r buf' p'. distfs_read (mounted_read lz4 fetch junk) img fh buf k offset p = Some (r, buf', p') \<and>
       provider_ready lz4 T fetch p' \<and>
       (r = - EACCES_no \<or>
        r = int (min (len - offset) k) \<and> buf' = take k (drop offset content) @ drop (min (len - offset) k) buf) \<and>
       (range_present lz4 p pos len \<longrightarrow> r \<noteq> - EACCES_no))"
  by (rule provider_reader.open_read_ok [OF assms])

text \<open>A volume of one chunk: the example image, and behind it the file \<open>a\<close> with the text \<open>hello\<close>.\<close>

definition mounted_volume :: bytes where
  "mounted_volume = example_image @ replicate 10 (CHR 0x00) @ ''hello''"

lemma mounted_volume_facts:
  "length mounted_volume = 305" "length mounted_volume \<le> CHUNK_SIZE_BYTES"
  "length mounted_volume + 4 \<le> CHUNK_SIZE_BYTES"
proof -
  have "length example_image = 290" by (simp add: example_eval)
  then show "length mounted_volume = 305" "length mounted_volume \<le> CHUNK_SIZE_BYTES"
    "length mounted_volume + 4 \<le> CHUNK_SIZE_BYTES"
    by (simp_all add: mounted_volume_def CHUNK_SIZE_BYTES_def)
qed

lemma mounted_volume_file: "volume_bytes [0 \<mapsto> padded_chunk mounted_volume] 300 5 = ''hello''"
proof -
  have "length example_image = 290" by (simp add: example_eval)
  moreover have "volume_bytes [0 \<mapsto> padded_chunk mounted_volume] (0 + 300) 5 =
      take 5 (drop 300 (volume_bytes [0 \<mapsto> padded_chunk mounted_volume] 0 (length mounted_volume)))"
    by (rule volume_bytes_part) (simp add: mounted_volume_facts)
  ultimately show ?thesis
    unfolding padded_chunk_bytes [OF mounted_volume_facts(2)] by (simp add: mounted_volume_def)
qed

lemma mounted_volume_ready:
  obtains s where "provider_ready zero_codec [0 \<mapsto> padded_chunk mounted_volume] (\<lambda>i s. Some (NOT_FOUND, s)) (provider_new s 2)"
    and "\<forall>a n. a + n \<le> CHUNK_SIZE_BYTES \<longrightarrow> range_present zero_codec (provider_new s 2) a n"
    and "full_volume [0 \<mapsto> padded_chunk mounted_volume]"
proof -
  obtain s where s: "provider_ready zero_codec [0 \<mapsto> padded_chunk mounted_volume] (\<lambda>i s. Some (NOT_FOUND, s)) (provider_new s 2)"
      "locally_present zero_codec (provider_new s 2) 0"
    using padded_volume_ready [OF mounted_volume_facts(3)] by blast
  have "range_present zero_codec (provider_new s 2) a n" if "a + n \<le> CHUNK_SIZE_BYTES" for a n
    unfolding addresses_present_def using that s(2) by simp
  moreover have "full_volume [0 \<mapsto> padded_chunk mounted_volume]"
    using mounted_volume_facts(2) by (simp add: full_volume_def)
  ultimately show thesis using s(1) that by blast
qed

theorem fuse_open_read_returns_file_witness:
  "\<exists>s fh p'. distfs_open example_image ''/a'' 0 0 = Some (Inr (0, fh)) \<and>
     distfs_read (mounted_read zero_codec (\<lambda>i s. Some (NOT_FOUND, s)) (\<lambda>_. 0)) example_image fh ''xxxxxx'' 6 1
       (provider_new s 2) = Some (4, ''elloxx'', p')"
proof -
  obtain s where r: "provider_ready zero_codec [0 \<mapsto> padded_chunk mounted_volume] (\<lambda>i s. Some (NOT_FOUND, s)) (provider_new s 2)"
    and l: "\<forall>a n. a + n \<le> CHUNK_SIZE_BYTES \<longrightarrow> range_present zero_codec (provider_new s 2) a n"
    and full: "full_volume [0 \<mapsto> padded_chunk mounted_volume]"
    by (rule mounted_volume_ready)
  have l: "range_present zero_codec (provider_new s 2) 300 5" by (rule l [rule_format]) (simp add: CHUNK_SIZE_BYTES_def)
  have look: "tree_lookup example_tree (components [] ''a'') = Some (Reg (example_attrs 0x81A4) [(''k'', ''v'')] 300 5)"
    by (simp add: example_tree_def)
  have C: "300 + 5 \<le> (2::nat) ^ 32 * CHUNK_SIZE_BYTES" by (simp add: CHUNK_SIZE_BYTES_def)
  show ?thesis
    using fuse_open_read_returns_file [OF example_represents example_plain _ look _ r full mounted_volume_file C,
        of 0 1 6 "''xxxxxx''" 0 "\<lambda>_. 0"] l
    by auto
qed

text \<open>
  C37: Reading behind the end of a file gives bytes of the volume that are not part of the file,
  as if they were: the difference of the length and the offset wraps.
\<close>

theorem fuse_read_past_end_leaks:
  assumes "represents img fh (Reg a xs pos len)" and "len < offset" and "offset < 2 ^ 63" and "k < 2 ^ 31"
    and "provider_ready lz4 T fetch p" and "full_volume T" and "k \<le> length buf"
    and "pos + offset + k \<le> 2 ^ 32 * CHUNK_SIZE_BYTES" and "range_present lz4 p (pos + offset) k"
  shows "\<exists>p'. distfs_read (mounted_read lz4 fetch junk) img fh buf k offset p =
    Some (int k, volume_bytes T (pos + offset) k @ drop k buf, p')"
proof -
  have "(2::nat) ^ 32 * CHUNK_SIZE_BYTES < 2 ^ 64" by (simp add: CHUNK_SIZE_BYTES_def)
  then have b: "pos + offset < 2 ^ 64" using assms(8) by linarith
  have "wrap 64 (int len - int offset) = nat (int len - int offset + 2 ^ 64)"
    by (rule wrap_negative) (use assms(2,3) in auto)
  then have "k \<le> wrap 64 (int len - int offset)" using assms(2-4) by simp
  then have n: "min (wrap 64 (int len - int offset)) k = k" by simp
  show ?thesis
    using provider_reader.read_range_ok [OF assms(5-8), of junk] assms(4,9)
    unfolding read_of_node [OF assms(1) b] n Let_def by auto
qed

theorem fuse_read_past_end_leaks_witness:
  "\<exists>s p'. distfs_read (mounted_read zero_codec (\<lambda>i s. Some (NOT_FOUND, s)) (\<lambda>_. 0)) example_image 116 ''xx'' 2 6
     (provider_new s 2) = Some (2, volume_bytes [0 \<mapsto> padded_chunk mounted_volume] 306 2, p')"
proof -
  obtain s where r: "provider_ready zero_codec [0 \<mapsto> padded_chunk mounted_volume] (\<lambda>i s. Some (NOT_FOUND, s)) (provider_new s 2)"
    and l: "\<forall>a n. a + n \<le> CHUNK_SIZE_BYTES \<longrightarrow> range_present zero_codec (provider_new s 2) a n"
    and full: "full_volume [0 \<mapsto> padded_chunk mounted_volume]"
    by (rule mounted_volume_ready)
  have l: "range_present zero_codec (provider_new s 2) (300 + 6) 2" by (rule l [rule_format]) (simp add: CHUNK_SIZE_BYTES_def)
  have f: "represents example_image 116 (Reg (example_attrs 0x81A4) [(''k'', ''v'')] 300 5)"
    by (rule example_file_represents)
  have C: "300 + 6 + 2 \<le> (2::nat) ^ 32 * CHUNK_SIZE_BYTES" by (simp add: CHUNK_SIZE_BYTES_def)
  show ?thesis
    using fuse_read_past_end_leaks [OF f _ _ _ r full _ C l, of "''xx''" "\<lambda>_. 0"] by auto
qed

end
