(* ===== verification/Chunk_Builder.thy ===== *)
theory Chunk_Builder
  imports Compressed_Store
begin

text \<open>
  data/chunk_builder.cc: the volume under construction is a sequence of chunks of
  \<open>CHUNK_SIZE_BYTES\<close>, of which one is in memory and the others are in a CompressedStore. The
  operations of the store are a parameter (\<open>ops\<close>), so that the lemmas rest on the interface
  \<open>chunk_map\<close>. The tree that is packed is a world of its own, apart from the directory of
  the store.
\<close>

subsection \<open>The builder\<close>

record 's chunk_builder =
  store :: 's
  built :: bool
  pos :: nat
  buff :: bytes
  read_buffer :: bytes
  chunk_num :: nat

text \<open>The constructor; \<open>junk\<close> and \<open>junk'\<close> are what the two new buffers happen to hold.\<close>

definition cb_new :: "'s \<Rightarrow> bytes \<Rightarrow> bytes \<Rightarrow> 's chunk_builder" where
  "cb_new st junk junk' =
     \<lparr>store = st, built = False, pos = 0, buff = junk, read_buffer = junk', chunk_num = 0\<rparr>"

definition move_pos ::
    "'s chunk_ops \<Rightarrow> nat \<Rightarrow> 's chunk_builder \<Rightarrow> (ErrorCode \<times> 's chunk_builder) option" where
  "move_pos ops new_offset b =
     (if new_offset div CHUNK_SIZE_BYTES \<noteq> chunk_num b then do {
        (err, st) \<leftarrow> write_op ops (chunk_num b) (buff b) CHUNK_SIZE_BYTES (store b);
        if err \<noteq> OK then Some (err, b\<lparr>store := st\<rparr>)
        else do {
          let num = wrap 32 (int (new_offset div CHUNK_SIZE_BYTES));
          if num \<in> avail_op ops st then do {
            (err, buf, x, st') \<leftarrow> read_op ops num (buff b) 0 st;
            if err \<noteq> OK then Some (err, b\<lparr>store := st', buff := buf, chunk_num := num\<rparr>)
            else Some (OK, b\<lparr>store := st', buff := buf, chunk_num := num, pos := new_offset\<rparr>)
          }
          else Some (OK, b\<lparr>store := st, chunk_num := num, pos := new_offset\<rparr>)
        }
      }
      else Some (OK, b\<lparr>pos := new_offset\<rparr>))"

function write_data ::
    "'s chunk_ops \<Rightarrow> bytes \<Rightarrow> nat \<Rightarrow> 's chunk_builder \<Rightarrow> (ErrorCode \<times> 's chunk_builder) option" where
  "write_data ops data len b =
     (if len > 0 then
        let curr = pos b mod CHUNK_SIZE_BYTES;
            next = min (CHUNK_SIZE_BYTES - curr) len
        in case Option.bind (slice data 0 next) (blit (buff b) curr) of
             None \<Rightarrow> None
           | Some buf \<Rightarrow>
               let p = wrap 64 (int (pos b) + int next)
               in case move_pos ops p (b\<lparr>buff := buf, pos := p\<rparr>) of
                    None \<Rightarrow> None
                  | Some (err, b') \<Rightarrow>
                      if err \<noteq> OK then Some (err, b') else write_data ops (drop next data) (len - next) b'
      else Some (OK, b))"
  by pat_completeness auto
termination
  by (relation "measure (\<lambda>(ops, data, len, b). len)") auto

declare write_data.simps [simp del]

definition reserve ::
    "'s chunk_ops \<Rightarrow> nat \<Rightarrow> 's chunk_builder \<Rightarrow> (ErrorCode \<times> nat \<times> 's chunk_builder) option" where
  "reserve ops len b = do {
     (err, b') \<leftarrow> move_pos ops (wrap 64 (int (pos b) + int len)) b;
     Some (err, pos b, b')
   }"

definition cb_write ::
    "'s chunk_ops \<Rightarrow> nat \<Rightarrow> bytes \<Rightarrow> nat \<Rightarrow> 's chunk_builder \<Rightarrow> (ErrorCode \<times> 's chunk_builder) option" where
  "cb_write ops offset data len b = do {
     (err, b') \<leftarrow> move_pos ops offset b;
     if err \<noteq> OK then Some (err, b') else write_data ops data len b'
   }"

definition build :: "'s chunk_ops \<Rightarrow> 's chunk_builder \<Rightarrow> (ErrorCode \<times> 's chunk_builder) option" where
  "build ops b = do {
     (err, st) \<leftarrow> write_op ops (chunk_num b) (buff b) CHUNK_SIZE_BYTES (store b);
     Some (err, if err = OK then b\<lparr>store := st, built := True\<rparr> else b\<lparr>store := st\<rparr>)
   }"

text \<open>The destructor: an unfinished volume is deleted.\<close>

definition cb_destroy :: "'s chunk_ops \<Rightarrow> 's chunk_builder \<Rightarrow> 's" where
  "cb_destroy ops b =
     (if built b then store b
      else fold (\<lambda>i st. snd (remove_op ops i st)) (sorted_list_of_set (avail_op ops (store b))) (store b))"

lemma sys_read_progress:
  assumes "sys_read rest n w = (res, got, rest', w')"
  shows "length rest' \<le> length rest \<and> (0 < res \<longrightarrow> length rest' < length rest)"
proof -
  obtain c v where cv: "pop_choice w = (c, v)" by fastforce
  have "transfer c (min n (length rest)) \<le> length rest"
    using transfer_le [of c "min n (length rest)"] by simp
  then show ?thesis using assms by (auto simp: sys_read_def cv Let_def split: if_splits)
qed

lemma read_loop_progress:
  "read_loop wd rest m buf off sz w = Some (res, rest', m', buf', sz', w') \<Longrightarrow>
     length rest' \<le> length rest \<and> (0 < res \<longrightarrow> length rest' < length rest)"
proof (induction wd rest m buf off sz w rule: read_loop.induct)
  case (1 wd rest m buf off sz w)
  obtain r got rest1 w1 where r: "sys_read rest m w = (r, got, rest1, w1)"
    by (cases "sys_read rest m w") auto
  note p = sys_read_progress [OF r]
  obtain buf1 where b: "blit buf off got = Some buf1"
    using 1(2) by (cases "blit buf off got") (auto simp: read_loop.simps [of wd rest m] r)
  show ?case
  proof (cases "0 < wrap 32 (int m - r) \<and> 0 < r")
    case True
    then have "read_loop wd rest1 (wrap 32 (int m - r)) buf1 (off + nat r) (wrap wd (int sz + r)) w1 =
        Some (res, rest', m', buf', sz', w')"
      using 1(2) by (simp add: read_loop.simps [of wd rest m] r b Let_def)
    from 1(1) [OF r [symmetric] refl refl b refl refl True this] p True
    show ?thesis by auto
  next
    case False
    then show ?thesis using 1(2) p by (auto simp: read_loop.simps [of wd rest m] r b Let_def)
  qed
qed

text \<open>
  The outer loop of \<^verbatim>\<open>add_file\<close>: fill the read buffer, append what was read to the volume,
  until the end of the file or an error. The result holds the value of \<open>res\<close>, the error code
  of \<open>write_data\<close> and \<open>*length\<close>.
\<close>

function add_loop ::
    "'s chunk_ops \<Rightarrow> bytes \<Rightarrow> nat \<Rightarrow> 's chunk_builder \<Rightarrow> world \<Rightarrow>
     (int \<times> ErrorCode \<times> nat \<times> 's chunk_builder \<times> world) option" where
  "add_loop ops fd len b w =
     (case read_loop 64 fd CHUNK_SIZE_BYTES (read_buffer b) 0 len w of
        None \<Rightarrow> None
      | Some (res, fd', max_size, buf, len', w') \<Rightarrow>
          (case write_data ops buf (wrap 32 (int CHUNK_SIZE_BYTES - int max_size)) (b\<lparr>read_buffer := buf\<rparr>) of
             None \<Rightarrow> None
           | Some (err, b') \<Rightarrow>
               if err \<noteq> OK then Some (res, err, len', b', w')
               else if 0 < res then add_loop ops fd' len' b' w'
               else Some (res, OK, len', b', w')))"
  by pat_completeness auto
termination
  by (relation "measure (\<lambda>(ops, fd, len, b, w). length fd)") (auto dest: read_loop_progress)

declare add_loop.simps [simp del]

definition add_file ::
    "'s chunk_ops \<Rightarrow> string \<Rightarrow> 's chunk_builder \<Rightarrow> world \<Rightarrow>
     (ErrorCode \<times> nat \<times> nat \<times> 's chunk_builder \<times> world) option" where
  "add_file ops path b w =
     (case sys_open_rd path w of
        (Inl e, w') \<Rightarrow> Some (if e = ENOENT then NOT_FOUND else ACCESS_DENIED, 0, 0, b, w')
      | (Inr fd, w') \<Rightarrow> do {
          (res, err, len, b', w'') \<leftarrow> add_loop ops fd 0 b w';
          if err \<noteq> OK then Some (err, 0, len, b', w'')
          else if res = -1 then Some (ACCESS_DENIED, 0, len, b', w'')
          else Some (OK, pos b, len, b', w'')
        })"

subsection \<open>The volume\<close>

text \<open>
  The byte the volume has at an address: that of the chunk in memory, or of the chunk in the
  store. \<open>patched v p d v'\<close>: \<open>v'\<close> is \<open>v\<close> with \<open>d\<close> written at \<open>p\<close>; addresses that had no
  byte yet may have any.
\<close>

definition volume :: "('s \<Rightarrow> nat \<rightharpoonup> bytes) \<Rightarrow> 's chunk_builder \<Rightarrow> nat \<rightharpoonup> byte" where
  "volume lk b a =
     (if a div CHUNK_SIZE_BYTES = chunk_num b then Some (buff b ! (a mod CHUNK_SIZE_BYTES))
      else map_option (\<lambda>d. d ! (a mod CHUNK_SIZE_BYTES)) (lk (store b) (a div CHUNK_SIZE_BYTES)))"

definition patched :: "(nat \<rightharpoonup> byte) \<Rightarrow> nat \<Rightarrow> bytes \<Rightarrow> (nat \<rightharpoonup> byte) \<Rightarrow> bool" where
  "patched v p d v' \<longleftrightarrow>
     (\<forall>a. if p \<le> a \<and> a < p + length d then v' a = Some (d ! (a - p))
          else v a \<noteq> None \<longrightarrow> v' a = v a)"

lemma patched_append:
  assumes "patched v p d v'" and "patched v' (p + length d) e v''"
  shows "patched v p (d @ e) v''"
  unfolding patched_def
proof
  fix a
  note one = assms(1) [unfolded patched_def, THEN spec, of a]
  note two = assms(2) [unfolded patched_def, THEN spec, of a]
  show "if p \<le> a \<and> a < p + length (d @ e) then v'' a = Some ((d @ e) ! (a - p))
        else v a \<noteq> None \<longrightarrow> v'' a = v a"
    using one two by (auto simp: nth_append split: if_splits)
qed

lemma patched_Nil: "patched v p [] v' \<longleftrightarrow> (\<forall>a. v a \<noteq> None \<longrightarrow> v' a = v a)"
  by (auto simp: patched_def)

text \<open>The complete chunks of a string of bytes, and what is left.\<close>

function full_chunks :: "bytes \<Rightarrow> bytes list" where
  "full_chunks xs =
     (if length xs < CHUNK_SIZE_BYTES then [] else take CHUNK_SIZE_BYTES xs # full_chunks (drop CHUNK_SIZE_BYTES xs))"
  by pat_completeness auto
termination
  by (relation "measure length") (auto simp: CHUNK_SIZE_BYTES_def)

function tail_part :: "bytes \<Rightarrow> bytes" where
  "tail_part xs = (if length xs < CHUNK_SIZE_BYTES then xs else tail_part (drop CHUNK_SIZE_BYTES xs))"
  by pat_completeness auto
termination
  by (relation "measure length") (auto simp: CHUNK_SIZE_BYTES_def)

declare full_chunks.simps [simp del] tail_part.simps [simp del]

lemma chunks_short:
  "length xs < CHUNK_SIZE_BYTES \<Longrightarrow> full_chunks xs = []"
  "length xs < CHUNK_SIZE_BYTES \<Longrightarrow> tail_part xs = xs"
  by (simp_all add: full_chunks.simps [of xs] tail_part.simps [of xs])

lemma chunks_long:
  "CHUNK_SIZE_BYTES \<le> length xs \<Longrightarrow>
     full_chunks xs = take CHUNK_SIZE_BYTES xs # full_chunks (drop CHUNK_SIZE_BYTES xs)"
  "CHUNK_SIZE_BYTES \<le> length xs \<Longrightarrow> tail_part xs = tail_part (drop CHUNK_SIZE_BYTES xs)"
  by (simp_all add: full_chunks.simps [of xs] tail_part.simps [of xs])

lemma chunks_append:
  "full_chunks (xs @ ys) = full_chunks xs @ full_chunks (tail_part xs @ ys) \<and>
   tail_part (xs @ ys) = tail_part (tail_part xs @ ys)"
proof (induction xs rule: full_chunks.induct)
  case (1 xs)
  show ?case
  proof (cases "length xs < CHUNK_SIZE_BYTES")
    case True
    then show ?thesis by (simp add: chunks_short)
  next
    case False
    then show ?thesis using 1 by (simp add: chunks_long)
  qed
qed

subsection \<open>Correctness over any chunk map\<close>

definition cb_shape ::
    "('s \<Rightarrow> nat \<rightharpoonup> bytes) \<Rightarrow> ('s \<Rightarrow> bool) \<Rightarrow> ('s \<Rightarrow> nat \<Rightarrow> bool) \<Rightarrow> nat \<Rightarrow> 's chunk_builder \<Rightarrow> bool" where
  "cb_shape lk good fits K b \<longleftrightarrow>
     good (store b) \<and> fits (store b) K \<and> K \<le> 2 ^ 32 \<and> chunk_num b < K \<and>
     length (buff b) = CHUNK_SIZE_BYTES \<and> length (read_buffer b) = CHUNK_SIZE_BYTES \<and>
     (\<forall>i d. lk (store b) i = Some d \<longrightarrow> length d = CHUNK_SIZE_BYTES)"

definition cb_inv ::
    "('s \<Rightarrow> nat \<rightharpoonup> bytes) \<Rightarrow> ('s \<Rightarrow> bool) \<Rightarrow> ('s \<Rightarrow> nat \<Rightarrow> bool) \<Rightarrow> nat \<Rightarrow> 's chunk_builder \<Rightarrow> bool" where
  "cb_inv lk good fits K b \<longleftrightarrow> cb_shape lk good fits K b \<and> pos b div CHUNK_SIZE_BYTES = chunk_num b"

text \<open>The content of the buffer after a move to address \<open>p\<close>.\<close>

definition window :: "('s \<Rightarrow> nat \<rightharpoonup> bytes) \<Rightarrow> 's chunk_builder \<Rightarrow> nat \<Rightarrow> bytes" where
  "window lk b p =
     (if p div CHUNK_SIZE_BYTES = chunk_num b then buff b
      else case lk (store b) (p div CHUNK_SIZE_BYTES) of None \<Rightarrow> buff b | Some d \<Rightarrow> d)"

lemma take_length_append: "length xs = n \<Longrightarrow> take n (xs @ ys) = xs"
  by simp

text \<open>
  The numbers of the chunks there are, and that the chunks from the position of one builder to that
  of a later one have been added.
\<close>

definition held :: "('s \<Rightarrow> nat \<rightharpoonup> bytes) \<Rightarrow> 's chunk_builder \<Rightarrow> nat set" where
  "held lk b = insert (chunk_num b) (dom (lk (store b)))"

definition grown :: "('s \<Rightarrow> nat \<rightharpoonup> bytes) \<Rightarrow> 's chunk_builder \<Rightarrow> 's chunk_builder \<Rightarrow> bool" where
  "grown lk b b' \<longleftrightarrow> held lk b' = held lk b \<union> {pos b div CHUNK_SIZE_BYTES..pos b' div CHUNK_SIZE_BYTES}"

lemma grown_refl: "cb_inv lk good fits K b \<Longrightarrow> grown lk b b"
  by (auto simp: grown_def held_def cb_inv_def)

lemma grown_trans:
  assumes "grown lk b b1" and "grown lk b1 b2" and "pos b \<le> pos b1" and "pos b1 \<le> pos b2"
  shows "grown lk b b2"
proof -
  let ?a = "pos b div CHUNK_SIZE_BYTES" and ?b = "pos b1 div CHUNK_SIZE_BYTES" and ?c = "pos b2 div CHUNK_SIZE_BYTES"
  have "?a \<le> ?b" "?b \<le> ?c" using assms(3,4) by (simp_all add: div_le_mono)
  then have "{?a..?b} \<union> {?b..?c} = {?a..?c}" by auto
  then show ?thesis using assms(1,2) by (auto simp: grown_def)
qed

text \<open>A step within the chunk or to the next one.\<close>

lemma grown_step:
  assumes "cb_inv lk good fits K b" and "held lk b' = insert (pos b' div CHUNK_SIZE_BYTES) (held lk b)"
    and "pos b \<le> pos b'" and "pos b' \<le> pos b + CHUNK_SIZE_BYTES"
  shows "grown lk b b'"
proof -
  let ?a = "pos b div CHUNK_SIZE_BYTES" and ?b = "pos b' div CHUNK_SIZE_BYTES"
  have "pos b' div CHUNK_SIZE_BYTES \<le> (pos b + CHUNK_SIZE_BYTES) div CHUNK_SIZE_BYTES" by (rule div_le_mono [OF assms(4)])
  then have "?b \<le> Suc ?a" using chunk_size_pos by (simp add: div_add_self2)
  moreover have "?a \<le> ?b" by (rule div_le_mono [OF assms(3)])
  ultimately have "{?a..?b} = {?a, ?b}" by auto
  then show ?thesis using assms(1,2) by (auto simp: grown_def held_def cb_inv_def)
qed

text \<open>Writing into the chunk in memory patches the volume.\<close>

lemma volume_blit:
  assumes "pos b div CHUNK_SIZE_BYTES = chunk_num b" and "length (buff b) = CHUNK_SIZE_BYTES"
    and "pos b mod CHUNK_SIZE_BYTES + length d \<le> CHUNK_SIZE_BYTES"
    and "blit (buff b) (pos b mod CHUNK_SIZE_BYTES) d = Some buf"
  shows "patched (volume lk b) (pos b) d (volume lk (b\<lparr>buff := buf, pos := q\<rparr>))"
  unfolding patched_def
proof
  fix a
  let ?C = CHUNK_SIZE_BYTES
  have nth: "buf ! (a mod ?C) = (if pos b mod ?C \<le> a mod ?C \<and> a mod ?C < pos b mod ?C + length d
      then d ! (a mod ?C - pos b mod ?C) else buff b ! (a mod ?C))"
    using blit_nth [OF assms(4), of "a mod ?C"] assms(2) by simp
  show "if pos b \<le> a \<and> a < pos b + length d
        then volume lk (b\<lparr>buff := buf, pos := q\<rparr>) a = Some (d ! (a - pos b))
        else volume lk b a \<noteq> None \<longrightarrow> volume lk (b\<lparr>buff := buf, pos := q\<rparr>) a = volume lk b a"
  proof (cases "pos b \<le> a \<and> a < pos b + length d")
    case True
    then obtain k where k: "a = pos b + k" "k < length d" by (metis add_less_cancel_left le_Suc_ex)
    have "a div ?C = chunk_num b" "a mod ?C = pos b mod ?C + k"
      using address_in_chunk [OF assms(1,3), of a] True k(1) by simp_all
    then show ?thesis using True k nth by (simp add: volume_def)
  next
    case False
    have "buf ! (a mod ?C) = buff b ! (a mod ?C)" if "a div ?C = chunk_num b"
    proof -
      have "a = chunk_num b * ?C + a mod ?C" "pos b = chunk_num b * ?C + pos b mod ?C"
        using that assms(1) div_mult_mod_eq by metis+
      then show ?thesis using False by (auto simp: nth)
    qed
    then show ?thesis unfolding if_not_P [OF False] by (simp add: volume_def)
  qed
qed

context chunk_map
begin

abbreviation (input) cb_ops :: "(nat \<Rightarrow> 's \<Rightarrow> ErrorCode \<times> 's) \<Rightarrow> 's chunk_ops" where
  "cb_ops rm \<equiv> \<lparr>read_op = rd, write_op = wr, avail_op = avail, remove_op = rm\<rparr>"

lemma move_pos_ok:
  assumes b: "cb_shape lookup inv room K b" and p: "p div CHUNK_SIZE_BYTES < K"
    and st: "p div CHUNK_SIZE_BYTES \<noteq> chunk_num b \<Longrightarrow> storable (buff b)"
  shows "\<exists>b'. move_pos (cb_ops rm) p b = Some (OK, b') \<and> cb_inv lookup inv room K b' \<and> pos b' = p \<and>
    buff b' = window lookup b p \<and> read_buffer b' = read_buffer b \<and> built b' = built b \<and>
    patched (volume lookup b) p [] (volume lookup b') \<and> held lookup b' = insert (p div CHUNK_SIZE_BYTES) (held lookup b)"
proof (cases "p div CHUNK_SIZE_BYTES = chunk_num b")
  case True
  then show ?thesis
    using b by (simp add: move_pos_def cb_inv_def cb_shape_def window_def patched_Nil volume_def held_def)
next
  case False
  let ?n = "p div CHUNK_SIZE_BYTES"
  have s: "inv (store b)" "room (store b) K" "chunk_num b < K" "chunk_num b < 2 ^ 32" "?n < 2 ^ 32"
    and len: "length (buff b) = CHUNK_SIZE_BYTES"
    and all: "\<And>i d. lookup (store b) i = Some d \<Longrightarrow> length d = CHUNK_SIZE_BYTES"
    using b p by (auto simp: cb_shape_def)
  obtain st1 where w: "wr (chunk_num b) (buff b) CHUNK_SIZE_BYTES (store b) = Some (OK, st1)"
      "inv st1" "room st1 K" "lookup st1 = (lookup (store b))(chunk_num b \<mapsto> buff b)"
    using write_room [OF s(1-4), of CHUNK_SIZE_BYTES "buff b"] st [OF False] len by auto
  have num: "wrap 32 (int ?n) = ?n" by (rule wrap_of_nat [OF s(5)])
  have av: "?n \<in> avail st1 \<longleftrightarrow> lookup (store b) ?n \<noteq> None"
    using avail_dom [OF w(2)] False by (auto simp: w(4) dom_def)
  show ?thesis
  proof (cases "lookup (store b) ?n")
    case None
    then have "move_pos (cb_ops rm) p b = Some (OK, b\<lparr>store := st1, chunk_num := ?n, pos := p\<rparr>)"
      using False w(1) av num by (simp add: move_pos_def Let_def)
    then show ?thesis
      using b p False None w by (auto simp: cb_inv_def cb_shape_def window_def patched_Nil volume_def held_def)
  next
    case (Some d)
    then have "lookup st1 ?n = Some d" using False by (simp add: w(4))
    from read_ok [OF w(2) this, of "buff b" 0] obtain st2 where
      r: "rd ?n (buff b) 0 st1 = Some (OK, d, CHUNK_SIZE_BYTES, st2)" "inv st2" "lookup st2 = lookup st1"
        "room st2 = room st1"
      using len all [OF Some] by auto
    have "move_pos (cb_ops rm) p b = Some (OK, b\<lparr>store := st2, buff := d, chunk_num := ?n, pos := p\<rparr>)"
      using False w(1) r(1) av num Some by (simp add: move_pos_def Let_def)
    then show ?thesis
      using b p False Some w r all [OF Some]
      by (auto simp: cb_inv_def cb_shape_def window_def patched_Nil volume_def held_def)
  qed
qed

lemma write_data_ok:
  assumes "cb_inv lookup inv room K b" and "len \<le> length data" and "pos b + len < K * CHUNK_SIZE_BYTES"
    and "\<forall>c \<in> set (full_chunks (take (pos b mod CHUNK_SIZE_BYTES) (buff b) @ take len data)). storable c"
  shows "\<exists>b'. write_data (cb_ops rm) data len b = Some (OK, b') \<and> cb_inv lookup inv room K b' \<and>
    pos b' = pos b + len \<and> built b' = built b \<and>
    patched (volume lookup b) (pos b) (take len data) (volume lookup b') \<and>
    take (pos b' mod CHUNK_SIZE_BYTES) (buff b') =
      tail_part (take (pos b mod CHUNK_SIZE_BYTES) (buff b) @ take len data) \<and> grown lookup b b'"
  using assms
proof (induction len arbitrary: data b rule: less_induct)
  case (less len)
  let ?C = CHUNK_SIZE_BYTES
  let ?curr = "pos b mod ?C"
  have curr: "?curr < ?C" by simp
  have shape: "cb_shape lookup inv room K b" and pos: "pos b div ?C = chunk_num b"
    and lb: "length (buff b) = ?C" and K: "K \<le> 2 ^ 32"
    using less.prems(1) by (auto simp: cb_inv_def cb_shape_def)
  show ?case
  proof (cases "len = 0")
    case True
    have "length (take ?curr (buff b)) < ?C" using curr lb by simp
    then show ?thesis
      using less.prems(1) True by (simp add: write_data.simps patched_Nil chunks_short grown_refl)
  next
    case False
    define nxt where "nxt = min (?C - ?curr) len"
    have nxt: "0 < nxt" "nxt \<le> len" "nxt \<le> length data" "?curr + nxt \<le> ?C"
      using False curr less.prems(2) unfolding nxt_def by linarith+
    define d where "d = take nxt data"
    have d: "length d = nxt" "slice data 0 nxt = Some d" using nxt(3) by (simp_all add: d_def slice_def)
    obtain buf where buf: "blit (buff b) ?curr d = Some buf" "buf = take ?curr (buff b) @ d @ drop (?curr + nxt) (buff b)"
      using nxt(4) d(1) lb by (simp add: blit_def)
    have "K * ?C \<le> 2 ^ 32 * ?C" using K by simp
    then have q64: "wrap 64 (int (pos b) + int nxt) = pos b + nxt"
      using less.prems(3) nxt(2) by (intro wrap_add) (simp add: CHUNK_SIZE_BYTES_def)
    let ?b1 = "b\<lparr>buff := buf, pos := pos b + nxt\<rparr>"
    have lbuf: "length buf = ?C" using blit_length [OF buf(1)] lb by simp
    have shape1: "cb_shape lookup inv room K ?b1" using shape lbuf by (simp add: cb_shape_def)
    have v1: "patched (volume lookup b) (pos b) d (volume lookup ?b1)"
      using nxt(4) d(1) by (intro volume_blit [OF pos lb _ buf(1)]) simp
    let ?all = "take ?curr (buff b) @ take len data"
    have full: "buf = take ?C ?all \<and> drop ?C ?all = drop nxt (take len data) \<and> ?C \<le> length ?all \<and>
        (pos b + nxt) mod ?C = 0"
      if "?curr + nxt = ?C"
    proof -
      have e: "?C - ?curr = nxt" "length (take ?curr (buff b)) = ?curr" using that curr lb by simp_all
      have "(pos b + nxt) mod ?C = (?curr + nxt) mod ?C" by (simp add: mod_add_left_eq)
      moreover have "drop (?curr + nxt) (buff b) = []" using that lb by simp
      ultimately show ?thesis
        using that nxt(2) less.prems(2) e unfolding buf(2) d_def
        by (simp only: take_append drop_append e take_all order_refl) (simp add: lb min_absorb1 e(2))
    qed
    have part: "nxt = len \<and> length ?all < ?C \<and> (pos b + nxt) div ?C = chunk_num b \<and>
        (pos b + nxt) mod ?C = ?curr + nxt"
      if "?curr + nxt \<noteq> ?C"
    proof -
      have n: "nxt = len" "?curr + nxt < ?C" using that nxt(4) by (auto simp: nxt_def)
      have "(pos b + nxt) div ?C = chunk_num b \<and> (pos b + nxt) mod ?C = ?curr + nxt"
        using address_in_chunk [OF pos, of "Suc nxt" "pos b + nxt"] n(2) by simp
      then show ?thesis using n lb less.prems(2) by simp
    qed
    have st1: "storable (buff ?b1)" if "(pos b + nxt) div ?C \<noteq> chunk_num ?b1"
    proof -
      have "?curr + nxt = ?C" using part that by auto
      from full [OF this] show ?thesis using less.prems(4) by (simp add: chunks_long(1))
    qed
    have "(pos b + nxt) div ?C < K" using less.prems(3) nxt(2) by (simp add: less_mult_imp_div_less)
    from move_pos_ok [OF shape1 this st1, of rm] obtain b2 where
      m: "move_pos (cb_ops rm) (pos b + nxt) ?b1 = Some (OK, b2)" "cb_inv lookup inv room K b2"
        "pos b2 = pos b + nxt" "buff b2 = window lookup ?b1 (pos b + nxt)" "built b2 = built b"
        "patched (volume lookup ?b1) (pos b + nxt) [] (volume lookup b2)"
        "held lookup b2 = insert ((pos b + nxt) div ?C) (held lookup ?b1)"
      by auto
    have g1: "grown lookup b b2"
      by (rule grown_step [OF less.prems(1)]) (use m(3,7) nxt(4) in \<open>simp_all add: held_def\<close>)
    have v2: "patched (volume lookup b) (pos b) d (volume lookup b2)"
      using patched_append [OF v1, of "[]"] m(6) d(1) by simp
    have rest: "full_chunks (take (pos b2 mod ?C) (buff b2) @ take (len - nxt) (drop nxt data)) =
          (if ?curr + nxt = ?C then full_chunks (drop ?C ?all) else []) \<and>
        tail_part (take (pos b2 mod ?C) (buff b2) @ take (len - nxt) (drop nxt data)) = tail_part ?all"
    proof (cases "?curr + nxt = ?C")
      case True
      have f: "drop ?C ?all = drop nxt (take len data)" "?C \<le> length ?all" "(pos b + nxt) mod ?C = 0"
        using full [OF True] by blast+
      have eq: "take (pos b2 mod ?C) (buff b2) @ take (len - nxt) (drop nxt data) = drop ?C ?all"
        by (simp only: m(3) f(1,3) take_0 append_Nil drop_take)
      show ?thesis
        unfolding eq chunks_long(2) [OF f(2)] using True by (simp only: if_True refl simp_thms)
    next
      case False
      note pt = part [OF False]
      have q: "(pos b + nxt) div ?C = chunk_num b" "(pos b + nxt) mod ?C = ?curr + nxt" using pt by blast+
      have lp: "length (take ?curr (buff b) @ d) = ?curr + nxt" using curr lb d(1) by simp
      have "buff b2 = buf" by (simp add: m(4) window_def q(1))
      then have "take (pos b2 mod ?C) (buff b2) = take (?curr + nxt) ((take ?curr (buff b) @ d) @ drop (?curr + nxt) (buff b))"
        by (simp only: m(3) q(2) buf(2) append_assoc)
      also have "\<dots> = take ?curr (buff b) @ d" by (rule take_length_append [OF lp])
      also have "\<dots> = ?all" by (simp only: d_def pt [THEN conjunct1])
      finally have "take (pos b2 mod ?C) (buff b2) = ?all" .
      then show ?thesis using pt False by (simp add: chunks_short)
    qed
    have sub: "\<forall>c \<in> set (full_chunks (take (pos b2 mod ?C) (buff b2) @ take (len - nxt) (drop nxt data))). storable c"
      using rest less.prems(4) full chunks_long(1) [of ?all] by (auto split: if_splits)
    have "len - nxt < len" "len - nxt \<le> length (drop nxt data)" "pos b2 + (len - nxt) < K * ?C"
      using nxt less.prems(2,3) m(3) by auto
    from less.IH [OF this(1) m(2) this(2,3) sub] obtain b' where
      ih: "write_data (cb_ops rm) (drop nxt data) (len - nxt) b2 = Some (OK, b')"
        "cb_inv lookup inv room K b'" "pos b' = pos b2 + (len - nxt)" "built b' = built b2"
        "patched (volume lookup b2) (pos b2) (take (len - nxt) (drop nxt data)) (volume lookup b')"
        "take (pos b' mod ?C) (buff b') =
           tail_part (take (pos b2 mod ?C) (buff b2) @ take (len - nxt) (drop nxt data))" "grown lookup b2 b'"
      by blast
    have g: "grown lookup b b'" by (rule grown_trans [OF g1 ih(7)]) (simp_all add: m(3) ih(3))
    have "take len data = d @ take (len - nxt) (drop nxt data)"
      using nxt(2) take_add [of nxt "len - nxt" data] by (simp add: d_def)
    then have "patched (volume lookup b) (pos b) (take len data) (volume lookup b')"
      using patched_append [OF v2, of "take (len - nxt) (drop nxt data)"] ih(5) m(3) d(1) by simp
    moreover have "write_data (cb_ops rm) data len b = Some (OK, b')"
      using False d(2) buf(1) q64 m(1) ih(1)
      by (simp add: write_data.simps [of _ data len b] nxt_def [symmetric] Let_def)
    ultimately show ?thesis using ih m nxt(2) rest g by auto
  qed
qed

lemma cb_write_ok:
  assumes b: "cb_inv lookup inv room K b" and len: "len \<le> length data" "p + len < K * CHUNK_SIZE_BYTES"
    and st: "p div CHUNK_SIZE_BYTES \<noteq> chunk_num b \<Longrightarrow> storable (buff b)"
    and chunks: "\<forall>c \<in> set (full_chunks (take (p mod CHUNK_SIZE_BYTES) (window lookup b p) @ take len data)).
      storable c"
  shows "\<exists>b'. cb_write (cb_ops rm) p data len b = Some (OK, b') \<and> cb_inv lookup inv room K b' \<and>
    pos b' = p + len \<and> built b' = built b \<and>
    patched (volume lookup b) p (take len data) (volume lookup b') \<and>
    held lookup b' = held lookup b \<union> {p div CHUNK_SIZE_BYTES..(p + len) div CHUNK_SIZE_BYTES}"
proof -
  have shape: "cb_shape lookup inv room K b" using b by (simp add: cb_inv_def)
  have "p div CHUNK_SIZE_BYTES < K" using len(2) by (simp add: less_mult_imp_div_less)
  from move_pos_ok [OF shape this st, of rm] obtain b1 where
    m: "move_pos (cb_ops rm) p b = Some (OK, b1)" "cb_inv lookup inv room K b1" "pos b1 = p"
      "buff b1 = window lookup b p" "built b1 = built b" "patched (volume lookup b) p [] (volume lookup b1)"
      "held lookup b1 = insert (p div CHUNK_SIZE_BYTES) (held lookup b)"
    by auto
  have "\<forall>c \<in> set (full_chunks (take (pos b1 mod CHUNK_SIZE_BYTES) (buff b1) @ take len data)). storable c"
    "pos b1 + len < K * CHUNK_SIZE_BYTES"
    using chunks len(2) m(3,4) by simp_all
  from write_data_ok [OF m(2) len(1) this(2,1), of rm] obtain b' where
    w: "write_data (cb_ops rm) data len b1 = Some (OK, b')" "cb_inv lookup inv room K b'"
      "pos b' = p + len" "built b' = built b" "patched (volume lookup b1) p (take len data) (volume lookup b')"
      "grown lookup b1 b'"
    using m(3,5) by auto
  have "p div CHUNK_SIZE_BYTES \<in> {p div CHUNK_SIZE_BYTES..(p + len) div CHUNK_SIZE_BYTES}" by (simp add: div_le_mono)
  then have "held lookup b' = held lookup b \<union> {p div CHUNK_SIZE_BYTES..(p + len) div CHUNK_SIZE_BYTES}"
    using m(7) w(6) unfolding grown_def m(3) w(3) by auto
  moreover have "patched (volume lookup b) p (take len data) (volume lookup b')"
    using patched_append [OF m(6), of "take len data"] w(5) by simp
  ultimately show ?thesis using m(1) w by (auto simp: cb_write_def)
qed

lemma reserve_ok:
  assumes b: "cb_inv lookup inv room K b" and len: "pos b + len < K * CHUNK_SIZE_BYTES"
    and st: "(pos b + len) div CHUNK_SIZE_BYTES \<noteq> chunk_num b \<Longrightarrow> storable (buff b)"
  shows "\<exists>b'. reserve (cb_ops rm) len b = Some (OK, pos b, b') \<and> cb_inv lookup inv room K b' \<and>
    pos b' = pos b + len \<and> patched (volume lookup b) (pos b) [] (volume lookup b') \<and>
    held lookup b' = insert ((pos b + len) div CHUNK_SIZE_BYTES) (held lookup b)"
proof -
  have shape: "cb_shape lookup inv room K b" using b by (simp add: cb_inv_def)
  have "K * CHUNK_SIZE_BYTES \<le> 2 ^ 32 * CHUNK_SIZE_BYTES" using shape by (simp add: cb_shape_def)
  then have w: "wrap 64 (int (pos b) + int len) = pos b + len"
    using len by (intro wrap_add) (simp add: CHUNK_SIZE_BYTES_def)
  have "(pos b + len) div CHUNK_SIZE_BYTES < K" using len by (simp add: less_mult_imp_div_less)
  from move_pos_ok [OF shape this st, of rm] show ?thesis
    by (auto simp: reserve_def w patched_Nil)
qed

lemma build_ok:
  assumes b: "cb_inv lookup inv room K b" and st: "storable (buff b)"
  shows "\<exists>b'. build (cb_ops rm) b = Some (OK, b') \<and> built b' \<and> cb_inv lookup inv room K b' \<and>
    (\<forall>a x. volume lookup b a = Some x \<longrightarrow>
       (\<exists>d. lookup (store b') (a div CHUNK_SIZE_BYTES) = Some d \<and> d ! (a mod CHUNK_SIZE_BYTES) = x)) \<and>
    dom (lookup (store b')) = held lookup b"
proof -
  have s: "inv (store b)" "room (store b) K" "chunk_num b < K" "chunk_num b < 2 ^ 32"
    and len: "length (buff b) = CHUNK_SIZE_BYTES"
    using b by (auto simp: cb_inv_def cb_shape_def)
  obtain st1 where w: "wr (chunk_num b) (buff b) CHUNK_SIZE_BYTES (store b) = Some (OK, st1)"
      "inv st1" "room st1 K" "lookup st1 = (lookup (store b))(chunk_num b \<mapsto> buff b)"
    using write_room [OF s, of CHUNK_SIZE_BYTES "buff b"] st len by auto
  have "cb_inv lookup inv room K (b\<lparr>store := st1, built := True\<rparr>)"
    using b w(2-4) len by (auto simp: cb_inv_def cb_shape_def)
  then show ?thesis using w by (auto simp: build_def volume_def held_def split: if_splits)
qed

lemma add_loop_ok:
  assumes "cb_inv lookup inv room K b" and "no_fault w" and "len + length fd + CHUNK_SIZE_BYTES < 2 ^ 64"
    and "pos b + length fd < K * CHUNK_SIZE_BYTES"
    and "\<forall>c \<in> set (full_chunks (take (pos b mod CHUNK_SIZE_BYTES) (buff b) @ fd)). storable c"
  shows "\<exists>b' w'. add_loop (cb_ops rm) fd len b w = Some (0, OK, len + length fd, b', w') \<and>
    cb_inv lookup inv room K b' \<and> pos b' = pos b + length fd \<and> built b' = built b \<and>
    patched (volume lookup b) (pos b) fd (volume lookup b') \<and> no_fault w' \<and> same_fs w w' \<and> grown lookup b b'"
  using assms
proof (induction "length fd" arbitrary: fd len b w rule: less_induct)
  case less
  let ?C = CHUNK_SIZE_BYTES
  let ?n = "min ?C (length fd)"
  have rb: "0 + ?C \<le> length (read_buffer b)" using less.prems(1) by (simp add: cb_inv_def cb_shape_def)
  have l64: "len + ?C < 2 ^ 64" using less.prems(3) by simp
  obtain res w1 where r: "read_loop 64 fd ?C (read_buffer b) 0 len w =
      Some (res, drop ?n fd, ?C - ?n, take ?n fd @ drop ?n (read_buffer b), len + ?n, w1)"
      "no_fault w1" "same_fs w w1" "0 \<le> res" "res = 0 \<longleftrightarrow> length fd < ?C"
    using read_loop_ok [OF less.prems(2) chunk_size_pos chunk_size_lt_32 rb l64, of fd] by (auto simp: Let_def)
  define buf where "buf = take ?n fd @ drop ?n (read_buffer b)"
  have lbuf: "length buf = ?C" "?n \<le> length buf" "take ?n buf = take ?n fd"
    using less.prems(1) by (auto simp: buf_def cb_inv_def cb_shape_def)
  let ?b0 = "b\<lparr>read_buffer := buf\<rparr>"
  have b0: "cb_inv lookup inv room K ?b0"
    using less.prems(1) lbuf(1) by (simp add: cb_inv_def cb_shape_def)
  have n32: "wrap 32 (int ?n) = ?n" using wrap_of_nat [of ?n 32] chunk_size_lt_32 by simp
  let ?head = "take (pos b mod ?C) (buff b)"
  have cut: "full_chunks (?head @ fd) = full_chunks (?head @ take ?n fd) @
      full_chunks (tail_part (?head @ take ?n fd) @ drop ?n fd)"
    using chunks_append [of "?head @ take ?n fd" "drop ?n fd"] by (simp only: append_assoc append_take_drop_id)
  have p0: "pos ?b0 + ?n < K * ?C" using less.prems(4) by simp
  have st0: "\<forall>c \<in> set (full_chunks (take (pos ?b0 mod ?C) (buff ?b0) @ take ?n buf)). storable c"
    using less.prems(5) unfolding lbuf(3) cut by simp
  from write_data_ok [OF b0 lbuf(2) p0 st0, of rm] obtain b1 where
    wd: "write_data (cb_ops rm) buf ?n ?b0 = Some (OK, b1)" "cb_inv lookup inv room K b1"
      "pos b1 = pos b + ?n" "built b1 = built b" "patched (volume lookup ?b0) (pos b) (take ?n fd) (volume lookup b1)"
      "take (pos b1 mod ?C) (buff b1) = tail_part (?head @ take ?n fd)" "grown lookup b b1"
    unfolding lbuf(3) by (auto simp: grown_def held_def)
  have v0: "volume lookup ?b0 = volume lookup b" by (simp add: volume_def fun_eq_iff)
  have step: "add_loop (cb_ops rm) fd len b w =
      (if 0 < res then add_loop (cb_ops rm) (drop ?n fd) (len + ?n) b1 w1
       else Some (res, OK, len + ?n, b1, w1))"
    using r(1) wd(1) unfolding add_loop.simps [of _ fd] buf_def [symmetric] by (simp add: n32)
  show ?case
  proof (cases "res = 0")
    case True
    then have "?n = length fd" using r(5) by simp
    then show ?thesis using True step wd(2-5,7) r(2,3) v0 by auto
  next
    case False
    then have ge: "?C \<le> length fd" "0 < res" using r(4,5) by auto
    have "length fd - ?C < length fd" using ge(1) chunk_size_pos by linarith
    then have n: "?n = ?C" "0 < res" "length (drop ?C fd) < length fd" "length fd = ?C + length (drop ?C fd)"
      using ge by auto
    have "\<exists>b' w'. add_loop (cb_ops rm) (drop ?C fd) (len + ?C) b1 w1 =
        Some (0, OK, (len + ?C) + length (drop ?C fd), b', w') \<and> cb_inv lookup inv room K b' \<and>
        pos b' = pos b1 + length (drop ?C fd) \<and> built b' = built b1 \<and>
        patched (volume lookup b1) (pos b1) (drop ?C fd) (volume lookup b') \<and> no_fault w' \<and> same_fs w1 w' \<and> grown lookup b1 b'"
    proof (rule less.hyps [OF n(3) wd(2) r(2)])
      show "len + ?C + length (drop ?C fd) + ?C < 2 ^ 64" using less.prems(3) n(4) by linarith
      show "pos b1 + length (drop ?C fd) < K * ?C" using less.prems(4) n(1,4) wd(3) by linarith
      show "\<forall>c \<in> set (full_chunks (take (pos b1 mod ?C) (buff b1) @ drop ?C fd)). storable c"
        using less.prems(5) unfolding cut wd(6) n(1) by simp
    qed
    then obtain b' w' where ih: "add_loop (cb_ops rm) (drop ?C fd) (len + ?C) b1 w1 =
        Some (0, OK, len + length fd, b', w')" "cb_inv lookup inv room K b'" "pos b' = pos b + length fd"
        "built b' = built b" "patched (volume lookup b1) (pos b + ?C) (drop ?C fd) (volume lookup b')" "no_fault w'" "same_fs w1 w'" "grown lookup b1 b'"
      using n(1,4) wd(3,4) by (auto simp only: add.assoc)
    have g: "grown lookup b b'" by (rule grown_trans [OF wd(7) ih(8)]) (use ih(3) wd(3) in simp_all)
    have l: "length (take ?C fd) = ?C" using n(1) by simp
    have "patched (volume lookup b) (pos b) (take ?C fd @ drop ?C fd) (volume lookup b')"
      using patched_append [of "volume lookup b" "pos b" "take ?C fd" "volume lookup b1" "drop ?C fd"] wd(5) ih(5)
      unfolding v0 n(1) l by blast
    then show ?thesis
      using ih n(1,2) step same_fs_trans [OF r(3) ih(7)] g by auto
  qed
qed

text \<open>A readable file is appended; one that does not exist is reported and nothing changes.\<close>

lemma add_file_ok:
  assumes "cb_inv lookup inv room K b" and "no_fault w" and "files w path = Some d"
    and "pos b + length d < K * CHUNK_SIZE_BYTES"
    and "\<forall>c \<in> set (full_chunks (take (pos b mod CHUNK_SIZE_BYTES) (buff b) @ d)). storable c"
  shows "\<exists>b' w'. add_file (cb_ops rm) path b w = Some (OK, pos b, length d, b', w') \<and>
    cb_inv lookup inv room K b' \<and> pos b' = pos b + length d \<and> built b' = built b \<and> no_fault w' \<and> same_fs w w' \<and>
    patched (volume lookup b) (pos b) d (volume lookup b') \<and> grown lookup b b'"
proof -
  obtain w1 where o: "sys_open_rd path w = (Inr d, w1)" "no_fault w1" "same_fs w w1"
    using sys_open_rd_ok [OF assms(2), of path] assms(3) by (metis option.simps(5))
  have "K * CHUNK_SIZE_BYTES \<le> 2 ^ 32 * CHUNK_SIZE_BYTES"
    using assms(1) by (simp add: cb_inv_def cb_shape_def)
  then have l: "0 + length d + CHUNK_SIZE_BYTES < 2 ^ 64" using assms(4) by (simp add: CHUNK_SIZE_BYTES_def)
  obtain b' w' where "add_loop (cb_ops rm) d 0 b w1 = Some (0, OK, 0 + length d, b', w')"
      "cb_inv lookup inv room K b'" "pos b' = pos b + length d" "built b' = built b" "no_fault w'" "same_fs w1 w'"
      "patched (volume lookup b) (pos b) d (volume lookup b')" "grown lookup b b'"
    using add_loop_ok [OF assms(1) o(2) l assms(4,5), of rm] by blast
  then show ?thesis using o(1) same_fs_trans [OF o(3)] by (auto simp: add_file_def)
qed

lemma add_file_missing:
  assumes "no_fault w" and "files w path = None"
  shows "\<exists>w'. add_file ops path b w = Some (NOT_FOUND, 0, 0, b, w') \<and> no_fault w' \<and> same_fs w w'"
proof -
  obtain w' where "sys_open_rd path w = (Inl ENOENT, w')" "no_fault w'" "same_fs w w'"
    using sys_open_rd_ok [OF assms(1), of path] assms(2) by (metis option.simps(4))
  then show ?thesis by (simp add: add_file_def)
qed

end

subsection \<open>Reading past the read buffer\<close>

lemma write_data_overread:
  "length data < len \<Longrightarrow>
     write_data ops data len b = None \<or> (\<exists>err b'. write_data ops data len b = Some (err, b') \<and> err \<noteq> OK)"
proof (induction ops data len b rule: write_data.induct)
  case (1 ops data len b)
  define nxt where "nxt = min (CHUNK_SIZE_BYTES - pos b mod CHUNK_SIZE_BYTES) len"
  have step: "write_data ops data len b =
      (case Option.bind (slice data 0 nxt) (blit (buff b) (pos b mod CHUNK_SIZE_BYTES)) of None \<Rightarrow> None
       | Some buf \<Rightarrow>
           (case move_pos ops (wrap 64 (int (pos b) + int nxt)) (b\<lparr>buff := buf, pos := wrap 64 (int (pos b) + int nxt)\<rparr>) of
              None \<Rightarrow> None
            | Some (err, b') \<Rightarrow>
                if err \<noteq> OK then Some (err, b') else write_data ops (drop nxt data) (len - nxt) b'))"
    unfolding write_data.simps [of ops data len b] Let_def nxt_def using 1(2) by simp
  show ?case
  proof (cases "Option.bind (slice data 0 nxt) (blit (buff b) (pos b mod CHUNK_SIZE_BYTES))")
    case None
    then show ?thesis by (simp add: step)
  next
    case buf: (Some buf)
    then have le: "nxt \<le> length data" by (cases "slice data 0 nxt") (auto simp: slice_def split: if_splits)
    show ?thesis
    proof (cases "move_pos ops (wrap 64 (int (pos b) + int nxt)) (b\<lparr>buff := buf, pos := wrap 64 (int (pos b) + int nxt)\<rparr>)")
      case None
      then show ?thesis by (simp add: step buf)
    next
      case (Some r)
      obtain err b' where r: "r = (err, b')" by fastforce
      show ?thesis
      proof (cases "err = OK")
        case True
        have "length (drop nxt data) < len - nxt" using 1(2) le by simp
        moreover have "0 < len" using 1(2) by simp
        ultimately have "write_data ops (drop nxt data) (len - nxt) b' = None \<or>
            (\<exists>err b''. write_data ops (drop nxt data) (len - nxt) b' = Some (err, b'') \<and> err \<noteq> OK)"
          using 1(1) [OF _ refl nxt_def buf refl Some [unfolded r] refl] True by simp
        then show ?thesis using True by (simp add: step buf Some r)
      next
        case False
        then show ?thesis by (simp add: step buf Some r)
      qed
    qed
  qed
qed

lemma add_file_first_read_fails:
  assumes o: "sys_open_rd path w = (Inr fd, w1)" and c: "choices w1 = Fault # cs"
  shows "add_file ops path b w =
    (case write_data ops (read_buffer b) (2 ^ 32 - 1) b of None \<Rightarrow> None
     | Some (err, b') \<Rightarrow>
         Some (if err = OK then ACCESS_DENIED else err, 0, 2 ^ 64 - 1, b', w1\<lparr>choices := cs\<rparr>))"
proof -
  let ?C = CHUNK_SIZE_BYTES
  have r: "sys_read fd ?C w1 = (-1, [], fd, w1\<lparr>choices := cs\<rparr>)"
    by (simp add: sys_read_def pop_choice_def c)
  have bl: "blit (read_buffer b) 0 [] = Some (read_buffer b)" by (simp add: blit_def)
  have m: "wrap 32 (int ?C - - 1) = Suc ?C" "wrap 64 (int 0 + - 1) = 2 ^ 64 - 1"
    "wrap 32 (int ?C - int (Suc ?C)) = 2 ^ 32 - 1"
    by (simp_all add: wrap_def CHUNK_SIZE_BYTES_def)
  have l: "read_loop 64 fd ?C (read_buffer b) 0 0 w1 =
      Some (-1, fd, Suc ?C, read_buffer b, 2 ^ 64 - 1, w1\<lparr>choices := cs\<rparr>)"
    unfolding read_loop.simps [of 64 fd] r bl prod.case option.case Let_def m by simp
  show ?thesis
    unfolding add_file_def o prod.case sum.case add_loop.simps [of ops fd 0] l option.case m
    by (auto split: option.splits)
qed

subsection \<open>The builder over a CompressedStore\<close>

definition cs_ops :: "codec \<Rightarrow> chunk_store chunk_ops" where
  "cs_ops lz4 = \<lparr>read_op = cs_read_chunk lz4, write_op = cs_write_chunk lz4, avail_op = cs_available,
     remove_op = cs_remove_chunk\<rparr>"

abbreviation builder_inv :: "codec \<Rightarrow> nat \<Rightarrow> chunk_store chunk_builder \<Rightarrow> bool" where
  "builder_inv lz4 \<equiv> cb_inv (cs_lookup lz4) (cs_inv lz4) store_room"

abbreviation builder_volume :: "codec \<Rightarrow> chunk_store chunk_builder \<Rightarrow> nat \<rightharpoonup> byte" where
  "builder_volume lz4 \<equiv> volume (cs_lookup lz4)"

lemma new_builder_inv:
  assumes "codec_ok lz4" "short_base base" "0 < sz" "Fault \<notin> set cs" "sz \<le> 2 ^ 32"
    and "length junk = CHUNK_SIZE_BYTES" "length junk' = CHUNK_SIZE_BYTES"
  shows "builder_inv lz4 sz (cb_new (fresh_store base sz cs) junk junk')"
  using fresh_cs_inv [OF assms(1-4)] assms
  by (simp add: cb_inv_def cb_shape_def cb_new_def store_room_def lru_new_def lru_ids_def)

lemmas builder_new_inv = new_builder_inv [OF zero_codec_ok]

lemma remove_all:
  assumes "store_bounded s" and "set is \<subseteq> {..<2 ^ 32}"
  shows "store_bounded (fold (\<lambda>i st. snd (cs_remove_chunk i st)) is s) \<and>
    store_lookup (fold (\<lambda>i st. snd (cs_remove_chunk i st)) is s) = store_lookup s |` (- set is)"
  using assms
proof (induction "is" arbitrary: s)
  case Nil
  then show ?case by simp
next
  case (Cons i "is")
  let ?t = "snd (store_remove_chunk i s)"
  have "i < 2 ^ 32" using Cons.prems(2) by simp
  from store_remove_recency [OF Cons.prems(1) this] have
    t: "store_bounded ?t" "store_lookup ?t = (store_lookup s)(i := None)"
    by (auto split: prod.splits)
  have "set is \<subseteq> {..<2 ^ 32}" using Cons.prems(2) by simp
  from Cons.IH [OF t(1) this] show ?case
    unfolding t(2) by (auto simp: cs_remove_chunk_def restrict_map_def fun_eq_iff)
qed

lemma destroy_unbuilt:
  assumes "cs_inv lz4 (store b)" and "\<not> built b"
  shows "cs_inv lz4 (cb_destroy (cs_ops lz4) b) \<and> cs_lookup lz4 (cb_destroy (cs_ops lz4) b) = Map.empty \<and>
    cs_available (cb_destroy (cs_ops lz4) b) = {}"
proof -
  let ?s = "store b" and ?is = "sorted_list_of_set (cs_available (store b))"
  have s: "codec_ok lz4" "store_bounded ?s" using assms(1) by (auto simp: cs_inv_def coded_inv_def)
  have sub: "in_store ?s \<subseteq> {..<2 ^ 32}" and dom: "in_store ?s = dom (store_lookup ?s)"
    using s(2) by (auto simp: store_bounded_def store_inv_def store_inv_but_def store_wf_def)
  have fin: "finite (in_store ?s)" using sub finite_subset by blast
  then have ids: "set ?is = in_store ?s" by (simp add: cs_available_def store_available_def)
  let ?t = "fold (\<lambda>i st. snd (cs_remove_chunk i st)) ?is ?s"
  have "store_bounded ?t \<and> store_lookup ?t = store_lookup ?s |` (- set ?is)"
    by (rule remove_all [OF s(2)]) (use ids sub in simp)
  moreover have "store_lookup ?s |` (- set ?is) = Map.empty"
    unfolding ids dom by (auto simp: restrict_map_def fun_eq_iff)
  ultimately have t: "store_bounded ?t" "store_lookup ?t = Map.empty" by simp_all
  then have "in_store ?t = {}" by (auto simp: store_bounded_def store_inv_def store_inv_but_def)
  moreover have "cb_destroy (cs_ops lz4) b = ?t" using assms(2) by (simp add: cb_destroy_def cs_ops_def)
  ultimately show ?thesis
    using s t by (simp add: cs_inv_def coded_inv_def cs_lookup_def coded_lookup_def cs_available_def
        store_available_def fun_eq_iff)
qed

lemma new_buffer_nth: "a < CHUNK_SIZE_BYTES \<Longrightarrow> new_buffer ! a = CHR 0x00"
  by (simp add: new_buffer_def)

lemma volume_new: "a < CHUNK_SIZE_BYTES \<Longrightarrow> volume lk (cb_new st junk junk') a = Some (junk ! a)"
  by (simp add: volume_def cb_new_def)

subsection \<open>Properties\<close>

text \<open>
  C24: \<open>write\<close> at any offset puts exactly the given bytes there: it succeeds, the position
  is behind the data, and every other address that had a byte keeps it, also across chunk
  boundaries, as long as the volume fits the store and every chunk it has to flush can be
  compressed into a chunk.
\<close>

theorem builder_write_patches_volume:
  assumes "builder_inv lz4 K b" and "len \<le> length data" and "p + len < K * CHUNK_SIZE_BYTES"
    and "p div CHUNK_SIZE_BYTES \<noteq> chunk_num b \<Longrightarrow> cs_storable lz4 (buff b)"
    and "\<forall>c \<in> set (full_chunks (take (p mod CHUNK_SIZE_BYTES) (window (cs_lookup lz4) b p) @ take len data)).
      cs_storable lz4 c"
  shows "\<exists>b'. cb_write (cs_ops lz4) p data len b = Some (OK, b') \<and> builder_inv lz4 K b' \<and>
    pos b' = p + len \<and> built b' = built b \<and>
    patched (builder_volume lz4 b) p (take len data) (builder_volume lz4 b')"
  using compressed_files.cb_write_ok [OF assms(1-3) _ assms(5), of cs_remove_chunk] assms(4) unfolding cs_ops_def by blast

lemma zero_chunk_storable: "cs_storable zero_codec new_buffer"
proof -
  have "strip_zeros new_buffer = []" by (simp add: strip_zeros_def new_buffer_def)
  then show ?thesis
    using chunk_size_lt_32 by (simp add: cs_storable_def coded_storable_def zero_codec_def zero_compress_def)
      (simp add: CHUNK_SIZE_BYTES_def)
qed

theorem builder_write_patches_volume_witness:
  "\<exists>b'. cb_write (cs_ops zero_codec) (CHUNK_SIZE_BYTES + 3) ''abc'' 3
          (cb_new (fresh_store ''/s'' 4 []) new_buffer new_buffer) = Some (OK, b') \<and>
        builder_volume zero_codec b' (CHUNK_SIZE_BYTES + 4) = Some CHR ''b'' \<and>
        builder_volume zero_codec b' 7 = Some (CHR 0x00)"
proof -
  let ?C = CHUNK_SIZE_BYTES and ?b = "cb_new (fresh_store ''/s'' 4 []) new_buffer new_buffer"
  have inv: "builder_inv zero_codec 4 ?b" by (rule builder_new_inv) (simp_all add: short_base_def)
  have m: "(?C + 3) mod ?C = 3" "3 \<le> length ''abc''" "?C + 3 + 3 < 4 * ?C" "7 < ?C"
    by (simp_all add: CHUNK_SIZE_BYTES_def)
  have fc: "full_chunks (take 3 w @ take 3 ''abc'') = []" for w :: bytes
    by (rule chunks_short(1)) (simp add: CHUNK_SIZE_BYTES_def min_def)
  have st: "cs_storable zero_codec (buff ?b)" by (simp add: cb_new_def zero_chunk_storable)
  obtain b' where b': "cb_write (cs_ops zero_codec) (?C + 3) ''abc'' 3 ?b = Some (OK, b')"
    and v: "patched (builder_volume zero_codec ?b) (?C + 3) ''abc'' (builder_volume zero_codec b')"
    using builder_write_patches_volume [OF inv m(2,3) st] unfolding m(1) fc by auto
  have "builder_volume zero_codec ?b 7 = Some (CHR 0x00)"
    by (simp add: volume_new [OF m(4)] new_buffer_nth [OF m(4)])
  then show ?thesis
    using b' v [unfolded patched_def, THEN spec, of "?C + 4"] v [unfolded patched_def, THEN spec, of 7] m(4)
    by simp
qed

text \<open>
  \<open>add_file\<close> on a readable file appends its content to the volume: it reports the old
  position and the file's length, the bytes from there on are the content, however the reads
  are split, and no byte written before changes.
\<close>

theorem builder_add_file_appends:
  assumes "builder_inv lz4 K b" and "no_fault w" and "files w path = Some d"
    and "pos b + length d < K * CHUNK_SIZE_BYTES"
    and "\<forall>c \<in> set (full_chunks (take (pos b mod CHUNK_SIZE_BYTES) (buff b) @ d)). cs_storable lz4 c"
  shows "\<exists>b' w'. add_file (cs_ops lz4) path b w = Some (OK, pos b, length d, b', w') \<and>
    builder_inv lz4 K b' \<and> pos b' = pos b + length d \<and> same_fs w w' \<and>
    patched (builder_volume lz4 b) (pos b) d (builder_volume lz4 b')"
  using compressed_files.add_file_ok [OF assms] unfolding cs_ops_def by blast

theorem builder_add_file_appends_witness:
  "\<exists>b' w'. add_file (cs_ops zero_codec) ''/in'' (cb_new (fresh_store ''/s'' 4 []) new_buffer new_buffer)
       \<lparr>files = [''/in'' \<mapsto> ''abc''], dirs = {}, choices = [Full, Short 0, Short 0]\<rparr> = Some (OK, 0, 3, b', w') \<and>
     builder_volume zero_codec b' 1 = Some CHR ''b''"
proof -
  let ?b = "cb_new (fresh_store ''/s'' 4 []) new_buffer new_buffer"
  let ?w = "\<lparr>files = [''/in'' \<mapsto> ''abc''], dirs = {}, choices = [Full, Short 0, Short 0]\<rparr>"
  have inv: "builder_inv zero_codec 4 ?b" by (rule builder_new_inv) (simp_all add: short_base_def)
  have w: "no_fault ?w" "files ?w ''/in'' = Some ''abc''" by (simp_all add: no_fault_def)
  have p: "pos ?b = 0" "pos ?b + length ''abc'' < 4 * CHUNK_SIZE_BYTES"
    by (simp_all add: cb_new_def CHUNK_SIZE_BYTES_def)
  have fc: "full_chunks (take (pos ?b mod CHUNK_SIZE_BYTES) (buff ?b) @ ''abc'') = []"
    by (rule chunks_short(1)) (simp add: p(1), simp add: CHUNK_SIZE_BYTES_def)
  have st: "\<forall>c \<in> set (full_chunks (take (pos ?b mod CHUNK_SIZE_BYTES) (buff ?b) @ ''abc'')). cs_storable zero_codec c"
    unfolding fc by simp
  obtain b' w' where "add_file (cs_ops zero_codec) ''/in'' ?b ?w = Some (OK, 0, 3, b', w')"
    and v: "patched (builder_volume zero_codec ?b) 0 ''abc'' (builder_volume zero_codec b')"
    using builder_add_file_appends [OF inv w p(2) st] p(1) by auto
  then show ?thesis using v [unfolded patched_def, THEN spec, of 1] by simp
qed

text \<open>
  After \<open>build\<close> the whole volume is in the store: every byte written is found in the
  stored chunk of its address, and there are no other chunks than those that were written to.
\<close>

theorem builder_build_stores_volume:
  assumes "builder_inv lz4 K b" and "cs_storable lz4 (buff b)"
  shows "\<exists>b'. build (cs_ops lz4) b = Some (OK, b') \<and> built b' \<and> builder_inv lz4 K b' \<and>
    (\<forall>a x. builder_volume lz4 b a = Some x \<longrightarrow>
       (\<exists>d. cs_lookup lz4 (store b') (a div CHUNK_SIZE_BYTES) = Some d \<and> d ! (a mod CHUNK_SIZE_BYTES) = x)) \<and>
    dom (cs_lookup lz4 (store b')) = held (cs_lookup lz4) b"
  using compressed_files.build_ok [OF assms] unfolding cs_ops_def .

theorem builder_build_stores_volume_witness:
  "\<exists>b' d. build (cs_ops zero_codec) (cb_new (fresh_store ''/s'' 4 []) new_buffer new_buffer) = Some (OK, b') \<and>
     cs_lookup zero_codec (store b') 0 = Some d \<and> d ! 5 = CHR 0x00"
proof -
  let ?b = "cb_new (fresh_store ''/s'' 4 []) new_buffer new_buffer"
  have inv: "builder_inv zero_codec 4 ?b" by (rule builder_new_inv) (simp_all add: short_base_def)
  have st: "cs_storable zero_codec (buff ?b)" by (simp add: cb_new_def zero_chunk_storable)
  have five: "5 < CHUNK_SIZE_BYTES" by (simp add: CHUNK_SIZE_BYTES_def)
  have "builder_volume zero_codec ?b 5 = Some (CHR 0x00)"
    by (simp add: volume_new [OF five] new_buffer_nth [OF five])
  with builder_build_stores_volume [OF inv st] five show ?thesis by fastforce
qed

text \<open>
  When the first \<open>read\<close> of a file fails, \<open>add_file\<close> asks \<open>write_data\<close> for 2^32 - 1
  bytes of the read buffer before it looks at the result: the call runs past the buffer
  (undefined) or stops with an error of the store; it never gets to ACCESS_DENIED by itself.
\<close>

theorem add_file_read_error_overreads:
  assumes "sys_open_rd path w = (Inr fd, w1)" and "choices w1 = Fault # cs"
    and "length (read_buffer b) = CHUNK_SIZE_BYTES"
  shows "add_file ops path b w = None \<or>
    (\<exists>err b'. err \<noteq> OK \<and> write_data ops (read_buffer b) (2 ^ 32 - 1) b = Some (err, b') \<and>
       add_file ops path b w = Some (err, 0, 2 ^ 64 - 1, b', w1\<lparr>choices := cs\<rparr>))"
proof -
  have "length (read_buffer b) < 2 ^ 32 - 1" using assms(3) by (simp add: CHUNK_SIZE_BYTES_def)
  from write_data_overread [OF this, of ops b] show ?thesis
    unfolding add_file_first_read_fails [OF assms(1,2)] by auto
qed

theorem add_file_read_error_overreads_witness:
  "\<forall>b' w'. add_file (cs_ops zero_codec) ''/in'' (cb_new (fresh_store ''/s'' 4 []) new_buffer new_buffer)
       \<lparr>files = [''/in'' \<mapsto> ''abc''], dirs = {}, choices = [Full, Fault]\<rparr> \<noteq> Some (OK, 0, 0, b', w')"
proof -
  let ?w = "\<lparr>files = [''/in'' \<mapsto> ''abc''], dirs = {}, choices = [Full, Fault]\<rparr>"
  have o: "sys_open_rd ''/in'' ?w = (Inr ''abc'', ?w\<lparr>choices := [Fault]\<rparr>)"
    by (simp add: sys_open_rd_def pop_choice_def)
  have c: "choices (?w\<lparr>choices := [Fault]\<rparr>) = [Fault]" by simp
  have l: "length (read_buffer (cb_new (fresh_store ''/s'' 4 []) new_buffer new_buffer)) = CHUNK_SIZE_BYTES"
    by (simp add: cb_new_def)
  show ?thesis using add_file_read_error_overreads [OF o c l, of "cs_ops zero_codec"] by auto
qed

text \<open>
  C34: Destroying a builder whose volume was not built removes every chunk from the store:
  nothing is available any more and no chunk file is left to be read.
\<close>

theorem builder_destroy_removes_unbuilt_volume:
  assumes "cs_inv lz4 (store b)" and "\<not> built b"
  shows "cs_inv lz4 (cb_destroy (cs_ops lz4) b) \<and> cs_lookup lz4 (cb_destroy (cs_ops lz4) b) = Map.empty \<and>
    cs_available (cb_destroy (cs_ops lz4) b) = {}"
  using assms by (rule destroy_unbuilt)

theorem builder_destroy_removes_unbuilt_volume_witness:
  "\<exists>s. cs_write_chunk zero_codec 7 ''abc'' 3 (fresh_store ''/s'' 1 []) = Some (OK, s) \<and> cs_available s = {7} \<and>
     cs_available (cb_destroy (cs_ops zero_codec) (cb_new s new_buffer new_buffer)) = {}"
proof -
  have inv: "cs_inv zero_codec (fresh_store ''/s'' 1 [])"
    by (rule fresh_store_cs_inv) (simp_all add: short_base_def)
  have st: "cs_storable zero_codec (take 3 ''abc'')"
    by (simp add: cs_storable_def coded_storable_def zero_codec_def zero_compress_def strip_zeros_def
        CHUNK_SIZE_BYTES_def)
  obtain s E where s: "cs_write_chunk zero_codec 7 ''abc'' 3 (fresh_store ''/s'' 1 []) = Some (OK, s)"
      "cs_inv zero_codec s" "cs_lookup zero_codec s = (Map.empty |` (- E))(7 \<mapsto> take 3 ''abc'')"
    using compressed_files.write_ok [OF inv _ _ st, of 7] by auto
  have "cs_available s = {7}" using compressed_files.avail_dom [OF s(2)] by (simp add: s(3) restrict_map_def)
  then show ?thesis
    using s(1) builder_destroy_removes_unbuilt_volume [of zero_codec "cb_new s new_buffer new_buffer"] s(2)
    by (simp add: cb_new_def)
qed

end
