(* ===== verification/Metafs_Builder.thy ===== *)
theory Metafs_Builder
  imports Meta_File_System Chunk_Builder "HOL-Library.List_Lexorder" "HOL-Library.Product_Lexorder"
begin

text \<open>
  meta/metafs_builder.cc: writing the meta data image of a directory tree. What the operating
  system answers about the tree is the parameter \<open>host\<close>; the tree does not change while it is
  packed. \<open>fresh n\<close> is what \<open>n\<close> characters of new memory hold. An access outside the buffer
  \<open>data\<close> is undefined. Addresses are not wrapped: they are below the size of a buffer that exists.
\<close>

subsection \<open>The buffer\<close>

text \<open>\<^verbatim>\<open>data_size\<close> is the length of \<^verbatim>\<open>data\<close>.\<close>

record meta_builder =
  mb_data :: bytes
  current_pos :: nat

text \<open>The buffer is doubled until it is large enough; an empty one is doubled forever (\<open>None\<close>).\<close>

partial_function (option) reserve_buffer :: "(nat \<Rightarrow> bytes) \<Rightarrow> nat \<Rightarrow> meta_builder \<Rightarrow> meta_builder option" where
  "reserve_buffer fresh len b =
     (if length (mb_data b) < len + current_pos b
      then reserve_buffer fresh len (b\<lparr>mb_data := mb_data b @ fresh (length (mb_data b))\<rparr>)
      else Some b)"

definition put_u32 :: "bytes \<Rightarrow> nat \<Rightarrow> nat \<Rightarrow> bytes option" where
  "put_u32 d off v = blit d off (le_bytes 4 v)"

definition put_u64 :: "bytes \<Rightarrow> nat \<Rightarrow> nat \<Rightarrow> bytes option" where
  "put_u64 d off v = blit d off (le_bytes 8 v)"

subsection \<open>Nodes\<close>

text \<open>A time stamp in nanoseconds.\<close>

definition nanoseconds :: "nat \<times> nat \<Rightarrow> nat" where
  "nanoseconds t = wrap 64 (int (snd t) + int (fst t) * 1000000000)"

definition set_stat :: "stat \<Rightarrow> nat \<Rightarrow> bytes \<Rightarrow> bytes option" where
  "set_stat st n d = do {
     d \<leftarrow> put_u32 d n (st_mode st);
     d \<leftarrow> put_u32 d (n + 4) (st_uid st);
     d \<leftarrow> put_u32 d (n + 8) (st_gid st);
     d \<leftarrow> put_u64 d (n + 16) (st_size st);
     d \<leftarrow> put_u64 d (n + 24) (st_blocks st);
     d \<leftarrow> put_u64 d (n + 40) (nanoseconds (st_ctim st));
     put_u64 d (n + 32) (nanoseconds (st_mtim st))
   }"

text \<open>\<^verbatim>\<open>c_str()\<close> of a string as the functions of C see it.\<close>

definition c_string :: "string \<Rightarrow> string" where
  "c_string s = takeWhile (\<lambda>c. c \<noteq> CHR 0x00) s"

text \<open>The loop of \<^verbatim>\<open>add_xattrs\<close>; \<open>e\<close> is the address of \<^verbatim>\<open>entries[i]\<close>.\<close>

fun add_xattr_loop :: "nat \<Rightarrow> xattrs \<Rightarrow> bytes \<Rightarrow> nat \<Rightarrow> (bytes \<times> nat) option" where
  "add_xattr_loop e [] d at = Some (d, at)"
| "add_xattr_loop e ((name, value) # xs) d at = do {
     d \<leftarrow> put_u64 d e at;
     d \<leftarrow> strncpy d at (c_string name) (length name + 1);
     let at = at + length name + 1;
     d \<leftarrow> put_u64 d (e + 8) at;
     d \<leftarrow> put_u64 d at (length value);
     let at = at + 8;
     d \<leftarrow> strncpy d at (c_string value) (length value + 1);
     add_xattr_loop (e + ENTRY_SIZE) xs d (at + length value + 1)
   }"

definition add_xattrs :: "xattrs \<Rightarrow> meta_builder \<Rightarrow> meta_builder option" where
  "add_xattrs xs b = do {
     (d, at) \<leftarrow> add_xattr_loop (current_pos b) xs (mb_data b) (current_pos b + ENTRY_SIZE * length xs);
     Some (b\<lparr>mb_data := d, current_pos := at\<rparr>)
   }"

definition xattrs_len :: "xattrs \<Rightarrow> nat" where
  "xattrs_len xs = (\<Sum>x \<leftarrow> xs. length (fst x) + 1 + length (snd x) + 1 + ENTRY_SIZE + 8)"

definition add_file_node :: "(nat \<Rightarrow> bytes) \<Rightarrow> stat \<Rightarrow> xattrs \<Rightarrow> meta_builder \<Rightarrow> (nat \<times> meta_builder) option" where
  "add_file_node fresh st xs b = do {
     let n = current_pos b;
     b \<leftarrow> reserve_buffer fresh (NODE_SIZE + xattrs_len xs) b;
     d \<leftarrow> set_stat st n (mb_data b);
     d \<leftarrow> put_u32 d (n + 48) (length xs);
     b \<leftarrow> add_xattrs xs (b\<lparr>mb_data := d, current_pos := n + NODE_SIZE\<rparr>);
     Some (n, b)
   }"

definition add_link :: "(nat \<Rightarrow> bytes) \<Rightarrow> stat \<Rightarrow> string \<Rightarrow> xattrs \<Rightarrow> meta_builder \<Rightarrow> (nat \<times> meta_builder) option" where
  "add_link fresh st target xs b = do {
     let n = current_pos b;
     let len = length target + 1;
     b \<leftarrow> reserve_buffer fresh (NODE_SIZE + len + xattrs_len xs) b;
     d \<leftarrow> set_stat st n (mb_data b);
     d \<leftarrow> put_u32 d (n + 48) (length xs);
     b \<leftarrow> add_xattrs xs (b\<lparr>mb_data := d, current_pos := n + NODE_SIZE\<rparr>);
     d \<leftarrow> strncpy (mb_data b) (current_pos b) target len;
     d \<leftarrow> put_u64 d (n + 64) (current_pos b);
     Some (n, b\<lparr>mb_data := d, current_pos := current_pos b + len\<rparr>)
   }"

text \<open>The loop of \<^verbatim>\<open>add_dir\<close> that writes the names; \<open>e\<close> is the address of \<^verbatim>\<open>dirent[i]\<close>.\<close>

fun add_names :: "nat \<Rightarrow> string list \<Rightarrow> bytes \<Rightarrow> nat \<Rightarrow> (bytes \<times> nat) option" where
  "add_names e [] d at = Some (d, at)"
| "add_names e (name # names) d at = do {
     d \<leftarrow> strncpy d at (c_string name) (length name + 1);
     d \<leftarrow> put_u64 d e at;
     add_names (e + ENTRY_SIZE) names d (at + length name + 1)
   }"

definition add_dir ::
    "(nat \<Rightarrow> bytes) \<Rightarrow> stat \<Rightarrow> string list \<Rightarrow> xattrs \<Rightarrow> meta_builder \<Rightarrow> (nat \<times> nat \<times> meta_builder) option" where
  "add_dir fresh st sorted_entries xs b = do {
     let n = current_pos b;
     let len = (\<Sum>name \<leftarrow> sorted_entries. length name + 1 + ENTRY_SIZE);
     b \<leftarrow> reserve_buffer fresh (NODE_SIZE + len + xattrs_len xs) b;
     d \<leftarrow> set_stat st n (mb_data b);
     d \<leftarrow> put_u64 d (n + 56) (length sorted_entries);
     d \<leftarrow> put_u32 d (n + 48) (length xs);
     b \<leftarrow> add_xattrs xs (b\<lparr>mb_data := d, current_pos := n + NODE_SIZE\<rparr>);
     let dirent = current_pos b;
     d \<leftarrow> put_u64 (mb_data b) (n + 64) dirent;
     (d, at) \<leftarrow> add_names dirent sorted_entries d (dirent + ENTRY_SIZE * length sorted_entries);
     Some (n, dirent, b\<lparr>mb_data := d, current_pos := at\<rparr>)
   }"

definition set_dirent_node_offset :: "nat \<Rightarrow> nat \<Rightarrow> nat \<Rightarrow> meta_builder \<Rightarrow> meta_builder option" where
  "set_dirent_node_offset dirent_pos i value b = do {
     d \<leftarrow> put_u64 (mb_data b) (dirent_pos + ENTRY_SIZE * i + 8) value;
     Some (b\<lparr>mb_data := d\<rparr>)
   }"

subsection \<open>Scanning the tree\<close>

text \<open>
  The answers of the system for a path: \<open>None\<close> is -1 (a null pointer of \<^verbatim>\<open>opendir\<close>). The names
  of a directory come in any order, with \<^verbatim>\<open>.\<close> and \<^verbatim>\<open>..\<close>; the attribute names are one string in
  which each ends with a NUL. A path of \<^verbatim>\<open>PATH_MAX\<close> characters or more is refused.
\<close>

record host =
  h_lstat :: "string \<Rightarrow> stat option"
  h_readlink :: "string \<Rightarrow> string option"
  h_readdir :: "string \<Rightarrow> string list option"
  h_llistxattr :: "string \<Rightarrow> bytes option"
  h_getxattr :: "string \<Rightarrow> string \<Rightarrow> bytes option"

definition PATH_MAX :: nat where "PATH_MAX = 4096"

definition sys_lstat :: "host \<Rightarrow> string \<Rightarrow> stat option" where
  "sys_lstat h path = (if length path < PATH_MAX then h_lstat h path else None)"

definition is_supported :: "nat \<Rightarrow> bool" where
  "is_supported mode \<longleftrightarrow> S_ISLNK mode \<or> S_ISREG mode \<or> S_ISDIR mode"

text \<open>The names in the answer of \<^verbatim>\<open>llistxattr\<close>.\<close>

function attr_names :: "bytes \<Rightarrow> string list" where
  "attr_names buf = (if buf = [] then [] else c_string buf # attr_names (drop (length (c_string buf) + 1) buf))"
  by pat_completeness auto
termination
  by (relation "measure length") auto

declare attr_names.simps [simp del]

text \<open>The values are read with \<^verbatim>\<open>getxattr\<close>, which follows a symbolic link.\<close>

definition read_xattrs :: "host \<Rightarrow> string \<Rightarrow> xattrs" where
  "read_xattrs h path =
     (case h_llistxattr h path of
        None \<Rightarrow> []
      | Some buf \<Rightarrow>
          sort (map (\<lambda>name. (name, case h_getxattr h path name of None \<Rightarrow> [] | Some v \<Rightarrow> v)) (attr_names buf)))"

text \<open>The entries of a directory that are packed.\<close>

definition scan_names :: "host \<Rightarrow> string \<Rightarrow> string list" where
  "scan_names h path =
     (case h_readdir h path of
        None \<Rightarrow> []
      | Some names \<Rightarrow>
          sort (filter (\<lambda>name. name \<noteq> ''.'' \<and> name \<noteq> ''..'' \<and>
            (case sys_lstat h (path @ ''/'' @ name) of None \<Rightarrow> False | Some st \<Rightarrow> is_supported (st_mode st))) names))"

function scan_dfs :: "host \<Rightarrow> (nat \<Rightarrow> bytes) \<Rightarrow> string \<Rightarrow> meta_builder \<Rightarrow> (nat \<times> meta_builder) option"
  and scan_entries ::
    "host \<Rightarrow> (nat \<Rightarrow> bytes) \<Rightarrow> string \<Rightarrow> nat \<Rightarrow> nat \<Rightarrow> string list \<Rightarrow> meta_builder \<Rightarrow> meta_builder option" where
  "scan_dfs h fresh path b =
     (case sys_lstat h path of
        None \<Rightarrow> Some (0, b)
      | Some st \<Rightarrow>
          if \<not> is_supported (st_mode st) then Some (0, b)
          else if S_ISLNK (st_mode st) then
            add_link fresh st (case h_readlink h path of None \<Rightarrow> [] | Some name \<Rightarrow> c_string (take PATH_MAX name))
              (read_xattrs h path) b
          else if S_ISREG (st_mode st) then add_file_node fresh st (read_xattrs h path) b
          else if S_ISDIR (st_mode st) then
            (case add_dir fresh st (scan_names h path) (read_xattrs h path) b of
               None \<Rightarrow> None
             | Some (addr, dirents, b1) \<Rightarrow>
                 map_option (Pair addr) (scan_entries h fresh path dirents 0 (scan_names h path) b1))
          else Some (0, b))"
| "scan_entries h fresh path dirents i [] b = Some b"
| "scan_entries h fresh path dirents i (name # names) b =
     (case scan_dfs h fresh (path @ ''/'' @ name) b of
        None \<Rightarrow> None
      | Some (node, b1) \<Rightarrow>
          (case set_dirent_node_offset dirents i node b1 of
             None \<Rightarrow> None
           | Some b2 \<Rightarrow> scan_entries h fresh path dirents (i + 1) names b2))"
  by pat_completeness auto
termination
  by (relation "measures
      [\<lambda>x. case x of Inl (h, fresh, path, b) \<Rightarrow> PATH_MAX + 1 - length path
                   | Inr (h, fresh, path, dirents, i, names, b) \<Rightarrow> PATH_MAX - length path,
       \<lambda>x. case x of Inl _ \<Rightarrow> 0 | Inr (h, fresh, path, dirents, i, names, b) \<Rightarrow> Suc (length names)]")
    (auto simp: sys_lstat_def split: if_splits)

declare scan_dfs.simps [simp del]

subsection \<open>Packing the files\<close>

text \<open>The C string at an address of the buffer, and the two numbers of a node that hold a file's position.\<close>

definition put_position :: "bytes \<Rightarrow> nat \<Rightarrow> nat \<Rightarrow> nat \<Rightarrow> bytes option" where
  "put_position d n off len = do {
     d \<leftarrow> put_u64 d (n + 64) off;
     put_u64 d (n + 56) len
   }"

text \<open>The entries of a directory, with the paths they are queued with.\<close>

fun queue_entries :: "bytes \<Rightarrow> nat \<Rightarrow> string \<Rightarrow> nat list \<Rightarrow> (nat \<times> string) list option" where
  "queue_entries d dirent path [] = Some []"
| "queue_entries d dirent path (i # is) = do {
     node \<leftarrow> e_data_offset d dirent i;
     no \<leftarrow> e_name_offset d dirent i;
     name \<leftarrow> c_str d no;
     q \<leftarrow> queue_entries d dirent path is;
     Some ((node, path @ ''/'' @ name) # q)
   }"

text \<open>
  The loop over the queue. A file that cannot be read gets the position -1 and the length 0. The
  loop ends when the nodes form a tree; on a cyclic image it would not (\<open>None\<close>).
\<close>

partial_function (option) create_loop ::
    "'s chunk_ops \<Rightarrow> (nat \<times> string) list \<Rightarrow> bytes \<Rightarrow> 's chunk_builder \<Rightarrow> world \<Rightarrow>
     (ErrorCode \<times> bytes \<times> 's chunk_builder \<times> world) option" where
  "create_loop ops q d cb w =
     (case q of
        [] \<Rightarrow> Some (OK, d, cb, w)
      | (n, path) # q' \<Rightarrow>
          (case n_mode d n of
             None \<Rightarrow> None
           | Some mode \<Rightarrow>
               if S_ISREG mode then
                 (case add_file ops path cb w of
                    None \<Rightarrow> None
                  | Some (err, off, len, cb', w') \<Rightarrow>
                      (case (if err = OK then put_position d n off len else put_position d n (2 ^ 64 - 1) 0) of
                         None \<Rightarrow> None
                       | Some d' \<Rightarrow>
                           if err = OK \<or> err = NOT_FOUND \<or> err = ACCESS_DENIED then create_loop ops q' d' cb' w'
                           else Some (err, d', cb', w')))
               else if S_ISDIR mode then
                 (case Option.bind (n_data_offset d n) (\<lambda>dirent. Option.bind (n_length d n)
                     (\<lambda>len. queue_entries d dirent path [0..<len])) of
                    None \<Rightarrow> None
                  | Some new \<Rightarrow> create_loop ops (q' @ new) d cb w)
               else create_loop ops q' d cb w))"

text \<open>The result of the last \<^verbatim>\<open>write\<close> is not used.\<close>

definition create_chunks ::
    "'s chunk_ops \<Rightarrow> string \<Rightarrow> meta_builder \<Rightarrow> 's chunk_builder \<Rightarrow> world \<Rightarrow>
     (ErrorCode \<times> 's chunk_builder \<times> world) option" where
  "create_chunks ops root_path b cb w = do {
     (err, data_of, cb1) \<leftarrow> reserve ops (current_pos b) cb;
     if err \<noteq> OK then Some (err, cb1, w)
     else do {
       (err', d, cb2, w') \<leftarrow> create_loop ops [(8, root_path)] (mb_data b) cb1 w;
       if err' \<noteq> OK then Some (err', cb2, w')
       else do {
         (_, cb3) \<leftarrow> cb_write ops data_of d (current_pos b) cb2;
         Some (OK, cb3, w')
       }
     }
   }"

text \<open>The result of \<^verbatim>\<open>chunkBuilder.build()\<close> is not used either.\<close>

definition build_fs ::
    "'s chunk_ops \<Rightarrow> host \<Rightarrow> (nat \<Rightarrow> bytes) \<Rightarrow> string \<Rightarrow> 's chunk_builder \<Rightarrow> world \<Rightarrow>
     (ErrorCode \<times> 's chunk_builder \<times> world) option" where
  "build_fs ops h fresh root_path cb w = do {
     (_, b) \<leftarrow> scan_dfs h fresh root_path \<lparr>mb_data = fresh CHUNK_SIZE_BYTES, current_pos = 8\<rparr>;
     d \<leftarrow> put_u64 (mb_data b) 0 (current_pos b);
     (err, cb', w') \<leftarrow> create_chunks ops root_path (b\<lparr>mb_data := d\<rparr>) cb w;
     if err = OK then do {
       (_, cb'') \<leftarrow> build ops cb';
       Some (err, cb'', w')
     }
     else Some (err, cb', w')
   }"

end
