(* ===== verification/Metafs_Layout.thy ===== *)
theory Metafs_Layout
  imports Metafs_Builder
begin

text \<open>
  What MetaFSBuilder writes: lemmas on writes into the buffer and what they leave alone, and the
  layout of a tree in a range of the buffer, which refines the meaning of an image
  (\<open>represents\<close>).
\<close>

subsection \<open>Writes and what they leave alone\<close>

text \<open>\<open>frame S d d'\<close>: the addresses outside \<open>S\<close> keep their contents; others may be new, or gone.\<close>

definition frame :: "nat set \<Rightarrow> bytes \<Rightarrow> bytes \<Rightarrow> bool" where
  "frame S d d' \<longleftrightarrow> (\<forall>i < length d. i \<notin> S \<longrightarrow> i < length d' \<and> d' ! i = d ! i)"

lemma frame_refl [simp]: "frame S d d"
  by (simp add: frame_def)

lemma frame_trans: "frame S d d' \<Longrightarrow> frame T d' d'' \<Longrightarrow> frame (S \<union> T) d d''"
  by (auto simp: frame_def)

lemma frame_mono: "frame S d d' \<Longrightarrow> S \<subseteq> T \<Longrightarrow> frame T d d'"
  by (auto simp: frame_def)

lemma slice_frame:
  assumes "slice d off n = Some bs" and "frame S d d'" and "{off..<off + n} \<inter> S = {}" and "n = 0 \<Longrightarrow> off \<le> length d'"
  shows "slice d' off n = Some bs"
proof -
  have l: "off + n \<le> length d" "bs = take n (drop off d)" using assms(1) by (auto simp: slice_def split: if_splits)
  have at: "off + i < length d' \<and> d' ! (off + i) = d ! (off + i)" if "i < n" for i
  proof -
    have "off + i \<in> {off..<off + n}" "off + i < length d" using that l(1) by simp_all
    moreover from this(1) have "off + i \<notin> S" using assms(3) by blast
    ultimately show ?thesis using assms(2) by (simp add: frame_def)
  qed
  have l': "off + n \<le> length d'" using at [of "n - 1"] assms(4) by (cases n) auto
  have "take n (drop off d') = take n (drop off d)"
    by (rule nth_equalityI) (use l l' at in simp_all)
  then show ?thesis using l l' by (simp add: slice_def)
qed

lemma get_u64_bound: "get_u64 d off = Some v \<Longrightarrow> off + 8 \<le> length d"
  by (auto simp: get_u64_def slice_def split: if_splits)

lemma get_u32_frame:
  "get_u32 d off = Some v \<Longrightarrow> frame S d d' \<Longrightarrow> {off..<off + 4} \<inter> S = {} \<Longrightarrow> get_u32 d' off = Some v"
  unfolding get_u32_def by (auto dest: slice_frame)

lemma get_u64_frame:
  "get_u64 d off = Some v \<Longrightarrow> frame S d d' \<Longrightarrow> {off..<off + 8} \<inter> S = {} \<Longrightarrow> get_u64 d' off = Some v"
  unfolding get_u64_def by (auto dest: slice_frame)

text \<open>A C string is a slice that ends with the first NUL.\<close>

lemma c_str_slice: "c_str d off = Some s \<longleftrightarrow> CHR 0x00 \<notin> set s \<and> slice d off (length s + 1) = Some (s @ [CHR 0x00])"
proof
  assume c: "c_str d off = Some s"
  obtain ys where ys: "drop off d = s @ CHR 0x00 # ys" using c_str_split [OF c] by blast
  have "off + (length s + 1) \<le> length d" using arg_cong [OF ys, of length] by simp
  then show "CHR 0x00 \<notin> set s \<and> slice d off (length s + 1) = Some (s @ [CHR 0x00])"
    using c_str_no_nul [OF c] ys by (simp add: slice_def)
next
  assume a: "CHR 0x00 \<notin> set s \<and> slice d off (length s + 1) = Some (s @ [CHR 0x00])"
  then have t: "take (length s + 1) (drop off d) = s @ [CHR 0x00]" by (auto simp: slice_def split: if_splits)
  have "drop off d = take (length s + 1) (drop off d) @ drop (length s + 1) (drop off d)"
    by (rule append_take_drop_id [symmetric])
  then have d: "drop off d = s @ CHR 0x00 # drop (length s + 1) (drop off d)" unfolding t by simp
  have "takeWhile (\<lambda>c. c \<noteq> CHR 0x00) (s @ CHR 0x00 # ys) = s" for ys using a by (auto simp: takeWhile_tail takeWhile_eq_all_conv)
  then show "c_str d off = Some s" unfolding c_str_def by (subst (1 2) d) simp
qed

lemma c_str_frame:
  assumes "c_str d off = Some s" and "frame S d d'" and "{off..<off + length s + 1} \<inter> S = {}"
  shows "c_str d' off = Some s"
  using assms slice_frame [of d off "length s + 1" "s @ [CHR 0x00]" S d'] unfolding c_str_slice by (simp add: add.assoc)

text \<open>What a write does.\<close>

lemma blit_effect:
  assumes "off + length bs \<le> length d"
  obtains d' where "blit d off bs = Some d'" and "length d' = length d" and "frame {off..<off + length bs} d d'"
    and "slice d' off (length bs) = Some bs"
proof (rule that)
  let ?d = "take off d @ bs @ drop (off + length bs) d"
  show "blit d off bs = Some ?d" using assms by (simp add: blit_def)
  then show "frame {off..<off + length bs} d ?d" using blit_nth [of d off bs ?d] assms by (simp add: frame_def)
  show "length ?d = length d" "slice ?d off (length bs) = Some bs" using assms by (simp_all add: slice_def)
qed

lemma put_u32_effect:
  assumes "off + 4 \<le> length d" and "v < 2 ^ 32"
  obtains d' where "put_u32 d off v = Some d'" and "length d' = length d" and "frame {off..<off + 4} d d'"
    and "get_u32 d' off = Some v"
proof -
  have "off + length (le_bytes 4 v) \<le> length d" using assms(1) by simp
  then obtain d' where "blit d off (le_bytes 4 v) = Some d'" "length d' = length d"
      "frame {off..<off + length (le_bytes 4 v)} d d'" "slice d' off (length (le_bytes 4 v)) = Some (le_bytes 4 v)"
    by (rule blit_effect)
  moreover from this(4) have "get_u32 d' off = Some (le_val (le_bytes 4 v))"
    unfolding get_u32_def by (simp only: length_le_bytes option.map)
  ultimately show thesis using assms(2) by (intro that) (simp_all add: put_u32_def)
qed

lemma put_u64_effect:
  assumes "off + 8 \<le> length d" and "v < 2 ^ 64"
  obtains d' where "put_u64 d off v = Some d'" and "length d' = length d" and "frame {off..<off + 8} d d'"
    and "get_u64 d' off = Some v"
proof -
  have "off + length (le_bytes 8 v) \<le> length d" using assms(1) by simp
  then obtain d' where "blit d off (le_bytes 8 v) = Some d'" "length d' = length d"
      "frame {off..<off + length (le_bytes 8 v)} d d'" "slice d' off (length (le_bytes 8 v)) = Some (le_bytes 8 v)"
    by (rule blit_effect)
  moreover from this(4) have "get_u64 d' off = Some (le_val (le_bytes 8 v))"
    unfolding get_u64_def by (simp only: length_le_bytes option.map)
  ultimately show thesis using assms(2) by (intro that) (simp_all add: put_u64_def)
qed

lemma c_string_id [simp]: "CHR 0x00 \<notin> set s \<Longrightarrow> c_string s = s"
  by (auto simp: c_string_def takeWhile_eq_all_conv)

lemma strncpy_effect:
  assumes "off + length s + 1 \<le> length d" and "CHR 0x00 \<notin> set s"
  obtains d' where "strncpy d off s (length s + 1) = Some d'" and "length d' = length d"
    and "frame {off..<off + length s + 1} d d'" and "slice d' off (length s + 1) = Some (s @ [CHR 0x00])"
proof -
  have "off + length (s @ [CHR 0x00]) \<le> length d" using assms(1) by simp
  then obtain d' where "blit d off (s @ [CHR 0x00]) = Some d'" "length d' = length d"
      "frame {off..<off + length (s @ [CHR 0x00])} d d'" "slice d' off (length (s @ [CHR 0x00])) = Some (s @ [CHR 0x00])"
    by (rule blit_effect)
  then show thesis by (intro that) (simp_all add: strncpy_def)
qed

subsection \<open>Reserving memory\<close>

text \<open>A buffer that is not empty is doubled often enough.\<close>

lemma reserve_buffer_ok:
  assumes "0 < length (mb_data b)" and "\<And>n. length (fresh n) = n"
  shows "\<exists>new. reserve_buffer fresh len b = Some (b\<lparr>mb_data := mb_data b @ new\<rparr>) \<and>
    len + current_pos b \<le> length (mb_data b @ new)"
  using assms(1)
proof (induction "len + current_pos b - length (mb_data b)" arbitrary: b rule: less_induct)
  case less
  show ?case
  proof (cases "length (mb_data b) < len + current_pos b")
    case False
    then show ?thesis by (intro exI [of _ "[]"]) (simp add: reserve_buffer.simps)
  next
    case True
    let ?b = "b\<lparr>mb_data := mb_data b @ fresh (length (mb_data b))\<rparr>"
    have lt: "length (mb_data b) < length (mb_data ?b)" using less.prems by (simp add: assms(2))
    have "len + current_pos ?b - length (mb_data ?b) < len + current_pos b - length (mb_data b)"
      using diff_less_mono2 [OF lt True] by simp
    moreover have "0 < length (mb_data ?b)" using less.prems by simp
    ultimately
    obtain new where
      "reserve_buffer fresh len ?b = Some (?b\<lparr>mb_data := mb_data ?b @ new\<rparr>)"
      "len + current_pos ?b \<le> length (mb_data ?b @ new)" using less.hyps by blast
    then show ?thesis
      using True by (intro exI [of _ "fresh (length (mb_data b)) @ new"]) (simp add: reserve_buffer.simps [of fresh len b])
  qed
qed

lemma frame_append [simp]: "frame S d (d @ new)"
  by (simp add: frame_def nth_append)

subsection \<open>Nodes\<close>

text \<open>Writes as functions, for the fields of a node.\<close>

definition upd :: "bytes \<Rightarrow> nat \<Rightarrow> bytes \<Rightarrow> bytes" where
  "upd d off bs = take off d @ bs @ drop (off + length bs) d"

named_theorems upd_simps "writes into a buffer within its bounds and reads after them"

lemma put_upd [upd_simps]:
  "off + 4 \<le> length d \<Longrightarrow> put_u32 d off v = Some (upd d off (le_bytes 4 v))"
  "off + 8 \<le> length d \<Longrightarrow> put_u64 d off v = Some (upd d off (le_bytes 8 v))"
  by (simp_all add: put_u32_def put_u64_def upd_def blit_def)

lemma length_upd [upd_simps]: "off + length bs \<le> length d \<Longrightarrow> length (upd d off bs) = length d"
  by (simp add: upd_def)

lemma frame_upd: "frame S d d' \<Longrightarrow> off + length bs \<le> length d' \<Longrightarrow> {off..<off + length bs} \<subseteq> S \<Longrightarrow> frame S d (upd d' off bs)"
  by (auto simp: frame_def upd_def nth_append subset_iff)

lemma slice_upd_other:
  assumes "off + length bs \<le> length d" and "a + n \<le> off \<or> off + length bs \<le> a"
  shows "slice (upd d off bs) a n = slice d a n"
proof -
  have "frame {off..<off + length bs} d (upd d off bs)" by (rule frame_upd) (use assms(1) in simp_all)
  moreover have "{a..<a + n} \<inter> {off..<off + length bs} = {}" using assms(2) by auto
  moreover have "length (upd d off bs) = length d" by (rule length_upd [OF assms(1)])
  ultimately show ?thesis
    using slice_frame [of d a n _ "{off..<off + length bs}" "upd d off bs"] by (cases "slice d a n") (auto simp: slice_def split: if_splits)
qed

lemma get_upd_other [upd_simps]:
  "off + length bs \<le> length d \<Longrightarrow> a + 4 \<le> off \<or> off + length bs \<le> a \<Longrightarrow> get_u32 (upd d off bs) a = get_u32 d a"
  "off + length bs \<le> length d \<Longrightarrow> a + 8 \<le> off \<or> off + length bs \<le> a \<Longrightarrow> get_u64 (upd d off bs) a = get_u64 d a"
  by (simp_all add: get_u32_def get_u64_def slice_upd_other)

lemma get_upd_same [upd_simps]:
  "off + 4 \<le> length d \<Longrightarrow> v < 2 ^ 32 \<Longrightarrow> get_u32 (upd d off (le_bytes 4 v)) off = Some v"
  "off + 8 \<le> length d \<Longrightarrow> v < 2 ^ 64 \<Longrightarrow> get_u64 (upd d off (le_bytes 8 v)) off = Some v"
  by (simp_all add: get_u32_def get_u64_def slice_def upd_def)

text \<open>The attributes of a file as an image holds them.\<close>

definition attrs_of :: "stat \<Rightarrow> attrs" where
  "attrs_of st =
     \<lparr>a_mode = st_mode st, a_uid = st_uid st, a_gid = st_gid st, a_size = st_size st, a_blocks = st_blocks st,
      a_mtime = nanoseconds (st_mtim st), a_ctime = nanoseconds (st_ctim st)\<rparr>"

definition stat_ok :: "stat \<Rightarrow> bool" where
  "stat_ok st \<longleftrightarrow> st_mode st < 2 ^ 32 \<and> st_uid st < 2 ^ 32 \<and> st_gid st < 2 ^ 32 \<and> st_size st < 2 ^ 64 \<and> st_blocks st < 2 ^ 64"

lemma nanoseconds_lt [simp]: "nanoseconds t < 2 ^ 64"
  unfolding nanoseconds_def by (rule wrap_lt)

lemma set_stat_effect:
  assumes "n + 72 \<le> length d" and "stat_ok st"
  obtains d' where "set_stat st n d = Some d'" and "length d' = length d" and "frame {n..<n + 48} d d'"
    and "attrs_at d' n (attrs_of st)"
proof -
  let ?d = "upd (upd (upd (upd (upd (upd (upd d n (le_bytes 4 (st_mode st))) (n + 4) (le_bytes 4 (st_uid st)))
      (n + 8) (le_bytes 4 (st_gid st))) (n + 16) (le_bytes 8 (st_size st))) (n + 24) (le_bytes 8 (st_blocks st)))
      (n + 40) (le_bytes 8 (nanoseconds (st_ctim st)))) (n + 32) (le_bytes 8 (nanoseconds (st_mtim st)))"
  show thesis
  proof (rule that)
    show "set_stat st n d = Some ?d" "length ?d = length d" using assms(1) by (simp_all add: set_stat_def upd_simps)
    show "frame {n..<n + 48} d ?d"
      by (intro frame_upd frame_refl) (use assms(1) in \<open>auto simp: upd_simps\<close>)
    show "attrs_at ?d n (attrs_of st)"
      using assms nanoseconds_lt
      by (simp add: attrs_at_def attrs_of_def stat_ok_def n_mode_def n_uid_def n_gid_def n_size_def n_block_count_def
          n_mtime_ns_def n_ctime_ns_def upd_simps)
  qed
qed

subsection \<open>Extended attributes\<close>

lemma strncpy_upd [upd_simps]:
  "CHR 0x00 \<notin> set s \<Longrightarrow> off + length s + 1 \<le> length d \<Longrightarrow>
     strncpy d off s (Suc (length s)) = Some (upd d off (s @ [CHR 0x00]))"
  by (simp add: strncpy_def upd_def blit_def)

lemma slice_upd_same: "off + length bs \<le> length d \<Longrightarrow> n = length bs \<Longrightarrow> slice (upd d off bs) off n = Some bs"
  by (simp add: slice_def upd_def)

lemma slice_upd_prefix: "off + length (bs @ cs) \<le> length d \<Longrightarrow> slice (upd d off (bs @ cs)) off (length bs) = Some bs"
  by (simp add: slice_def upd_def)

definition xattr_bytes :: "xattrs \<Rightarrow> nat" where
  "xattr_bytes xs = (\<Sum>x \<leftarrow> xs. length (fst x) + 1 + 8 + length (snd x) + 1)"

lemma xattr_bytes_simps [simp]:
  "xattr_bytes [] = 0" "xattr_bytes ((name, v) # xs) = length name + 1 + 8 + length v + 1 + xattr_bytes xs"
  by (simp_all add: xattr_bytes_def)

lemma xattrs_len_eq: "xattrs_len xs = ENTRY_SIZE * length xs + xattr_bytes xs" "xattrs_size xs = xattrs_len xs"
  by (induction xs) (simp_all add: xattrs_len_def xattrs_size_def xattr_bytes_def)

definition no_nuls :: "xattrs \<Rightarrow> bool" where
  "no_nuls xs \<longleftrightarrow> (\<forall>x \<in> set xs. CHR 0x00 \<notin> set (fst x) \<and> CHR 0x00 \<notin> set (snd x))"

lemma no_nuls_Cons [simp]:
  "no_nuls ((name, v) # xs) \<longleftrightarrow> CHR 0x00 \<notin> set name \<and> CHR 0x00 \<notin> set v \<and> no_nuls xs" "no_nuls []"
  by (auto simp: no_nuls_def)

text \<open>A table of attributes at \<open>e\<close> whose names and values lie between \<open>lo\<close> and \<open>hi\<close>.\<close>

fun xattr_table :: "bytes \<Rightarrow> nat \<Rightarrow> nat \<Rightarrow> nat \<Rightarrow> xattrs \<Rightarrow> nat list \<Rightarrow> bool" where
  "xattr_table img lo hi e [] addrs = (addrs = [])"
| "xattr_table img lo hi e ((name, v) # xs) [] = False"
| "xattr_table img lo hi e ((name, v) # xs) (a # addrs) \<longleftrightarrow>
     (\<exists>no. get_u64 img e = Some no \<and> lo \<le> no \<and> no + length name + 1 \<le> hi \<and> c_str img no = Some name) \<and>
     get_u64 img (e + 8) = Some a \<and> lo \<le> a \<and> a + 8 + length v \<le> hi \<and>
     get_u64 img a = Some (length v) \<and> slice img (a + 8) (length v) = Some v \<and> xattr_table img lo hi (e + ENTRY_SIZE) xs addrs"

lemma xattr_table_frame:
  assumes "xattr_table img lo hi e xs addrs" and "frame S img img'"
    and "({e..<e + ENTRY_SIZE * length xs} \<union> {lo..<hi}) \<inter> S = {}" and "lo' \<le> lo" and "hi \<le> hi'"
  shows "xattr_table img' lo' hi' e xs addrs"
  using assms(1,3)
proof (induction xs arbitrary: e addrs)
  case Nil
  then show ?case by simp
next
  case (Cons x xs)
  obtain name v where x: "x = (name, v)" by fastforce
  obtain a as where addrs: "addrs = a # as" using Cons.prems(1) by (cases addrs) (auto simp: x)
  have sub: "A \<inter> S = {}" if "A \<subseteq> {e..<e + ENTRY_SIZE * length (x # xs)} \<union> {lo..<hi}" for A
    using Cons.prems(2) that by blast
  have e: "16 + (16 * length xs) = ENTRY_SIZE * length (x # xs)" "ENTRY_SIZE = 16" by (simp_all add: ENTRY_SIZE_def)
  obtain no where no: "get_u64 img e = Some no" "lo \<le> no" "no + length name + 1 \<le> hi" "c_str img no = Some name"
    and a: "get_u64 img (e + 8) = Some a" "lo \<le> a" "a + 8 + length v \<le> hi" "get_u64 img a = Some (length v)"
      "slice img (a + 8) (length v) = Some v" and rest: "xattr_table img lo hi (e + ENTRY_SIZE) xs as"
    using Cons.prems(1) by (auto simp: x addrs)
  have "get_u64 img' e = Some no"
    by (rule get_u64_frame [OF no(1) assms(2) sub]) (use e in auto)
  moreover have "c_str img' no = Some name"
    by (rule c_str_frame [OF no(4) assms(2) sub]) (use no in auto)
  moreover have "get_u64 img' (e + 8) = Some a"
    by (rule get_u64_frame [OF a(1) assms(2) sub]) (use e in auto)
  moreover have v: "get_u64 img' a = Some (length v)"
    by (rule get_u64_frame [OF a(4) assms(2) sub]) (use a in auto)
  moreover have "slice img' (a + 8) (length v) = Some v"
    by (rule slice_frame [OF a(5) assms(2) sub]) (use a get_u64_bound [OF v] in auto)
  moreover have "xattr_table img' lo' hi' (e + ENTRY_SIZE) xs as"
    by (rule Cons.IH [OF rest sub]) (use e in auto)
  ultimately show ?case using no a assms(4,5) by (auto simp: x addrs)
qed

lemma add_xattr_loop_ok:
  assumes "e + ENTRY_SIZE * length xs \<le> at" and "at + xattr_bytes xs \<le> length d" and "no_nuls xs"
    and "at + xattr_bytes xs < 2 ^ 64"
  shows "\<exists>d' addrs. add_xattr_loop e xs d at = Some (d', at + xattr_bytes xs) \<and> length d' = length d \<and>
    frame ({e..<e + ENTRY_SIZE * length xs} \<union> {at..<at + xattr_bytes xs}) d d' \<and>
    xattr_table d' at (at + xattr_bytes xs) e xs addrs"
  using assms
proof (induction xs arbitrary: e d at)
  case Nil
  then show ?case by simp
next
  case (Cons x xs)
  obtain name v where x: "x = (name, v)" by fastforce
  let ?n = "length name" and ?v = "length v"
  define at' where "at' = at + ?n + 1 + 8 + ?v + 1"
  define d1 where "d1 = upd (upd (upd (upd (upd d e (le_bytes 8 at)) at (name @ [CHR 0x00])) (e + 8) (le_bytes 8 (at + ?n + 1)))
      (at + ?n + 1) (le_bytes 8 ?v)) (at + ?n + 1 + 8) (v @ [CHR 0x00])"
  have b: "e + 16 + 16 * length xs \<le> at" "at' + xattr_bytes xs \<le> length d" "at' + xattr_bytes xs < 2 ^ 64"
    "CHR 0x00 \<notin> set name" "CHR 0x00 \<notin> set v" "no_nuls xs"
    using Cons.prems by (simp_all add: x ENTRY_SIZE_def at'_def)
  have len: "length d1 = length d" using b by (simp add: d1_def at'_def upd_simps)
  have facts: "get_u64 d1 e = Some at" "slice d1 at (?n + 1) = Some (name @ [CHR 0x00])"
    "get_u64 d1 (e + 8) = Some (at + ?n + 1)" "get_u64 d1 (at + ?n + 1) = Some ?v"
    "slice d1 (at + ?n + 1 + 8) ?v = Some v"
    using b by (simp_all add: d1_def at'_def upd_simps slice_upd_other slice_upd_same slice_upd_prefix)
  have fr: "frame ({e..<e + 16} \<union> {at..<at'}) d d1"
    unfolding d1_def by (intro frame_upd frame_refl) (use b in \<open>auto simp: at'_def upd_simps\<close>)
  obtain d' addrs where ih: "add_xattr_loop (e + 16) xs d1 at' = Some (d', at' + xattr_bytes xs)" "length d' = length d1"
      "frame ({e + 16..<e + 16 + 16 * length xs} \<union> {at'..<at' + xattr_bytes xs}) d1 d'"
      "xattr_table d' at' (at' + xattr_bytes xs) (e + 16) xs addrs"
    using Cons.IH [of "e + 16" at' d1] b len by (auto simp: ENTRY_SIZE_def at'_def)
  let ?S = "{e + 16..<e + 16 + 16 * length xs} \<union> {at'..<at' + xattr_bytes xs}"
  have "get_u64 d' e = Some at" "get_u64 d' (e + 8) = Some (at + ?n + 1)" "get_u64 d' (at + ?n + 1) = Some ?v"
    by (rule get_u64_frame [OF _ ih(3)], use facts b in \<open>auto simp: at'_def\<close>)+
  moreover have "slice d' at (?n + 1) = Some (name @ [CHR 0x00])"
    by (rule slice_frame [OF facts(2) ih(3)]) (use b in \<open>auto simp: at'_def\<close>)
  then have "c_str d' at = Some name" using b(4) by (simp add: c_str_slice)
  moreover have "slice d' (at + ?n + 1 + 8) ?v = Some v"
    by (rule slice_frame [OF facts(5) ih(3)]) (use b len ih(2) in \<open>auto simp: at'_def\<close>)
  moreover have "xattr_table d' at (at' + xattr_bytes xs) (e + 16) xs addrs"
    by (rule xattr_table_frame [OF ih(4) frame_refl [of "{}"]]) (simp_all add: at'_def)
  ultimately have tab: "xattr_table d' at (at' + xattr_bytes xs) e ((name, v) # xs) ((at + ?n + 1) # addrs)"
    by (simp add: ENTRY_SIZE_def at'_def)
  have frm: "frame ({e..<e + 16 + 16 * length xs} \<union> {at..<at' + xattr_bytes xs}) d d'"
    by (rule frame_mono [OF frame_trans [OF fr ih(3)]]) (auto simp: at'_def)
  have step: "add_xattr_loop e ((name, v) # xs) d at = add_xattr_loop (e + 16) xs d1 at'"
    using b by (simp add: d1_def at'_def upd_simps ENTRY_SIZE_def Let_def add.assoc)
  have eq: "at + xattr_bytes ((name, v) # xs) = at' + xattr_bytes xs"
    "e + ENTRY_SIZE * length ((name, v) # xs) = e + 16 + 16 * length xs"
    by (simp_all add: at'_def ENTRY_SIZE_def)
  have "length d' = length d" using ih(2) len by simp
  then show ?case unfolding x eq step ih(1) using tab frm by blast
qed

text \<open>The table as the meaning of an image reads it.\<close>

definition xattr_entry :: "bytes \<Rightarrow> nat \<Rightarrow> nat \<Rightarrow> nat \<Rightarrow> string \<times> bytes \<Rightarrow> bool" where
  "xattr_entry img lo e a x \<longleftrightarrow> get_u64 img (e + 8) = Some a \<and> lo \<le> a \<and>
     (\<exists>no. get_u64 img e = Some no \<and> c_str img no = Some (fst x)) \<and>
     get_u64 img a = Some (length (snd x)) \<and> slice img (a + 8) (length (snd x)) = Some (snd x)"

lemma xattr_table_nth:
  assumes "xattr_table img lo hi e xs addrs"
  shows "length addrs = length xs \<and> (\<forall>i < length xs. xattr_entry img lo (e + ENTRY_SIZE * i) (addrs ! i) (xs ! i))"
  using assms
proof (induction xs arbitrary: e addrs)
  case Nil
  then show ?case by simp
next
  case (Cons x xs)
  obtain name v where x: "x = (name, v)" by fastforce
  obtain a as where addrs: "addrs = a # as" using Cons.prems by (cases addrs) (auto simp: x)
  have "xattr_table img lo hi (e + ENTRY_SIZE) xs as" using Cons.prems by (simp add: x addrs)
  note ih = Cons.IH [OF this]
  have "xattr_entry img lo e a x" using Cons.prems by (auto simp: x addrs xattr_entry_def)
  moreover have "xattr_entry img lo (e + ENTRY_SIZE * Suc i) (as ! i) (xs ! i)" if "i < length xs" for i
    using ih that by (simp add: add.assoc)
  ultimately show ?case using ih by (auto simp: addrs less_Suc_eq_0_disj)
qed

text \<open>The attributes of the node at \<open>n\<close>, all of it below \<open>hi\<close>.\<close>

definition xattrs_in :: "bytes \<Rightarrow> nat \<Rightarrow> nat \<Rightarrow> xattrs \<Rightarrow> bool" where
  "xattrs_in img n hi xs \<longleftrightarrow> n_xattrs_count img n = Some (length xs) \<and> sorted_wrt name_less (map fst xs) \<and>
     n + NODE_SIZE + ENTRY_SIZE * length xs \<le> hi \<and>
     (\<exists>addrs. xattr_table img (n + NODE_SIZE + ENTRY_SIZE * length xs) hi (n + NODE_SIZE) xs addrs)"

lemma xattrs_in_at:
  assumes "xattrs_in img n hi xs"
  shows "xattrs_at img n xs"
proof -
  let ?lo = "n + NODE_SIZE + ENTRY_SIZE * length xs"
  obtain addrs where x: "n_xattrs_count img n = Some (length xs)" "sorted_wrt name_less (map fst xs)"
      "xattr_table img ?lo hi (n + NODE_SIZE) xs addrs"
    using assms by (auto simp: xattrs_in_def)
  note t = xattr_table_nth [OF x(3)]
  have pos: "0 < ?lo" by (simp add: NODE_SIZE_def)
  have "0 < addrs ! i" if "i < length xs" for i using t that pos unfolding xattr_entry_def by (meson less_le_trans)
  then have "0 \<notin> set addrs" using t by (auto simp: in_set_conv_nth)
  then have "table_at img (n + NODE_SIZE) (map fst xs) addrs"
    using t by (simp add: table_at_def e_data_offset_def e_name_offset_def xattr_entry_def)
  then show ?thesis using x(1,2) t by (auto simp: xattrs_at_def xattr_entry_def)
qed

lemma xattrs_in_frame:
  assumes "xattrs_in img n hi xs" and "frame S img img'" and "{n + 48..<n + 52} \<inter> S = {}" and "{n + NODE_SIZE..<hi} \<inter> S = {}"
  shows "xattrs_in img' n hi xs"
proof -
  obtain addrs where x: "n_xattrs_count img n = Some (length xs)" "sorted_wrt name_less (map fst xs)"
      "n + NODE_SIZE + ENTRY_SIZE * length xs \<le> hi"
      "xattr_table img (n + NODE_SIZE + ENTRY_SIZE * length xs) hi (n + NODE_SIZE) xs addrs"
    using assms(1) by (auto simp: xattrs_in_def)
  have "xattr_table img' (n + NODE_SIZE + ENTRY_SIZE * length xs) hi (n + NODE_SIZE) xs addrs"
  proof (rule xattr_table_frame [OF x(4) assms(2)])
    have "{n + NODE_SIZE..<n + NODE_SIZE + ENTRY_SIZE * length xs} \<union> {n + NODE_SIZE + ENTRY_SIZE * length xs..<hi} \<subseteq>
        {n + NODE_SIZE..<hi}" using x(3) by auto
    then show "({n + NODE_SIZE..<n + NODE_SIZE + ENTRY_SIZE * length xs} \<union>
        {n + NODE_SIZE + ENTRY_SIZE * length xs..<hi}) \<inter> S = {}" using assms(4) by blast
  qed simp_all
  moreover have "n_xattrs_count img' n = Some (length xs)"
    using get_u32_frame [of img "n + 48" _ S img'] x(1) assms(2,3) by (simp add: n_xattrs_count_def add.assoc)
  ultimately show ?thesis using x(2,3) by (auto simp: xattrs_in_def)
qed

subsection \<open>Directories\<close>

text \<open>The name fields of the entries at \<open>e\<close>, with names between \<open>lo\<close> and \<open>hi\<close>.\<close>

definition name_table :: "bytes \<Rightarrow> nat \<Rightarrow> nat \<Rightarrow> nat \<Rightarrow> string list \<Rightarrow> bool" where
  "name_table img lo hi e names \<longleftrightarrow> (\<forall>k < length names. \<exists>no. get_u64 img (e + ENTRY_SIZE * k) = Some no \<and>
     lo \<le> no \<and> no + length (names ! k) + 1 \<le> hi \<and> c_str img no = Some (names ! k))"

lemma name_table_frame:
  assumes "name_table img lo hi e names" and "frame S img img'" and "{lo..<hi} \<inter> S = {}"
    and "\<And>k. k < length names \<Longrightarrow> {e + ENTRY_SIZE * k..<e + ENTRY_SIZE * k + 8} \<inter> S = {}"
  shows "name_table img' lo hi e names"
  unfolding name_table_def
proof (intro allI impI)
  fix k
  assume k: "k < length names"
  then obtain no where no: "get_u64 img (e + ENTRY_SIZE * k) = Some no" "lo \<le> no" "no + length (names ! k) + 1 \<le> hi"
      "c_str img no = Some (names ! k)"
    using assms(1) unfolding name_table_def by blast
  have "{no..<no + length (names ! k) + 1} \<subseteq> {lo..<hi}" using no(2,3) by auto
  then have "{no..<no + length (names ! k) + 1} \<inter> S = {}" using assms(3) by blast
  then show "\<exists>no. get_u64 img' (e + ENTRY_SIZE * k) = Some no \<and> lo \<le> no \<and> no + length (names ! k) + 1 \<le> hi \<and>
      c_str img' no = Some (names ! k)"
    using no get_u64_frame [OF no(1) assms(2) assms(4) [OF k]] c_str_frame [OF no(4) assms(2)] by blast
qed

definition name_bytes :: "string list \<Rightarrow> nat" where
  "name_bytes names = (\<Sum>name \<leftarrow> names. length name + 1)"

lemma name_bytes_simps [simp]:
  "name_bytes [] = 0" "name_bytes (name # names) = length name + 1 + name_bytes names"
  by (simp_all add: name_bytes_def)

lemma entries_bytes: "(\<Sum>name \<leftarrow> names. length name + 1 + ENTRY_SIZE) = ENTRY_SIZE * length names + name_bytes names"
  by (induction names) simp_all

lemma add_names_ok:
  assumes "e + ENTRY_SIZE * length names \<le> at" and "at + name_bytes names \<le> length d"
    and "\<forall>name \<in> set names. CHR 0x00 \<notin> set name" and "at + name_bytes names < 2 ^ 64"
  shows "\<exists>d'. add_names e names d at = Some (d', at + name_bytes names) \<and> length d' = length d \<and>
    frame ({e..<e + ENTRY_SIZE * length names} \<union> {at..<at + name_bytes names}) d d' \<and>
    name_table d' at (at + name_bytes names) e names"
  using assms
proof (induction names arbitrary: e d at)
  case Nil
  then show ?case by (simp add: name_table_def)
next
  case (Cons name names)
  let ?n = "length name"
  define at' where "at' = at + ?n + 1"
  define d1 where "d1 = upd (upd d at (name @ [CHR 0x00])) e (le_bytes 8 at)"
  have b: "e + 16 + 16 * length names \<le> at" "at' + name_bytes names \<le> length d" "at' + name_bytes names < 2 ^ 64"
    "CHR 0x00 \<notin> set name"
    using Cons.prems by (simp_all add: ENTRY_SIZE_def at'_def)
  have len: "length d1 = length d" using b by (simp add: d1_def at'_def upd_simps)
  have facts: "get_u64 d1 e = Some at" "slice d1 at (?n + 1) = Some (name @ [CHR 0x00])"
    using b by (simp_all add: d1_def at'_def upd_simps slice_upd_other slice_upd_same)
  have fr: "frame ({e..<e + 16} \<union> {at..<at'}) d d1"
    unfolding d1_def by (intro frame_upd frame_refl) (use b in \<open>auto simp: at'_def upd_simps\<close>)
  obtain d' where ih: "add_names (e + 16) names d1 at' = Some (d', at' + name_bytes names)" "length d' = length d1"
      "frame ({e + 16..<e + 16 + 16 * length names} \<union> {at'..<at' + name_bytes names}) d1 d'"
      "name_table d' at' (at' + name_bytes names) (e + 16) names"
    using Cons.IH [of "e + 16" at' d1] Cons.prems(3) b len by (auto simp: ENTRY_SIZE_def at'_def)
  have "get_u64 d' e = Some at"
    by (rule get_u64_frame [OF facts(1) ih(3)]) (use b in \<open>auto simp: at'_def\<close>)
  moreover have "slice d' at (?n + 1) = Some (name @ [CHR 0x00])"
    by (rule slice_frame [OF facts(2) ih(3)]) (use b in \<open>auto simp: at'_def\<close>)
  then have "c_str d' at = Some name" using b(4) by (simp add: c_str_slice)
  ultimately have zero: "\<exists>no. get_u64 d' e = Some no \<and> at \<le> no \<and> no + ?n + 1 \<le> at' + name_bytes names \<and> c_str d' no = Some name"
    by (intro exI [of _ at]) (simp add: at'_def)
  have "\<exists>no. get_u64 d' (e + ENTRY_SIZE * Suc k) = Some no \<and> at \<le> no \<and> no + length (names ! k) + 1 \<le> at' + name_bytes names \<and>
      c_str d' no = Some (names ! k)" if k: "k < length names" for k
  proof -
    obtain no where "get_u64 d' (e + 16 + ENTRY_SIZE * k) = Some no" "at' \<le> no"
        "no + length (names ! k) + 1 \<le> at' + name_bytes names" "c_str d' no = Some (names ! k)"
      using ih(4) k unfolding name_table_def by blast
    then show ?thesis by (intro exI [of _ no]) (simp add: ENTRY_SIZE_def at'_def add.assoc)
  qed
  with zero have tab: "name_table d' at (at' + name_bytes names) e (name # names)"
    by (auto simp: name_table_def less_Suc_eq_0_disj)
  have frm: "frame ({e..<e + 16 + 16 * length names} \<union> {at..<at' + name_bytes names}) d d'"
    by (rule frame_mono [OF frame_trans [OF fr ih(3)]]) (auto simp: at'_def)
  have step: "add_names e (name # names) d at = add_names (e + 16) names d1 at'"
    using b by (simp add: d1_def at'_def upd_simps ENTRY_SIZE_def add.assoc)
  have eq: "at + name_bytes (name # names) = at' + name_bytes names"
    "e + ENTRY_SIZE * length (name # names) = e + 16 + 16 * length names"
    by (simp_all add: at'_def ENTRY_SIZE_def)
  have "length d' = length d" using ih(2) len by simp
  then show ?case unfolding eq step ih(1) using tab frm by blast
qed

subsection \<open>Trees in a range of the buffer\<close>

text \<open>
  \<open>lays img n hi t\<close>: the addresses from \<open>n\<close> to \<open>hi\<close> hold the tree, with the node at \<open>n\<close>. The
  trees of the entries of a directory lie behind one another, between the addresses \<open>bs\<close>.
\<close>

inductive lays :: "bytes \<Rightarrow> nat \<Rightarrow> nat \<Rightarrow> tree \<Rightarrow> bool" for img where
  reg: "attrs_at img n a \<Longrightarrow> S_ISREG (a_mode a) \<Longrightarrow> xattrs_in img n hi xs \<Longrightarrow> n_data_offset img n = Some p \<Longrightarrow>
    n_length img n = Some len \<Longrightarrow> lays img n hi (Reg a xs p len)"
| lnk: "attrs_at img n a \<Longrightarrow> S_ISLNK (a_mode a) \<Longrightarrow> xattrs_in img n hi xs \<Longrightarrow> n_data_offset img n = Some t \<Longrightarrow>
    c_str img t = Some target \<Longrightarrow> n + NODE_SIZE \<le> t \<Longrightarrow> t + length target + 1 \<le> hi \<Longrightarrow> lays img n hi (Lnk a xs target)"
| dir: "attrs_at img n a \<Longrightarrow> S_ISDIR (a_mode a) \<Longrightarrow> xattrs_in img n mid xs \<Longrightarrow>
    n_length img n = Some (length es) \<Longrightarrow> length es < 2 ^ 31 \<Longrightarrow>
    n_data_offset img n = Some (n + NODE_SIZE + xattrs_size xs) \<Longrightarrow> sorted_wrt name_less (map fst es) \<Longrightarrow>
    name_table img (n + NODE_SIZE) mid (n + NODE_SIZE + xattrs_size xs) (map fst es) \<Longrightarrow>
    n + NODE_SIZE + xattrs_size xs + ENTRY_SIZE * length es \<le> mid \<Longrightarrow>
    length bs = Suc (length es) \<Longrightarrow> bs ! 0 = mid \<Longrightarrow> bs ! length es = hi \<Longrightarrow>
    (\<forall>i < length es. bs ! i \<le> bs ! Suc i \<and>
       get_u64 img (n + NODE_SIZE + xattrs_size xs + ENTRY_SIZE * i + 8) = Some (bs ! i) \<and>
       lays img (bs ! i) (bs ! Suc i) (snd (es ! i))) \<Longrightarrow> lays img n hi (Dir a xs es)"

lemma steps_mono:
  assumes "\<forall>i < m. (bs :: nat list) ! i \<le> bs ! Suc i" and "i \<le> j" and "j \<le> m"
  shows "bs ! i \<le> bs ! j"
  using assms(2,3)
proof (induction j)
  case 0
  then show ?case by simp
next
  case (Suc j)
  show ?case
  proof (cases "i = Suc j")
    case False
    then have "bs ! i \<le> bs ! j" using Suc by simp
    also have "\<dots> \<le> bs ! Suc j" using assms(1) Suc.prems(2) by simp
    finally show ?thesis .
  qed simp
qed

lemma lays_represents: "lays img n hi t \<Longrightarrow> represents img n t"
proof (induction rule: lays.induct)
  case (reg n a hi xs p len)
  then show ?case by (intro represents.reg xattrs_in_at)
next
  case (lnk n a hi xs t target)
  then show ?case by (intro represents.lnk xattrs_in_at)
next
  case (dir n a mid xs es bs hi)
  have pos: "0 < bs ! i" if "i < length es" for i
    using steps_mono [of "length es" bs 0 i] dir(13) that dir(9,11) by (force simp: NODE_SIZE_def)
  have "table_at img (n + NODE_SIZE + xattrs_size xs) (map fst es) (take (length es) bs)"
    unfolding table_at_def
  proof (intro conjI allI impI)
    show "length (take (length es) bs) = length (map fst es)" using dir(10) by simp
    show "0 \<notin> set (take (length es) bs)" using pos dir(10) by (auto simp: in_set_conv_nth)
    fix i
    assume i: "i < length (map fst es)"
    show "e_data_offset img (n + NODE_SIZE + xattrs_size xs) i = Some (take (length es) bs ! i)"
      using dir(13) i by (simp add: e_data_offset_def)
    show "\<exists>no. e_name_offset img (n + NODE_SIZE + xattrs_size xs) i = Some no \<and> c_str img no = Some (map fst es ! i)"
      using dir(8) i unfolding name_table_def e_name_offset_def by blast
  qed
  then show ?case
    using dir by (intro represents.dir [of img n a xs es "take (length es) bs"] xattrs_in_at [OF dir(3)]) auto
qed

end
