(* ===== verification/Metafs_Scan.thy ===== *)
theory Metafs_Scan
  imports Metafs_Layout
begin

text \<open>
  What MetaFSBuilder::scan_dfs writes: for a directory tree that the system describes
  consistently the buffer gets the image of exactly that tree. The tree is specified by
  \<open>scanned\<close>, directly over the answers of the system.
\<close>

subsection \<open>The tree the system shows\<close>

definition link_target :: "host \<Rightarrow> string \<Rightarrow> string" where
  "link_target h path = (case h_readlink h path of None \<Rightarrow> [] | Some name \<Rightarrow> c_string (take PATH_MAX name))"

text \<open>The positions of the contents of regular files are not known to the scan.\<close>

inductive scanned :: "host \<Rightarrow> string \<Rightarrow> tree \<Rightarrow> bool" for h where
  reg: "sys_lstat h path = Some st \<Longrightarrow> S_ISREG (st_mode st) \<Longrightarrow> scanned h path (Reg (attrs_of st) (read_xattrs h path) p len)"
| lnk: "sys_lstat h path = Some st \<Longrightarrow> S_ISLNK (st_mode st) \<Longrightarrow>
    scanned h path (Lnk (attrs_of st) (read_xattrs h path) (link_target h path))"
| dir: "sys_lstat h path = Some st \<Longrightarrow> S_ISDIR (st_mode st) \<Longrightarrow> map fst es = scan_names h path \<Longrightarrow>
    (\<forall>e \<in> set es. scanned h (path @ ''/'' @ fst e) (snd e)) \<Longrightarrow>
    scanned h path (Dir (attrs_of st) (read_xattrs h path) es)"

text \<open>The bytes a tree takes.\<close>

fun packed_size :: "tree \<Rightarrow> nat" where
  "packed_size (Reg a xs p len) = NODE_SIZE + xattrs_len xs"
| "packed_size (Lnk a xs target) = NODE_SIZE + xattrs_len xs + length target + 1"
| "packed_size (Dir a xs es) = NODE_SIZE + xattrs_len xs + ENTRY_SIZE * length es + name_bytes (map fst es) +
     sum_list (map packed_size (map snd es))"

text \<open>Answers of the system that fit the fields of the image and have no NUL where a C string is.\<close>

definition host_ok :: "host \<Rightarrow> bool" where
  "host_ok h \<longleftrightarrow>
     (\<forall>path st. h_lstat h path = Some st \<longrightarrow> stat_ok st) \<and>
     (\<forall>path names. h_readdir h path = Some names \<longrightarrow>
        distinct names \<and> length names < 2 ^ 31 \<and> (\<forall>name \<in> set names. CHR 0x00 \<notin> set name)) \<and>
     (\<forall>path. no_nuls (read_xattrs h path) \<and> distinct (map fst (read_xattrs h path)) \<and>
        length (read_xattrs h path) < 2 ^ 32)"

lemma name_less_eq: "name_less s t \<longleftrightarrow> s < t"
  by (simp add: name_less_def list_less_def less_char_def)

lemma host_okD:
  assumes "host_ok h"
  shows "sys_lstat h path = Some st \<Longrightarrow> stat_ok st"
    and "sorted_wrt name_less (scan_names h path)" and "length (scan_names h path) < 2 ^ 31"
    and "\<forall>name \<in> set (scan_names h path). CHR 0x00 \<notin> set name"
    and "no_nuls (read_xattrs h path)" and "length (read_xattrs h path) < 2 ^ 32"
    and "sorted_wrt name_less (map fst (read_xattrs h path))"
proof -
  show "sys_lstat h path = Some st \<Longrightarrow> stat_ok st" using assms by (auto simp: sys_lstat_def host_ok_def split: if_splits)
  show "no_nuls (read_xattrs h path)" "length (read_xattrs h path) < 2 ^ 32" using assms by (auto simp: host_ok_def)
  have "sorted (map fst (read_xattrs h path))"
    unfolding read_xattrs_def by (auto split: option.splits intro!: sorted_map_mono mono_onI simp: less_eq_prod_def)
  then show "sorted_wrt name_less (map fst (read_xattrs h path))"
    using assms by (simp add: name_less_eq [abs_def] strict_sorted_iff host_ok_def)
  have "distinct (scan_names h path) \<and> length (scan_names h path) < 2 ^ 31 \<and> (\<forall>name \<in> set (scan_names h path). CHR 0x00 \<notin> set name)"
    using assms by (auto simp: scan_names_def host_ok_def split: option.splits intro: le_less_trans [OF length_filter_le])
  moreover have "sorted (scan_names h path)" by (auto simp: scan_names_def split: option.splits)
  ultimately show "sorted_wrt name_less (scan_names h path)" "length (scan_names h path) < 2 ^ 31"
    "\<forall>name \<in> set (scan_names h path). CHR 0x00 \<notin> set name"
    by (simp_all add: name_less_eq [abs_def] strict_sorted_iff)
qed

subsection \<open>Single nodes\<close>

lemma attrs_at_frame:
  assumes "attrs_at d n a" and "frame S d d'" and "{n..<n + 48} \<inter> S = {}"
  shows "attrs_at d' n a"
proof -
  have sub: "A \<inter> S = {}" if "A \<subseteq> {n..<n + 48}" for A using assms(3) that by blast
  show ?thesis
    using assms(1) unfolding attrs_at_def n_mode_def n_uid_def n_gid_def n_size_def n_block_count_def n_mtime_ns_def n_ctime_ns_def
    by (elim conjE, intro conjI) (erule get_u32_frame [OF _ assms(2) sub] get_u64_frame [OF _ assms(2) sub], force)+
qed

lemma xattrs_in_le: "xattrs_in d n hi xs \<Longrightarrow> n + 72 \<le> hi"
  by (simp add: xattrs_in_def NODE_SIZE_def)

lemma xattrs_in_mono: "xattrs_in d n hi xs \<Longrightarrow> hi \<le> hi' \<Longrightarrow> xattrs_in d n hi' xs"
  unfolding xattrs_in_def by (force intro: xattr_table_frame [OF _ frame_refl [of "{}"]])

lemma lays_le: "lays d n hi t \<Longrightarrow> n + 72 \<le> hi"
proof (induction rule: lays.induct)
  case (dir n a mid xs es bs hi)
  then show ?case using steps_mono [of "length es" bs 0 "length es"] xattrs_in_le [OF dir(3)] by force
qed (simp_all add: xattrs_in_le)

text \<open>
  A directory whose own part of the memory, up to \<open>mid\<close>, is kept, and whose entries are replaced
  by trees in the same places.
\<close>

inductive_cases lays_DirE: "lays img n hi (Dir a xs es)"
inductive_cases lays_RegE: "lays img n hi (Reg a xs p len)"
inductive_cases lays_LnkE: "lays img n hi (Lnk a xs target)"

lemma lays_dir_replace:
  assumes "attrs_at d n a" and "S_ISDIR (a_mode a)" and "xattrs_in d n mid xs" and "n_length d n = Some (length es)"
    and "length es < 2 ^ 31" and "n_data_offset d n = Some (n + NODE_SIZE + xattrs_size xs)"
    and "sorted_wrt name_less (map fst es)"
    and "name_table d (n + NODE_SIZE) mid (n + NODE_SIZE + xattrs_size xs) (map fst es)"
    and "n + NODE_SIZE + xattrs_size xs + ENTRY_SIZE * length es \<le> mid"
    and "length bs = Suc (length es)" and "bs ! 0 = mid" and "bs ! length es = hi"
    and "\<forall>i < length es. bs ! i \<le> bs ! Suc i \<and>
       get_u64 d (n + NODE_SIZE + xattrs_size xs + ENTRY_SIZE * i + 8) = Some (bs ! i)"
    and "frame S d d'" and "{n..<mid} \<inter> S = {}" and "map fst es' = map fst es"
    and "\<forall>i < length es. lays d' (bs ! i) (bs ! Suc i) (snd (es' ! i))"
  shows "lays d' n hi (Dir a xs es')"
proof -
  let ?D = "n + NODE_SIZE + xattrs_size xs"
  have sub: "A \<inter> S = {}" if "A \<subseteq> {n..<mid}" for A using assms(15) that by blast
  have le: "n + 72 \<le> mid" by (rule xattrs_in_le [OF assms(3)])
  have len: "length es' = length es" using arg_cong [OF assms(16), of length] by simp
  have i_le: "?D + ENTRY_SIZE * k + 16 \<le> mid" if "k < length es" for k
    using assms(9) that mult_le_mono2 [of "Suc k" "length es" 16] by (simp add: ENTRY_SIZE_def)
  have n_le: "n \<le> ?D" by simp
  show ?thesis
  proof (rule lays.dir [where bs = bs and mid = mid])
    show "attrs_at d' n a" by (rule attrs_at_frame [OF assms(1,14) sub]) (use le in auto)
    show "xattrs_in d' n mid xs" by (rule xattrs_in_frame [OF assms(3,14) sub sub]) (use le in auto)
    show "n_length d' n = Some (length es')" "n_data_offset d' n = Some ?D"
      using assms(4,6) unfolding n_data_offset_def n_length_def len
      by (elim get_u64_frame [OF _ assms(14) sub]; use le in force)+
    show "name_table d' (n + NODE_SIZE) mid ?D (map fst es')"
      unfolding assms(16) by (rule name_table_frame [OF assms(8,14) sub sub]) (use i_le n_le in \<open>force+\<close>)
    show "\<forall>i < length es'. bs ! i \<le> bs ! Suc i \<and> get_u64 d' (?D + ENTRY_SIZE * i + 8) = Some (bs ! i) \<and>
        lays d' (bs ! i) (bs ! Suc i) (snd (es' ! i))"
    proof (intro allI impI)
      fix i
      assume "i < length es'"
      then have i: "i < length es" by (simp add: len)
      have "get_u64 d' (?D + ENTRY_SIZE * i + 8) = Some (bs ! i)"
        by (rule get_u64_frame [OF _ assms(14) sub]) (use assms(13) i i_le [OF i] n_le in \<open>force+\<close>)
      then show "bs ! i \<le> bs ! Suc i \<and> get_u64 d' (?D + ENTRY_SIZE * i + 8) = Some (bs ! i) \<and>
          lays d' (bs ! i) (bs ! Suc i) (snd (es' ! i))"
        using assms(13,17) i by blast
    qed
  qed (use assms len in simp_all)
qed

text \<open>A tree does not change when the memory outside its range does.\<close>

lemma lays_frame:
  assumes "lays d n hi t" and "frame S d d'" and "{n..<hi} \<inter> S = {}"
  shows "lays d' n hi t"
  using assms(1,3)
proof (induction rule: lays.induct)
  case (reg n a hi xs p len)
  have sub: "A \<inter> S = {}" if "A \<subseteq> {n..<hi}" for A using reg.prems that by blast
  have le: "n + 72 \<le> hi" by (rule xattrs_in_le [OF reg(3)])
  show ?case
  proof (rule lays.reg)
    show "attrs_at d' n a" by (rule attrs_at_frame [OF reg(1) assms(2) sub]) (use le in auto)
    show "xattrs_in d' n hi xs" by (rule xattrs_in_frame [OF reg(3) assms(2) sub sub]) (use le in auto)
    show "n_data_offset d' n = Some p" "n_length d' n = Some len"
      using reg(4,5) unfolding n_data_offset_def n_length_def
      by (elim get_u64_frame [OF _ assms(2) sub]; use le in force)+
  qed (rule reg)
next
  case (lnk n a hi xs t target)
  have sub: "A \<inter> S = {}" if "A \<subseteq> {n..<hi}" for A using lnk.prems that by blast
  have le: "n + 72 \<le> hi" by (rule xattrs_in_le [OF lnk(3)])
  show ?case
  proof (rule lays.lnk)
    show "attrs_at d' n a" by (rule attrs_at_frame [OF lnk(1) assms(2) sub]) (use le in auto)
    show "xattrs_in d' n hi xs" by (rule xattrs_in_frame [OF lnk(3) assms(2) sub sub]) (use le in auto)
    show "n_data_offset d' n = Some t"
      using lnk(4) unfolding n_data_offset_def by (elim get_u64_frame [OF _ assms(2) sub]) (use le in force)
    show "c_str d' t = Some target"
      by (rule c_str_frame [OF lnk(5) assms(2) sub]) (use lnk(6,7) in auto)
  qed (rule lnk)+
next
  case (dir n a mid xs es bs hi)
  have step: "\<forall>i < length es. bs ! i \<le> bs ! Suc i" using dir(13) by blast
  note mono = steps_mono [OF step]
  have le: "n + 72 \<le> mid" "mid \<le> hi"
    using xattrs_in_le [OF dir(3)] mono [of 0 "length es"] dir(11,12) by simp_all
  have "lays d' (bs ! i) (bs ! Suc i) (snd (es ! i))" if i: "i < length es" for i
  proof -
    have "mid \<le> bs ! i" "bs ! Suc i \<le> hi" using mono [of 0 i] mono [of "Suc i" "length es"] i dir(11,12) by simp_all
    then have "{bs ! i..<bs ! Suc i} \<subseteq> {n..<hi}" using le by auto
    then have "{bs ! i..<bs ! Suc i} \<inter> S = {}" using dir.prems by blast
    then show ?thesis using dir(13) i by blast
  qed
  moreover have "{n..<mid} \<subseteq> {n..<hi}" using le by auto
  then have "{n..<mid} \<inter> S = {}" using dir.prems by blast
  ultimately show ?case using dir(13) by (intro lays_dir_replace [OF dir(1-12) _ assms(2)]) auto
qed

text \<open>The attributes behind a node.\<close>

lemma add_xattrs_ok:
  assumes "current_pos b = n + NODE_SIZE" and "n + NODE_SIZE + xattrs_len xs \<le> length (mb_data b)"
    and "n + NODE_SIZE + xattrs_len xs < 2 ^ 64" and "get_u32 (mb_data b) (n + 48) = Some (length xs)"
    and "no_nuls xs" and "sorted_wrt name_less (map fst xs)"
  shows "\<exists>d'. add_xattrs xs b = Some (b\<lparr>mb_data := d', current_pos := n + NODE_SIZE + xattrs_len xs\<rparr>) \<and>
    length d' = length (mb_data b) \<and> frame {n + NODE_SIZE..<n + NODE_SIZE + xattrs_len xs} (mb_data b) d' \<and>
    xattrs_in d' n (n + NODE_SIZE + xattrs_len xs) xs"
proof -
  let ?e = "n + NODE_SIZE" and ?at = "n + NODE_SIZE + ENTRY_SIZE * length xs"
  have hi: "?at + xattr_bytes xs = n + NODE_SIZE + xattrs_len xs" by (simp add: xattrs_len_eq(1))
  obtain d' addrs where d': "add_xattr_loop ?e xs (mb_data b) ?at = Some (d', ?at + xattr_bytes xs)"
      "length d' = length (mb_data b)"
      "frame ({?e..<?e + ENTRY_SIZE * length xs} \<union> {?at..<?at + xattr_bytes xs}) (mb_data b) d'"
      "xattr_table d' ?at (?at + xattr_bytes xs) ?e xs addrs"
    using add_xattr_loop_ok [of ?e xs ?at "mb_data b"] assms(2,3,5) unfolding hi by auto
  have fr: "frame {?e..<n + NODE_SIZE + xattrs_len xs} (mb_data b) d'"
    by (rule frame_mono [OF d'(3)]) (use hi in auto)
  have "get_u32 d' (n + 48) = Some (length xs)"
    by (rule get_u32_frame [OF assms(4) fr]) (simp add: NODE_SIZE_def)
  then have "xattrs_in d' n (n + NODE_SIZE + xattrs_len xs) xs"
    using d'(4) assms(6) hi by (auto simp: xattrs_in_def n_xattrs_count_def)
  then show ?thesis using d'(1,2) fr hi assms(1) by (intro exI [of _ d']) (simp add: add_xattrs_def)
qed

lemma reserve_effect:
  assumes "0 < length (mb_data b)" and "\<And>n. length (fresh n) = n"
  obtains d where "reserve_buffer fresh len b = Some (b\<lparr>mb_data := d\<rparr>)" and "frame {} (mb_data b) d"
    and "len + current_pos b \<le> length d"
  using reserve_buffer_ok [where len = len, OF assms] frame_append by blast

lemma get_u64_some: "off + 8 \<le> length d \<Longrightarrow> \<exists>v. get_u64 d off = Some v"
  by (simp add: get_u64_def slice_def)

lemma node_start:
  assumes "0 < length (mb_data b)" and "\<And>n. length (fresh n) = n" and "stat_ok st" and "length xs < 2 ^ 32"
    and "n = current_pos b" and "72 \<le> len"
  obtains d0 d1 d2 where "reserve_buffer fresh len b = Some (b\<lparr>mb_data := d0\<rparr>)" and "set_stat st n d0 = Some d1"
    and "put_u32 d1 (n + 48) (length xs) = Some d2" and "n + len \<le> length d2" and "frame {n..<n + 52} (mb_data b) d2"
    and "attrs_at d2 n (attrs_of st)" and "get_u32 d2 (n + 48) = Some (length xs)"
proof -
  obtain d0 where d0: "reserve_buffer fresh len b = Some (b\<lparr>mb_data := d0\<rparr>)" "frame {} (mb_data b) d0"
      "len + current_pos b \<le> length d0"
    using assms(1,2) by (rule reserve_effect)
  have "n + 72 \<le> length d0" using d0(3) assms(5,6) by simp
  then obtain d1 where d1: "set_stat st n d0 = Some d1" "length d1 = length d0" "frame {n..<n + 48} d0 d1"
      "attrs_at d1 n (attrs_of st)"
    using assms(3) by (rule set_stat_effect)
  have "n + 48 + 4 \<le> length d1" using d0(3) d1(2) assms(5,6) by simp
  then obtain d2 where d2: "put_u32 d1 (n + 48) (length xs) = Some d2" "length d2 = length d1"
      "frame {n + 48..<n + 48 + 4} d1 d2" "get_u32 d2 (n + 48) = Some (length xs)"
    using assms(4) by (rule put_u32_effect)
  show thesis
  proof (rule that [OF d0(1) d1(1) d2(1)])
    show "n + len \<le> length d2" using d0(3) d1(2) d2(2) assms(5) by simp
    show "frame {n..<n + 52} (mb_data b) d2"
      by (rule frame_mono [OF frame_trans [OF d0(2) frame_trans [OF d1(3) d2(3)]]]) auto
    show "attrs_at d2 n (attrs_of st)" by (rule attrs_at_frame [OF d1(4) d2(3)]) simp
  qed (rule d2(4))
qed

lemma add_file_node_ok:
  assumes "0 < length (mb_data b)" and "\<And>n. length (fresh n) = n" and "stat_ok st" and "length xs < 2 ^ 32"
    and "no_nuls xs" and "sorted_wrt name_less (map fst xs)" and "S_ISREG (st_mode st)"
    and "n = current_pos b" and "hi = n + NODE_SIZE + xattrs_len xs" and "hi < 2 ^ 64"
  shows "\<exists>d' p len. add_file_node fresh st xs b = Some (n, b\<lparr>mb_data := d', current_pos := hi\<rparr>) \<and>
    hi \<le> length d' \<and> frame {n..<hi} (mb_data b) d' \<and> lays d' n hi (Reg (attrs_of st) xs p len)"
proof -
  have "72 \<le> NODE_SIZE + xattrs_len xs" by (simp add: NODE_SIZE_def)
  then obtain d0 d1 d2 where d: "reserve_buffer fresh (NODE_SIZE + xattrs_len xs) b = Some (b\<lparr>mb_data := d0\<rparr>)"
      "set_stat st n d0 = Some d1" "put_u32 d1 (n + 48) (length xs) = Some d2"
      "n + (NODE_SIZE + xattrs_len xs) \<le> length d2"
      "frame {n..<n + 52} (mb_data b) d2" "attrs_at d2 n (attrs_of st)" "get_u32 d2 (n + 48) = Some (length xs)"
    by (rule node_start [OF assms(1-4,8)])
  let ?b = "b\<lparr>mb_data := d2, current_pos := n + NODE_SIZE\<rparr>"
  obtain d' where d': "add_xattrs xs ?b = Some (b\<lparr>mb_data := d', current_pos := hi\<rparr>)" "length d' = length d2"
      "frame {n + NODE_SIZE..<hi} d2 d'" "xattrs_in d' n hi xs"
    using add_xattrs_ok [of ?b n xs] d(4,7) assms(5,6,9,10) by (auto simp: add.assoc)
  have at: "attrs_at d' n (attrs_of st)" by (rule attrs_at_frame [OF d(6) d'(3)]) (simp add: NODE_SIZE_def)
  have "n + 64 + 8 \<le> length d'" "n + 56 + 8 \<le> length d'" using d(4) d'(2) by (simp_all add: NODE_SIZE_def)
  then obtain p len where "n_data_offset d' n = Some p" "n_length d' n = Some len"
    unfolding n_data_offset_def n_length_def using get_u64_some by blast
  then have "lays d' n hi (Reg (attrs_of st) xs p len)"
    using at d'(4) assms(7) by (intro lays.reg) (simp_all add: attrs_of_def)
  moreover have "frame {n..<hi} (mb_data b) d'"
    by (rule frame_mono [OF frame_trans [OF d(5) d'(3)]]) (use assms(9) in \<open>auto simp: NODE_SIZE_def\<close>)
  moreover have "add_file_node fresh st xs b = Some (n, b\<lparr>mb_data := d', current_pos := hi\<rparr>)"
    using d(1-3) d'(1) assms(8) by (simp add: add_file_node_def Let_def)
  ultimately show ?thesis using d(4) d'(2) assms(9) by (intro exI conjI) auto
qed

lemma add_link_ok:
  assumes "0 < length (mb_data b)" and "\<And>n. length (fresh n) = n" and "stat_ok st" and "length xs < 2 ^ 32"
    and "no_nuls xs" and "sorted_wrt name_less (map fst xs)" and "S_ISLNK (st_mode st)" and "CHR 0x00 \<notin> set target"
    and "n = current_pos b" and "hi = n + NODE_SIZE + xattrs_len xs + length target + 1" and "hi < 2 ^ 64"
  shows "\<exists>d'. add_link fresh st target xs b = Some (n, b\<lparr>mb_data := d', current_pos := hi\<rparr>) \<and>
    hi \<le> length d' \<and> frame {n..<hi} (mb_data b) d' \<and> lays d' n hi (Lnk (attrs_of st) xs target)"
proof -
  let ?len = "NODE_SIZE + (length target + 1) + xattrs_len xs" and ?t = "n + NODE_SIZE + xattrs_len xs"
  have "72 \<le> ?len" by (simp add: NODE_SIZE_def)
  then obtain d0 d1 d2 where d: "reserve_buffer fresh ?len b = Some (b\<lparr>mb_data := d0\<rparr>)"
      "set_stat st n d0 = Some d1" "put_u32 d1 (n + 48) (length xs) = Some d2" "n + ?len \<le> length d2"
      "frame {n..<n + 52} (mb_data b) d2" "attrs_at d2 n (attrs_of st)" "get_u32 d2 (n + 48) = Some (length xs)"
    by (rule node_start [OF assms(1-4,9)])
  let ?b = "b\<lparr>mb_data := d2, current_pos := n + NODE_SIZE\<rparr>"
  obtain d3 where d3: "add_xattrs xs ?b = Some (b\<lparr>mb_data := d3, current_pos := ?t\<rparr>)" "length d3 = length d2"
      "frame {n + NODE_SIZE..<?t} d2 d3" "xattrs_in d3 n ?t xs"
    using add_xattrs_ok [of ?b n xs] d(4,7) assms(5,6,10,11) by (auto simp: add.assoc)
  have "?t + length target + 1 \<le> length d3" using d(4) d3(2) by simp
  then obtain d4 where d4: "strncpy d3 ?t target (length target + 1) = Some d4" "length d4 = length d3"
      "frame {?t..<?t + length target + 1} d3 d4" "slice d4 ?t (length target + 1) = Some (target @ [CHR 0x00])"
    using assms(8) by (rule strncpy_effect)
  have "n + 64 + 8 \<le> length d4" "?t < 2 ^ 64" using d(4) d3(2) d4(2) assms(10,11) by (simp_all add: NODE_SIZE_def)
  then obtain d5 where d5: "put_u64 d4 (n + 64) ?t = Some d5" "length d5 = length d4" "frame {n + 64..<n + 64 + 8} d4 d5"
      "get_u64 d5 (n + 64) = Some ?t"
    by (rule put_u64_effect)
  have f: "frame {n + 52..<hi} d2 d5"
    by (rule frame_mono [OF frame_trans [OF d3(3) frame_trans [OF d4(3) d5(3)]]])
      (use assms(10) in \<open>auto simp: NODE_SIZE_def\<close>)
  have "attrs_at d5 n (attrs_of st)" by (rule attrs_at_frame [OF d(6) f]) simp
  moreover have "xattrs_in d5 n hi xs"
  proof -
    have "xattrs_in d5 n ?t xs"
      by (rule xattrs_in_frame [OF d3(4) frame_trans [OF d4(3) d5(3)]]) (auto simp: NODE_SIZE_def)
    then show ?thesis by (rule xattrs_in_mono) (use assms(10) in simp)
  qed
  moreover have "c_str d5 ?t = Some target"
    unfolding c_str_slice using assms(8) slice_frame [OF d4(4) d5(3)] by (simp add: NODE_SIZE_def)
  ultimately have "lays d5 n hi (Lnk (attrs_of st) xs target)"
    using d5(4) assms(7,10) by (intro lays.lnk [where t = ?t]) (simp_all add: attrs_of_def n_data_offset_def)
  moreover have "frame {n..<hi} (mb_data b) d5"
    by (rule frame_mono [OF frame_trans [OF d(5) f]]) (use assms(10) in \<open>auto simp: NODE_SIZE_def\<close>)
  moreover have "add_link fresh st target xs b = Some (n, b\<lparr>mb_data := d5, current_pos := hi\<rparr>)"
    using d(1-3) d3(1) d4(1) d5(1) assms(9,10) by (simp add: add_link_def Let_def)
  moreover have "hi \<le> length d5" using d(4) d3(2) d4(2) d5(2) assms(10) by simp
  ultimately show ?thesis by blast
qed

subsection \<open>Directories\<close>

text \<open>All of a directory up to \<open>mid\<close>, but for the addresses of the nodes of its entries.\<close>

definition dir_head :: "bytes \<Rightarrow> nat \<Rightarrow> nat \<Rightarrow> attrs \<Rightarrow> xattrs \<Rightarrow> string list \<Rightarrow> bool" where
  "dir_head img n mid a xs names \<longleftrightarrow> attrs_at img n a \<and> xattrs_in img n (n + NODE_SIZE + xattrs_len xs) xs \<and> n_length img n = Some (length names) \<and>
     n_data_offset img n = Some (n + NODE_SIZE + xattrs_len xs) \<and>
     name_table img (n + NODE_SIZE + xattrs_len xs + ENTRY_SIZE * length names) mid (n + NODE_SIZE + xattrs_len xs) names \<and>
     n + NODE_SIZE + xattrs_len xs + ENTRY_SIZE * length names \<le> mid"

lemma add_dir_ok:
  assumes "0 < length (mb_data b)" and "\<And>n. length (fresh n) = n" and "stat_ok st" and "length xs < 2 ^ 32"
    and "no_nuls xs" and "sorted_wrt name_less (map fst xs)" and "\<forall>name \<in> set names. CHR 0x00 \<notin> set name"
    and "n = current_pos b" and "D = n + NODE_SIZE + xattrs_len xs"
    and "mid = D + ENTRY_SIZE * length names + name_bytes names" and "mid < 2 ^ 64"
  shows "\<exists>d'. add_dir fresh st names xs b = Some (n, D, b\<lparr>mb_data := d', current_pos := mid\<rparr>) \<and>
    mid \<le> length d' \<and> frame {n..<mid} (mb_data b) d' \<and> dir_head d' n mid (attrs_of st) xs names"
proof -
  let ?len = "NODE_SIZE + (ENTRY_SIZE * length names + name_bytes names) + xattrs_len xs" and ?at = "D + ENTRY_SIZE * length names"
  have "72 \<le> ?len" by (simp add: NODE_SIZE_def)
  have "0 < length (mb_data b)" by (rule assms(1))
  then obtain d0 where d0: "reserve_buffer fresh ?len b = Some (b\<lparr>mb_data := d0\<rparr>)" "frame {} (mb_data b) d0"
      "?len + current_pos b \<le> length d0"
    using assms(2) by (rule reserve_effect)
  have l0: "mid \<le> length d0" "n + 72 \<le> length d0" "n + 72 \<le> D" "length names < 2 ^ 64"
    using d0(3) assms(8-11) by (simp_all add: NODE_SIZE_def ENTRY_SIZE_def)
  obtain d1 where d1: "set_stat st n d0 = Some d1" "length d1 = length d0" "frame {n..<n + 48} d0 d1"
      "attrs_at d1 n (attrs_of st)"
    using l0(2) assms(3) by (rule set_stat_effect)
  have "n + 56 + 8 \<le> length d1" using l0 d1(2) by simp
  then obtain d2 where d2: "put_u64 d1 (n + 56) (length names) = Some d2" "length d2 = length d1"
      "frame {n + 56..<n + 56 + 8} d1 d2" "get_u64 d2 (n + 56) = Some (length names)"
    using l0(4) by (rule put_u64_effect)
  have "n + 48 + 4 \<le> length d2" using l0 d1(2) d2(2) by simp
  then obtain d3 where d3: "put_u32 d2 (n + 48) (length xs) = Some d3" "length d3 = length d2"
      "frame {n + 48..<n + 48 + 4} d2 d3" "get_u32 d3 (n + 48) = Some (length xs)"
    using assms(4) by (rule put_u32_effect)
  let ?b = "b\<lparr>mb_data := d3, current_pos := n + NODE_SIZE\<rparr>"
  obtain d4 where d4: "add_xattrs xs ?b = Some (b\<lparr>mb_data := d4, current_pos := D\<rparr>)" "length d4 = length d3"
      "frame {n + NODE_SIZE..<D} d3 d4" "xattrs_in d4 n D xs"
    using add_xattrs_ok [of ?b n xs] l0(1) d1(2) d2(2) d3(2,4) assms(5,6,9-11) by (auto simp: add.assoc)
  have "n + 64 + 8 \<le> length d4" "D < 2 ^ 64" using l0 d1(2) d2(2) d3(2) d4(2) assms(10,11) by simp_all
  then obtain d5 where d5: "put_u64 d4 (n + 64) D = Some d5" "length d5 = length d4" "frame {n + 64..<n + 64 + 8} d4 d5"
      "get_u64 d5 (n + 64) = Some D"
    by (rule put_u64_effect)
  obtain d6 where d6: "add_names D names d5 ?at = Some (d6, mid)" "length d6 = length d5"
      "frame ({D..<?at} \<union> {?at..<mid}) d5 d6" "name_table d6 ?at mid D names"
    using add_names_ok [of D names ?at d5] l0(1) d1(2) d2(2) d3(2) d4(2) d5(2) assms(7,10,11) by auto
  have f56: "frame {D..<mid} d5 d6" by (rule frame_mono [OF d6(3)]) (use assms(10) in auto)
  have f16: "frame {n + 48..<mid} d1 d6"
    by (rule frame_mono [OF frame_trans [OF d2(3) frame_trans [OF d3(3) frame_trans [OF d4(3) frame_trans [OF d5(3) f56]]]]])
      (use l0 assms(10) in \<open>auto simp: NODE_SIZE_def\<close>)
  have f26: "frame ({n + 48..<n + 52} \<union> {n + 64..<mid}) d2 d6"
    by (rule frame_mono [OF frame_trans [OF d3(3) frame_trans [OF d4(3) frame_trans [OF d5(3) f56]]]])
      (use l0 assms(10) in \<open>auto simp: NODE_SIZE_def\<close>)
  have x: "xattrs_in d6 n D xs"
    by (rule xattrs_in_frame [OF d4(4) frame_trans [OF d5(3) f56]]) (use l0 in \<open>auto simp: NODE_SIZE_def\<close>)
  have "attrs_at d6 n (attrs_of st)" by (rule attrs_at_frame [OF d1(4) f16]) simp
  moreover have "get_u64 d6 (n + 56) = Some (length names)" by (rule get_u64_frame [OF d2(4) f26]) auto
  moreover have "get_u64 d6 (n + 64) = Some D" by (rule get_u64_frame [OF d5(4) f56]) (use l0 in simp)
  ultimately have head: "dir_head d6 n mid (attrs_of st) xs names"
    using d6(4) x assms(9,10) by (simp add: dir_head_def n_length_def n_data_offset_def)
  have "frame {n..<mid} (mb_data b) d6"
    by (rule frame_mono [OF frame_trans [OF d0(2) frame_trans [OF d1(3) f16]]]) (use l0 assms(10) in auto)
  moreover have "add_dir fresh st names xs b = Some (n, D, b\<lparr>mb_data := d6, current_pos := mid\<rparr>)"
    unfolding add_dir_def Let_def entries_bytes using d0(1) d1(1) d2(1) d3(1) d4(1) d5(1) d6(1) assms(8) by simp
  moreover have "mid \<le> length d6" using l0(1) d1(2) d2(2) d3(2) d4(2) d5(2) d6(2) by simp
  ultimately show ?thesis using head by blast
qed

text \<open>The addresses of the fields that hold the nodes of the entries \<open>i\<close> to \<open>i + m - 1\<close>.\<close>

definition node_fields :: "nat \<Rightarrow> nat \<Rightarrow> nat \<Rightarrow> nat set" where
  "node_fields D i m = (\<Union>k < m. {D + ENTRY_SIZE * (i + k) + 8..<D + ENTRY_SIZE * (i + k) + 16})"

lemma dir_head_frame:
  assumes "dir_head img n mid a xs names" and "frame (node_fields (n + NODE_SIZE + xattrs_len xs) 0 (length names) \<union> {mid..}) img img'"
  shows "dir_head img' n mid a xs names"
proof -
  let ?D = "n + NODE_SIZE + xattrs_len xs" and ?at = "n + NODE_SIZE + xattrs_len xs + ENTRY_SIZE * length names"
  let ?S = "node_fields ?D 0 (length names) \<union> {mid..}"
  have at: "?at \<le> mid" using assms(1) by (simp add: dir_head_def)
  have low: "A \<inter> ?S = {}" if "A \<subseteq> {..<?D} \<union> {?at..<mid}" for A
  proof -
    have "x \<notin> ?S" if x: "x \<in> {..<?D} \<union> {?at..<mid}" for x
    proof
      assume "x \<in> ?S"
      then obtain k where k: "k < length names" "?D + ENTRY_SIZE * k + 8 \<le> x" "x < ?D + ENTRY_SIZE * k + 16"
        using x at by (auto simp: node_fields_def)
      then have "ENTRY_SIZE * k + 16 \<le> ENTRY_SIZE * length names"
        using mult_le_mono2 [of "Suc k" "length names" 16] by (simp add: ENTRY_SIZE_def)
      then show False using k x by auto
    qed
    then show ?thesis using that by blast
  qed
  have names: "{?D + ENTRY_SIZE * k..<?D + ENTRY_SIZE * k + 8} \<inter> ?S = {}" if k: "k < length names" for k
  proof -
    have "ENTRY_SIZE * k + 16 \<le> ENTRY_SIZE * length names"
      using k mult_le_mono2 [of "Suc k" "length names" 16] by (simp add: ENTRY_SIZE_def)
    moreover have "x \<notin> {?D + ENTRY_SIZE * j + 8..<?D + ENTRY_SIZE * j + 16}"
      if "x \<in> {?D + ENTRY_SIZE * k..<?D + ENTRY_SIZE * k + 8}" for x j
      using that by (cases "j < k"; cases "j = k") (auto simp: ENTRY_SIZE_def)
    ultimately show ?thesis using at by (fastforce simp: node_fields_def)
  qed
  have D: "n + 72 \<le> ?D" by (simp add: NODE_SIZE_def)
  have "attrs_at img' n a"
    using assms(1) by (intro attrs_at_frame [OF _ assms(2) low]) (use D in \<open>auto simp: dir_head_def\<close>)
  moreover have "xattrs_in img' n ?D xs"
    using assms(1) by (intro xattrs_in_frame [OF _ assms(2) low low]) (use D in \<open>auto simp: dir_head_def\<close>)
  moreover have "n_length img' n = Some (length names)" "n_data_offset img' n = Some ?D"
    using assms(1) unfolding dir_head_def n_length_def n_data_offset_def
    by (elim conjE get_u64_frame [OF _ assms(2) low]; use D in force)+
  moreover have "name_table img' ?at mid ?D names"
    by (rule name_table_frame [OF _ assms(2) low names]) (use assms(1) in \<open>auto simp: dir_head_def\<close>)
  ultimately show ?thesis using at by (simp add: dir_head_def)
qed

lemma name_table_mono: "name_table img lo hi e names \<Longrightarrow> lo' \<le> lo \<Longrightarrow> name_table img lo' hi e names"
  unfolding name_table_def by (meson le_trans)

lemma dir_head_lays:
  assumes "dir_head img n mid a xs (map fst es)" and "S_ISDIR (a_mode a)" and "length es < 2 ^ 31"
    and "sorted_wrt name_less (map fst es)" and "length bs = Suc (length es)" and "bs ! 0 = mid" and "bs ! length es = hi"
    and "\<forall>i < length es. bs ! i \<le> bs ! Suc i \<and>
       get_u64 img (n + NODE_SIZE + xattrs_len xs + ENTRY_SIZE * i + 8) = Some (bs ! i) \<and>
       lays img (bs ! i) (bs ! Suc i) (snd (es ! i))"
  shows "lays img n hi (Dir a xs es)"
proof (rule lays.dir [where bs = bs and mid = mid])
  let ?D = "n + NODE_SIZE + xattrs_size xs"
  have le: "?D + ENTRY_SIZE * length es \<le> mid" using assms(1) by (simp add: dir_head_def xattrs_len_eq(2))
  then show "xattrs_in img n mid xs"
    using assms(1) by (auto simp: dir_head_def xattrs_len_eq(2) intro: xattrs_in_mono)
  show "name_table img (n + NODE_SIZE) mid ?D (map fst es)"
    using assms(1) by (auto simp: dir_head_def xattrs_len_eq(2) intro: name_table_mono)
qed (use assms in \<open>simp_all add: dir_head_def xattrs_len_eq(2)\<close>)

subsection \<open>The scan\<close>

text \<open>What the scan of one path does to the buffer.\<close>

definition scan_ok :: "host \<Rightarrow> (nat \<Rightarrow> bytes) \<Rightarrow> string \<Rightarrow> nat \<Rightarrow> bool" where
  "scan_ok h fresh path n \<longleftrightarrow> (\<forall>b. 0 < length (mb_data b) \<and> current_pos b + n < 2 ^ 64 \<longrightarrow>
     (\<exists>d' t. scan_dfs h fresh path b = Some (current_pos b, b\<lparr>mb_data := d', current_pos := current_pos b + n\<rparr>) \<and>
        current_pos b + n \<le> length d' \<and> frame {current_pos b..} (mb_data b) d' \<and>
        lays d' (current_pos b) (current_pos b + n) t \<and> scanned h path t))"

lemma mb_swap: "b\<lparr>current_pos := c, mb_data := d\<rparr> = b\<lparr>mb_data := d, current_pos := c\<rparr>"
  by simp

lemma node_fields_Suc: "node_fields D i (Suc m) = {D + ENTRY_SIZE * i + 8..<D + ENTRY_SIZE * i + 16} \<union> node_fields D (i + 1) m"
  unfolding node_fields_def by (auto simp: lessThan_Suc_eq_insert_0 image_iff)

lemma node_fields_bound: "node_fields D i m \<subseteq> {D + ENTRY_SIZE * i..<D + ENTRY_SIZE * (i + m)}"
  by (induction m arbitrary: i) (auto simp: node_fields_Suc ENTRY_SIZE_def node_fields_def)

lemma scan_entries_ok:
  assumes "\<forall>e \<in> set es. scan_ok h fresh (path @ ''/'' @ fst e) (packed_size (snd e))"
    and "0 < length (mb_data b)" and "cp = current_pos b" and "hi = cp + sum_list (map packed_size (map snd es))"
    and "hi < 2 ^ 64" and "cp \<le> length (mb_data b)" and "D + ENTRY_SIZE * (i + length es) \<le> cp"
  shows "\<exists>d' bs ts. scan_entries h fresh path D i (map fst es) b = Some (b\<lparr>mb_data := d', current_pos := hi\<rparr>) \<and>
    hi \<le> length d' \<and> frame (node_fields D i (length es) \<union> {cp..}) (mb_data b) d' \<and>
    length bs = Suc (length es) \<and> bs ! 0 = cp \<and> bs ! length es = hi \<and> length ts = length es \<and>
    (\<forall>k < length es. bs ! k \<le> bs ! Suc k \<and> get_u64 d' (D + ENTRY_SIZE * (i + k) + 8) = Some (bs ! k) \<and>
       lays d' (bs ! k) (bs ! Suc k) (ts ! k) \<and> scanned h (path @ ''/'' @ fst (es ! k)) (ts ! k))"
  using assms
proof (induction es arbitrary: b cp i)
  case Nil
  then show ?case by (intro exI [of _ "mb_data b"] exI [of _ "[cp]"] exI [of _ "[]"]) simp
next
  case (Cons e es)
  let ?sz = "packed_size (snd e)" and ?path = "path @ ''/'' @ fst e"
  let ?F = "{D + ENTRY_SIZE * i + 8..<D + ENTRY_SIZE * i + 16}"
  define cp1 where "cp1 = cp + ?sz"
  have hi: "hi = cp1 + sum_list (map packed_size (map snd es))" using Cons.prems(4) by (simp add: cp1_def)
  have F: "D + ENTRY_SIZE * i + 16 \<le> cp" "D + ENTRY_SIZE * (i + 1 + length es) \<le> cp"
    using Cons.prems(7) by (simp_all add: ENTRY_SIZE_def)
  obtain d1 t where d1: "scan_dfs h fresh ?path b = Some (cp, b\<lparr>mb_data := d1, current_pos := cp1\<rparr>)" "cp1 \<le> length d1"
      "frame {cp..} (mb_data b) d1" "lays d1 cp cp1 t" "scanned h ?path t"
    using Cons.prems(1) [rule_format, of e, unfolded scan_ok_def, rule_format, of b] Cons.prems(2,3,5) hi
    by (auto simp: cp1_def)
  have "D + ENTRY_SIZE * i + 8 + 8 \<le> length d1" "cp < 2 ^ 64" using d1(2) F Cons.prems(5) hi by (simp_all add: cp1_def)
  then obtain d2 where d2: "put_u64 d1 (D + ENTRY_SIZE * i + 8) cp = Some d2" "length d2 = length d1"
      "frame {D + ENTRY_SIZE * i + 8..<D + ENTRY_SIZE * i + 8 + 8} d1 d2" "get_u64 d2 (D + ENTRY_SIZE * i + 8) = Some cp"
    by (rule put_u64_effect)
  let ?b = "b\<lparr>mb_data := d2, current_pos := cp1\<rparr>"
  have "\<exists>d' bs ts. scan_entries h fresh path D (i + 1) (map fst es) ?b = Some (?b\<lparr>mb_data := d', current_pos := hi\<rparr>) \<and>
    hi \<le> length d' \<and> frame (node_fields D (i + 1) (length es) \<union> {cp1..}) (mb_data ?b) d' \<and>
    length bs = Suc (length es) \<and> bs ! 0 = cp1 \<and> bs ! length es = hi \<and> length ts = length es \<and>
    (\<forall>k < length es. bs ! k \<le> bs ! Suc k \<and> get_u64 d' (D + ENTRY_SIZE * (i + 1 + k) + 8) = Some (bs ! k) \<and>
       lays d' (bs ! k) (bs ! Suc k) (ts ! k) \<and> scanned h (path @ ''/'' @ fst (es ! k)) (ts ! k))"
  proof (rule Cons.IH)
    show "0 < length (mb_data ?b)" "cp1 \<le> length (mb_data ?b)" using d1(2) d2(2) F by (simp_all add: cp1_def del: length_greater_0_conv)
    show "D + ENTRY_SIZE * (i + 1 + length es) \<le> cp1" using F by (simp add: cp1_def)
  qed (use Cons.prems(1,5) hi in simp_all)
  then obtain d' bs ts where ih: "scan_entries h fresh path D (i + 1) (map fst es) ?b = Some (b\<lparr>mb_data := d', current_pos := hi\<rparr>)"
      "hi \<le> length d'" "frame (node_fields D (i + 1) (length es) \<union> {cp1..}) d2 d'"
      "length bs = Suc (length es)" "bs ! 0 = cp1" "bs ! length es = hi" "length ts = length es"
      "\<forall>k < length es. bs ! k \<le> bs ! Suc k \<and> get_u64 d' (D + ENTRY_SIZE * (i + 1 + k) + 8) = Some (bs ! k) \<and>
         lays d' (bs ! k) (bs ! Suc k) (ts ! k) \<and> scanned h (path @ ''/'' @ fst (es ! k)) (ts ! k)"
    by auto
  have nf: "node_fields D (i + 1) (length es) \<subseteq> {D + ENTRY_SIZE * (i + 1)..<cp}"
    using node_fields_bound [of D "i + 1" "length es"] F(2) by fastforce
  have field: "get_u64 d' (D + ENTRY_SIZE * i + 8) = Some cp"
    by (rule get_u64_frame [OF d2(4) ih(3)]) (use nf F in \<open>auto simp: ENTRY_SIZE_def cp1_def\<close>)
  have "lays d2 cp cp1 t" by (rule lays_frame [OF d1(4) d2(3)]) (use F in auto)
  then have lay: "lays d' cp cp1 t" by (rule lays_frame [OF _ ih(3)]) (use nf in auto)
  have fr: "frame (node_fields D i (length (e # es)) \<union> {cp..}) (mb_data b) d'"
    by (rule frame_mono [OF frame_trans [OF d1(3) frame_trans [OF d2(3) ih(3)]]])
      (auto simp: node_fields_Suc cp1_def add.assoc)
  have step: "scan_entries h fresh path D i (map fst (e # es)) b = Some (b\<lparr>mb_data := d', current_pos := hi\<rparr>)"
    using d1(1) d2(1) ih(1) by (simp add: set_dirent_node_offset_def mb_swap)
  have "(cp # bs) ! k \<le> (cp # bs) ! Suc k \<and> get_u64 d' (D + ENTRY_SIZE * (i + k) + 8) = Some ((cp # bs) ! k) \<and>
      lays d' ((cp # bs) ! k) ((cp # bs) ! Suc k) ((t # ts) ! k) \<and>
      scanned h (path @ ''/'' @ fst ((e # es) ! k)) ((t # ts) ! k)" if "k < length (e # es)" for k
    using that ih(5,8) field lay d1(5) by (cases k) (auto simp: cp1_def)
  then show ?case
    using step fr ih(2,4-7) by (intro exI [of _ d'] exI [of _ "cp # bs"] exI [of _ "t # ts"]) simp
qed

lemma file_types: "S_ISDIR m \<Longrightarrow> \<not> S_ISREG m" "S_ISDIR m \<Longrightarrow> \<not> S_ISLNK m" "S_ISREG m \<Longrightarrow> \<not> S_ISLNK m"
  by (simp_all add: S_ISDIR_def S_ISREG_def S_ISLNK_def)

lemma link_target_no_nul: "CHR 0x00 \<notin> set (link_target h path)"
  by (auto simp: link_target_def c_string_def dest: set_takeWhileD split: option.splits)

lemma scan_dfs_dir:
  assumes "sys_lstat h path = Some st" and "S_ISDIR (st_mode st)" and names: "map fst es = scan_names h path"
    and "\<forall>e \<in> set es. scan_ok h fresh (path @ ''/'' @ fst e) (packed_size (snd e))"
    and "host_ok h" and "\<And>n. length (fresh n) = n"
  shows "scan_ok h fresh path (packed_size (Dir (attrs_of st) (read_xattrs h path) es))"
  unfolding scan_ok_def
proof (intro allI impI)
  fix b :: meta_builder
  let ?xs = "read_xattrs h path" and ?n = "current_pos b"
  let ?t = "Dir (attrs_of st) ?xs es"
  assume b: "0 < length (mb_data b) \<and> ?n + packed_size ?t < 2 ^ 64"
  note ok = host_okD [OF assms(5), where path = path]
  define D where "D = ?n + NODE_SIZE + xattrs_len ?xs"
  define mid where "mid = D + ENTRY_SIZE * length es + name_bytes (map fst es)"
  let ?hi = "mid + sum_list (map packed_size (map snd es))"
  have hi: "?n + packed_size ?t = ?hi" by (simp add: mid_def D_def)
  have len: "length es = length (scan_names h path)" using arg_cong [OF names, of length] by simp
  obtain d1 where d1: "add_dir fresh st (map fst es) ?xs b = Some (?n, D, b\<lparr>mb_data := d1, current_pos := mid\<rparr>)"
      "mid \<le> length d1" "frame {?n..<mid} (mb_data b) d1" "dir_head d1 ?n mid (attrs_of st) ?xs (map fst es)"
    using add_dir_ok [OF _ assms(6) ok(1) [OF assms(1)] ok(6,5,7), of b "map fst es" ?n D mid] b hi ok(4) names
    by (auto simp: D_def mid_def len)
  let ?b = "b\<lparr>mb_data := d1, current_pos := mid\<rparr>"
  have "0 < length (mb_data ?b)" "mid \<le> length (mb_data ?b)" "D + ENTRY_SIZE * (0 + length es) \<le> mid" "?hi < 2 ^ 64"
    using d1(2) b hi by (simp_all add: mid_def D_def NODE_SIZE_def del: length_greater_0_conv)
  then obtain d2 bs ts where d2: "scan_entries h fresh path D 0 (map fst es) ?b = Some (b\<lparr>mb_data := d2, current_pos := ?hi\<rparr>)"
      "?hi \<le> length d2" "frame (node_fields D 0 (length es) \<union> {mid..}) d1 d2"
      "length bs = Suc (length es)" "bs ! 0 = mid" "bs ! length es = ?hi" "length ts = length es"
      "\<forall>k < length es. bs ! k \<le> bs ! Suc k \<and> get_u64 d2 (D + ENTRY_SIZE * (0 + k) + 8) = Some (bs ! k) \<and>
         lays d2 (bs ! k) (bs ! Suc k) (ts ! k) \<and> scanned h (path @ ''/'' @ fst (es ! k)) (ts ! k)"
    using scan_entries_ok [OF assms(4), where b = ?b and cp = mid and hi = ?hi and D = D and i = 0] by auto
  let ?es = "zip (map fst es) ts"
  have nth: "scan_names h path ! i = fst (es ! i)" if "i < length es" for i using that by (simp add: names [symmetric])
  have es: "map fst ?es = map fst es" "length ?es = length es" using d2(7) by simp_all
  have "dir_head d2 ?n mid (attrs_of st) ?xs (map fst ?es)"
    unfolding es(1) by (rule dir_head_frame [OF d1(4)]) (use d2(3) in \<open>simp add: D_def\<close>)
  then have "lays d2 ?n ?hi (Dir (attrs_of st) ?xs ?es)"
  proof (rule dir_head_lays)
    show "\<forall>i < length ?es. bs ! i \<le> bs ! Suc i \<and>
        get_u64 d2 (?n + NODE_SIZE + xattrs_len ?xs + ENTRY_SIZE * i + 8) = Some (bs ! i) \<and>
        lays d2 (bs ! i) (bs ! Suc i) (snd (?es ! i))"
      using d2(7,8) by (auto simp: D_def)
  qed (use assms(2) names d2(4-7) ok(2,3) len in \<open>simp_all add: attrs_of_def\<close>)
  moreover have "scanned h path (Dir (attrs_of st) ?xs ?es)"
    using assms(1,2) names es(1) d2(7,8) nth by (intro scanned.dir) (auto simp: set_zip)
  moreover have "frame {?n..} (mb_data b) d2"
    by (rule frame_mono [OF frame_trans [OF d1(3) d2(3)]])
      (use node_fields_bound [of D 0 "length es"] in \<open>auto simp: D_def mid_def\<close>)
  moreover have "scan_dfs h fresh path b = Some (?n, b\<lparr>mb_data := d2, current_pos := ?hi\<rparr>)"
    using assms(1,2) names d1(1) d2(1) by (simp add: scan_dfs.simps [of h fresh path b] is_supported_def file_types)
  ultimately show "\<exists>d' t. scan_dfs h fresh path b = Some (?n, b\<lparr>mb_data := d', current_pos := ?n + packed_size ?t\<rparr>) \<and>
      ?n + packed_size ?t \<le> length d' \<and> frame {?n..} (mb_data b) d' \<and> lays d' ?n (?n + packed_size ?t) t \<and> scanned h path t"
    unfolding hi using d2(2) by blast
qed

lemma scan_dfs_ok:
  assumes "scanned h path t" and "host_ok h" and "\<And>n. length (fresh n) = n"
  shows "scan_ok h fresh path (packed_size t)"
  using assms(1)
proof (induction rule: scanned.induct)
  case (reg path st p len)
  note ok = host_okD [OF assms(2), where path = path]
  show ?case
    unfolding scan_ok_def
  proof (intro allI impI, elim conjE)
    fix b :: meta_builder
    let ?hi = "current_pos b + packed_size (Reg (attrs_of st) (read_xattrs h path) p len)"
    assume b: "0 < length (mb_data b)" "?hi < 2 ^ 64"
    obtain d' p' len' where "add_file_node fresh st (read_xattrs h path) b = Some (current_pos b, b\<lparr>mb_data := d', current_pos := ?hi\<rparr>)"
        "?hi \<le> length d'" "frame {current_pos b..<?hi} (mb_data b) d'"
        "lays d' (current_pos b) ?hi (Reg (attrs_of st) (read_xattrs h path) p' len')"
      using add_file_node_ok [OF b(1) assms(3) ok(1) [OF reg(1)] ok(6,5,7) reg(2) refl _ b(2)] by auto
    then show "\<exists>d' t. scan_dfs h fresh path b = Some (current_pos b, b\<lparr>mb_data := d', current_pos := ?hi\<rparr>) \<and>
        ?hi \<le> length d' \<and> frame {current_pos b..} (mb_data b) d' \<and> lays d' (current_pos b) ?hi t \<and> scanned h path t"
      using reg by (intro exI [of _ d'] exI [of _ "Reg (attrs_of st) (read_xattrs h path) p' len'"] conjI scanned.reg)
        (auto simp: scan_dfs.simps [of h fresh path b] is_supported_def file_types intro: frame_mono)
  qed
next
  case (lnk path st)
  note ok = host_okD [OF assms(2), where path = path]
  show ?case
    unfolding scan_ok_def
  proof (intro allI impI, elim conjE)
    fix b :: meta_builder
    let ?t = "Lnk (attrs_of st) (read_xattrs h path) (link_target h path)"
    let ?hi = "current_pos b + packed_size ?t"
    assume b: "0 < length (mb_data b)" "?hi < 2 ^ 64"
    obtain d' where "add_link fresh st (link_target h path) (read_xattrs h path) b = Some (current_pos b, b\<lparr>mb_data := d', current_pos := ?hi\<rparr>)"
        "?hi \<le> length d'" "frame {current_pos b..<?hi} (mb_data b) d'" "lays d' (current_pos b) ?hi ?t"
      using add_link_ok [OF b(1) assms(3) ok(1) [OF lnk(1)] ok(6,5,7) lnk(2) link_target_no_nul refl _ b(2)] by (auto simp: add.assoc)
    then show "\<exists>d' t. scan_dfs h fresh path b = Some (current_pos b, b\<lparr>mb_data := d', current_pos := ?hi\<rparr>) \<and>
        ?hi \<le> length d' \<and> frame {current_pos b..} (mb_data b) d' \<and> lays d' (current_pos b) ?hi t \<and> scanned h path t"
      using lnk by (intro exI [of _ d'] exI [of _ ?t] conjI scanned.lnk)
        (auto simp: scan_dfs.simps [of h fresh path b] is_supported_def link_target_def intro: frame_mono)
  qed
next
  case (dir path st es)
  then show ?case by (intro scan_dfs_dir assms(2,3)) auto
qed

end
