(* ===== verification/Metafs_Pack.thy ===== *)
theory Metafs_Pack
  imports Metafs_Scan
begin

text \<open>
  What MetaFSBuilder::create_chunks does over any chunk map: the files of the tree are appended
  to the volume in level order, and their nodes get their positions and lengths.
\<close>

subsection \<open>Files of a tree in a volume\<close>

text \<open>
  The contents of the regular files of the tree are in the volume \<open>V\<close> between \<open>lo\<close> and \<open>hi\<close>, where
  the tree says. A file that could not be opened has the position -1 and the length 0.
\<close>

fun placed :: "(nat \<rightharpoonup> byte) \<Rightarrow> (string \<rightharpoonup> bytes) \<Rightarrow> nat \<Rightarrow> nat \<Rightarrow> string \<Rightarrow> tree \<Rightarrow> bool" where
  "placed V fs lo hi path (Reg a xs p len) \<longleftrightarrow>
     (case fs path of
        None \<Rightarrow> p = 2 ^ 64 - 1 \<and> len = 0
      | Some d \<Rightarrow> lo \<le> p \<and> p + len \<le> hi \<and> len = length d \<and> (\<forall>k < len. V (p + k) = Some (d ! k)))"
| "placed V fs lo hi path (Lnk a xs target) \<longleftrightarrow> True"
| "placed V fs lo hi path (Dir a xs es) \<longleftrightarrow> (\<forall>e \<in> set es. placed V fs lo hi (path @ ''/'' @ fst e) (snd e))"

text \<open>The bytes of the files of a tree.\<close>

fun file_bytes :: "(string \<rightharpoonup> bytes) \<Rightarrow> string \<Rightarrow> tree \<Rightarrow> nat" where
  "file_bytes fs path (Reg a xs p len) = (case fs path of None \<Rightarrow> 0 | Some d \<Rightarrow> length d)"
| "file_bytes fs path (Lnk a xs target) = 0"
| "file_bytes fs path (Dir a xs es) = sum_list (map (\<lambda>e. file_bytes fs (path @ ''/'' @ fst e) (snd e)) es)"

text \<open>A tree without the positions of its files.\<close>

fun unplaced :: "tree \<Rightarrow> tree" where
  "unplaced (Reg a xs p len) = Reg a xs 0 0"
| "unplaced (Lnk a xs target) = Lnk a xs target"
| "unplaced (Dir a xs es) = Dir a xs (map (\<lambda>e. (fst e, unplaced (snd e))) es)"

fun node_count :: "tree \<Rightarrow> nat" where
  "node_count (Reg a xs p len) = 1"
| "node_count (Lnk a xs target) = 1"
| "node_count (Dir a xs es) = 1 + sum_list (map (\<lambda>e. node_count (snd e)) es)"

lemma placed_mono:
  assumes "placed V fs lo hi path t" and "\<forall>a. lo \<le> a \<and> a < hi \<and> V a \<noteq> None \<longrightarrow> V' a = V a" and "lo' \<le> lo" and "hi \<le> hi'"
  shows "placed V' fs lo' hi' path t"
  using assms
proof (induction V fs lo hi path t rule: placed.induct)
  case (1 V fs lo hi path a xs p len)
  show ?case
  proof (cases "fs path")
    case None
    then show ?thesis using 1 by simp
  next
    case (Some d)
    then have p: "lo \<le> p" "p + len \<le> hi" "len = length d" "\<forall>k < len. V (p + k) = Some (d ! k)" using 1(1) by simp_all
    have "V' (p + k) = Some (d ! k)" if k: "k < len" for k
    proof -
      have v: "V (p + k) = Some (d ! k)" using p(4) k by blast
      moreover have "lo \<le> p + k \<and> p + k < hi" using p(1,2) k by simp
      ultimately show ?thesis using 1(2) [rule_format, of "p + k"] by simp
    qed
    then show ?thesis using Some p 1(3,4) by simp
  qed
qed auto

lemma scanned_unplaced:
  "scanned h path t \<Longrightarrow> unplaced t = unplaced u \<Longrightarrow> scanned h path u"
proof (induction arbitrary: u rule: scanned.induct)
  case (reg path st p len)
  then obtain p' len' where "u = Reg (attrs_of st) (read_xattrs h path) p' len'" by (cases u) auto
  then show ?case using reg scanned.reg by blast
next
  case (lnk path st)
  then have "u = Lnk (attrs_of st) (read_xattrs h path) (link_target h path)" by (cases u) auto
  then show ?case using lnk scanned.lnk by blast
next
  case (dir path st es)
  then obtain es' where u: "u = Dir (attrs_of st) (read_xattrs h path) es'"
      and eq: "map (\<lambda>e. (fst e, unplaced (snd e))) es = map (\<lambda>e. (fst e, unplaced (snd e))) es'" by (cases u) auto
  have "map fst (map (\<lambda>e. (fst e, unplaced (snd e))) es) = map fst (map (\<lambda>e. (fst e, unplaced (snd e))) es')"
    using eq by (rule arg_cong)
  then have names: "map fst es' = scan_names h path" using dir.hyps(3) by (simp add: comp_def)
  have "scanned h (path @ ''/'' @ fst e') (snd e')" if "e' \<in> set es'" for e'
  proof -
    have "(fst e', unplaced (snd e')) \<in> set (map (\<lambda>e. (fst e, unplaced (snd e))) es)" unfolding eq using that by force
    then obtain e where "e \<in> set es" "fst e = fst e'" "unplaced (snd e) = unplaced (snd e')" by auto
    then show ?thesis using dir.IH by metis
  qed
  then show ?case unfolding u using dir.hyps(1,2) names by (intro scanned.dir) auto
qed

lemma scanned_file_bytes: "scanned h path t \<Longrightarrow> scanned h path u \<Longrightarrow> file_bytes fs path t = file_bytes fs path u"
proof (induction arbitrary: u rule: scanned.induct)
  case (reg path st p len)
  from reg.prems obtain p' len' where "u = Reg (attrs_of st) (read_xattrs h path) p' len'"
    using reg.hyps by (cases rule: scanned.cases) (auto dest: file_types)
  then show ?case by simp
next
  case (lnk path st)
  from lnk.prems have "u = Lnk (attrs_of st) (read_xattrs h path) (link_target h path)"
    using lnk.hyps by (cases rule: scanned.cases) (auto dest: file_types)
  then show ?case by simp
next
  case (dir path st es)
  from dir.prems obtain es' where u: "u = Dir (attrs_of st) (read_xattrs h path) es'" "map fst es' = scan_names h path"
      "\<forall>e \<in> set es'. scanned h (path @ ''/'' @ fst e) (snd e)"
    using dir.hyps by (cases rule: scanned.cases) (auto dest: file_types)
  have names: "map fst es' = map fst es" using u(2) dir.hyps(3) by simp
  have len: "length es' = length es" using arg_cong [OF names, of length] by simp
  have "file_bytes fs (path @ ''/'' @ fst (es' ! i)) (snd (es' ! i)) = file_bytes fs (path @ ''/'' @ fst (es ! i)) (snd (es ! i))"
    if i: "i < length es" for i
  proof -
    have "fst (es' ! i) = fst (es ! i)" using arg_cong [OF names, of "\<lambda>xs. xs ! i"] i len by simp
    then have "scanned h (path @ ''/'' @ fst (es ! i)) (snd (es' ! i))" using u(3) i len nth_mem by metis
    then show ?thesis using dir.IH i nth_mem \<open>fst (es' ! i) = fst (es ! i)\<close> by metis
  qed
  then have "map (\<lambda>e. file_bytes fs (path @ ''/'' @ fst e) (snd e)) es' = map (\<lambda>e. file_bytes fs (path @ ''/'' @ fst e) (snd e)) es"
    by (intro nth_equalityI) (simp_all add: len)
  then show ?case unfolding u(1) by simp
qed

subsection \<open>The queue\<close>

text \<open>What is queued: the address of a node, its path, the end of its tree in the buffer, and the tree.\<close>

type_synonym queued = "nat \<times> string \<times> nat \<times> tree"

definition in_buffer :: "bytes \<Rightarrow> queued list \<Rightarrow> bool" where
  "in_buffer d F \<longleftrightarrow> (\<forall>(n, path, hi, t) \<in> set F. lays d n hi t) \<and>
     sorted_wrt (\<lambda>(n, path, hi, t) (n', path', hi', t'). {n..<hi} \<inter> {n'..<hi'} = {}) F"

definition covers :: "queued list \<Rightarrow> nat set" where
  "covers F = (\<Union>(n, path, hi, t) \<in> set F. {n..<hi})"

definition all_bytes :: "(string \<rightharpoonup> bytes) \<Rightarrow> queued list \<Rightarrow> nat" where
  "all_bytes fs F = sum_list (map (\<lambda>(n, path, hi, t). file_bytes fs path t) F)"

definition same_place :: "queued \<Rightarrow> queued" where
  "same_place x = (case x of (n, path, hi, t) \<Rightarrow> (n, path, hi, unplaced t))"

lemma queue_simps [simp]:
  "covers [] = {}" "covers ((n, path, hi, t) # F) = {n..<hi} \<union> covers F" "covers (F @ G) = covers F \<union> covers G"
  "all_bytes fs [] = 0" "all_bytes fs ((n, path, hi, t) # F) = file_bytes fs path t + all_bytes fs F"
  "all_bytes fs (F @ G) = all_bytes fs F + all_bytes fs G"
  "same_place (n, path, hi, t) = (n, path, hi, unplaced t)"
  by (auto simp: covers_def all_bytes_def same_place_def)

lemma in_buffer_Nil [simp]: "in_buffer d []"
  by (simp add: in_buffer_def)

lemma disjoint_covers: "A \<inter> covers F = {} \<longleftrightarrow> (\<forall>(n, path, hi, t) \<in> set F. A \<inter> {n..<hi} = {})"
proof (induction F)
  case (Cons x F)
  then show ?case by (cases x) (simp add: Int_Un_distrib)
qed simp

lemma in_buffer_Cons: "in_buffer d ((n, path, hi, t) # F) \<longleftrightarrow> lays d n hi t \<and> {n..<hi} \<inter> covers F = {} \<and> in_buffer d F"
  unfolding in_buffer_def disjoint_covers by auto

lemma in_buffer_append: "in_buffer d (F @ G) \<longleftrightarrow> in_buffer d F \<and> in_buffer d G \<and> covers F \<inter> covers G = {}"
proof (induction F)
  case (Cons x F)
  then show ?case by (cases x) (auto simp: in_buffer_Cons)
qed simp

lemma in_buffer_frame:
  assumes "in_buffer d F" and "frame S d d'" and "covers F \<inter> S = {}"
  shows "in_buffer d' F"
  using assms(1,3)
proof (induction F)
  case (Cons x F)
  obtain n path hi t where x: "x = (n, path, hi, t)" by (cases x)
  have "{n..<hi} \<inter> S = {}" "covers F \<inter> S = {}" using Cons.prems(2) by (auto simp: x)
  then show ?case using lays_frame [OF _ assms(2), of n hi t] Cons by (simp add: x in_buffer_Cons)
qed simp

lemma covers_same_place: "map same_place F = map same_place G \<Longrightarrow> covers F = covers G"
proof (induction F arbitrary: G)
  case (Cons x F)
  obtain y G' where "G = y # G'" using Cons.prems by auto
  then show ?case using Cons by (cases x; cases y) auto
qed simp

text \<open>What a directory adds to the queue.\<close>

definition children :: "string \<Rightarrow> nat list \<Rightarrow> (string \<times> tree) list \<Rightarrow> queued list" where
  "children path bs es =
     map (\<lambda>i. (bs ! i, path @ ''/'' @ fst (es ! i), bs ! Suc i, snd (es ! i))) [0..<length es]"

definition queued_as :: "queued \<Rightarrow> nat \<times> string" where
  "queued_as x = (case x of (n, path, hi, t) \<Rightarrow> (n, path))"

lemma queued_as_simps [simp]: "queued_as (n, path, hi, t) = (n, path)"
  by (simp add: queued_as_def)

lemma queue_entries_ok:
  assumes "\<forall>i \<in> set ks. e_data_offset d D i = Some (bs ! i) \<and>
    (\<exists>no. e_name_offset d D i = Some no \<and> c_str d no = Some (fst (es ! i)))"
  shows "queue_entries d D path ks = Some (map (\<lambda>i. (bs ! i, path @ ''/'' @ fst (es ! i))) ks)"
  using assms by (induction ks) auto

lemma dir_children:
  assumes "lays d n hi (Dir a xs es)"
  obtains bs D where "n_mode d n = Some (a_mode a)" and "S_ISDIR (a_mode a)" and "n_length d n = Some (length es)"
    and "n_data_offset d n = Some D"
    and "queue_entries d D path [0..<length es] = Some (map queued_as (children path bs es))"
    and "in_buffer d (children path bs es)" and "covers (children path bs es) \<subseteq> {n..<hi}"
    and "\<forall>S d' es'. frame S d d' \<and> S \<inter> {n..<hi} \<subseteq> covers (children path bs es) \<and> map fst es' = map fst es \<and>
      (\<forall>i < length es. lays d' (bs ! i) (bs ! Suc i) (snd (es' ! i))) \<longrightarrow> lays d' n hi (Dir a xs es')"
  using assms
proof (rule lays_DirE)
  fix bs :: "nat list"
  let ?mid = "bs ! 0"
  let ?D = "n + NODE_SIZE + xattrs_size xs" and ?F = "children path bs es"
  assume h: "attrs_at d n a" "S_ISDIR (a_mode a)" "xattrs_in d n ?mid xs" "n_length d n = Some (length es)"
    "length es < 2147483648" "n_data_offset d n = Some ?D" "sorted_wrt name_less (map fst es)"
    "name_table d (n + NODE_SIZE) ?mid ?D (map fst es)" "?D + ENTRY_SIZE * length es \<le> ?mid"
    "length bs = Suc (length es)" "bs ! length es = hi"
    and all: "\<forall>i < length es. bs ! i \<le> bs ! Suc i \<and> get_u64 d (?D + ENTRY_SIZE * i + 8) = Some (bs ! i) \<and>
       lays d (bs ! i) (bs ! Suc i) (snd (es ! i))"
  have step: "\<forall>i < length es. bs ! i \<le> bs ! Suc i" using all by blast
  note mono = steps_mono [OF step]
  have le: "n + 72 \<le> ?mid" "?mid \<le> hi" using xattrs_in_le [OF h(3)] mono [of 0 "length es"] h(11) by simp_all
  have range: "?mid \<le> bs ! i" "bs ! Suc i \<le> hi" if "i < length es" for i
    using mono [of 0 i] mono [of "Suc i" "length es"] that h(11) by simp_all
  have cov: "covers ?F \<subseteq> {?mid..<hi}" using range by (fastforce simp: covers_def children_def)
  have "queue_entries d ?D path [0..<length es] = Some (map (\<lambda>i. (bs ! i, path @ ''/'' @ fst (es ! i))) [0..<length es])"
    using all h(8) by (intro queue_entries_ok) (auto simp: e_data_offset_def e_name_offset_def name_table_def)
  then have q: "queue_entries d ?D path [0..<length es] = Some (map queued_as ?F)" by (simp add: children_def comp_def)
  have "{bs ! i..<bs ! Suc i} \<inter> {bs ! j..<bs ! Suc j} = {}" if "i < j" "j < length es" for i j
    using mono [of "Suc i" j] that by auto
  then have buf: "in_buffer d ?F"
    using all by (auto simp: in_buffer_def children_def sorted_wrt_map sorted_wrt_iff_nth_less)
  have new: "lays d' n hi (Dir a xs es')"
    if "frame S d d'" "S \<inter> {n..<hi} \<subseteq> covers ?F" "map fst es' = map fst es"
      "\<forall>i < length es. lays d' (bs ! i) (bs ! Suc i) (snd (es' ! i))" for S d' es'
  proof (rule lays_dir_replace [OF h(1-4) _ h(6-10) refl h(11) _ that(1) _ that(3,4)])
    have "x \<notin> S" if "x \<in> {n..<?mid}" for x using that le cov \<open>S \<inter> {n..<hi} \<subseteq> covers ?F\<close> by fastforce
    then show "{n..<?mid} \<inter> S = {}" by blast
  qed (use all h(5) in simp_all)
  show thesis
  proof (rule that [OF _ h(2,4,6) q buf])
    show "n_mode d n = Some (a_mode a)" using h(1) by (simp add: attrs_at_def)
    show "covers ?F \<subseteq> {n..<hi}" using cov le by fastforce
  qed (use new in blast)
qed

lemma map_upt_nth: "map (\<lambda>i. f (es ! i)) [0..<length es] = map f es"
  by (rule nth_equalityI) simp_all

lemma children_bytes: "all_bytes fs (children path bs es) = file_bytes fs path (Dir a xs es)"
  using map_upt_nth [of "\<lambda>e. file_bytes fs (path @ ''/'' @ fst e) (snd e)" es]
  by (simp add: all_bytes_def children_def comp_def)

definition queue_nodes :: "queued list \<Rightarrow> nat" where
  "queue_nodes F = sum_list (map (\<lambda>(n, path, hi, t). node_count t) F)"

lemma queue_nodes_simps [simp]:
  "queue_nodes [] = 0" "queue_nodes ((n, path, hi, t) # F) = node_count t + queue_nodes F"
  "queue_nodes (F @ G) = queue_nodes F + queue_nodes G"
  by (simp_all add: queue_nodes_def)

lemma children_nodes: "queue_nodes (children path bs es) + 1 = node_count (Dir a xs es)"
  using map_upt_nth [of "\<lambda>e. node_count (snd e)" es] by (simp add: queue_nodes_def children_def comp_def)

lemma node_count_pos [simp]: "0 < node_count t"
  by (cases t) simp_all

lemma full_chunks_length: "c \<in> set (full_chunks xs) \<Longrightarrow> length c = CHUNK_SIZE_BYTES"
proof (induction xs rule: full_chunks.induct)
  case (1 xs)
  then show ?case by (cases "length xs < CHUNK_SIZE_BYTES") (auto simp: chunks_short chunks_long)
qed

text \<open>The entry of a file in the queue gets its position and length.\<close>

lemma put_position_ok:
  assumes "lays d n hi (Reg a xs p len)" and "p' < 2 ^ 64" and "len' < 2 ^ 64"
  obtains d' where "put_position d n p' len' = Some d'" and "length d' = length d" and "frame {n..<hi} d d'"
    and "lays d' n hi (Reg a xs p' len')"
  using assms(1)
proof (rule lays_RegE)
  assume h: "attrs_at d n a" "S_ISREG (a_mode a)" "xattrs_in d n hi xs" "n_data_offset d n = Some p"
  have le: "n + 72 \<le> hi" by (rule xattrs_in_le [OF h(3)])
  have bound: "n + 64 + 8 \<le> length d" using get_u64_bound [of d "n + 64" p] h(4) by (simp add: n_data_offset_def)
  then obtain d1 where d1: "put_u64 d (n + 64) p' = Some d1" "length d1 = length d" "frame {n + 64..<n + 64 + 8} d d1"
      "get_u64 d1 (n + 64) = Some p'"
    using assms(2) by (rule put_u64_effect)
  have "n + 56 + 8 \<le> length d1" using bound d1(2) by simp
  then obtain d2 where d2: "put_u64 d1 (n + 56) len' = Some d2" "length d2 = length d1" "frame {n + 56..<n + 56 + 8} d1 d2"
      "get_u64 d2 (n + 56) = Some len'"
    using assms(3) by (rule put_u64_effect)
  have fr: "frame {n + 56..<n + 72} d d2"
    by (rule frame_mono [OF frame_trans [OF d1(3) d2(3)]]) auto
  have "attrs_at d2 n a" by (rule attrs_at_frame [OF h(1) fr]) auto
  moreover have "xattrs_in d2 n hi xs" by (rule xattrs_in_frame [OF h(3) fr]) (auto simp: NODE_SIZE_def)
  moreover have "get_u64 d2 (n + 64) = Some p'" by (rule get_u64_frame [OF d1(4) d2(3)]) auto
  ultimately have "lays d2 n hi (Reg a xs p' len')"
    using h(2) d2(4) by (intro lays.reg) (simp_all add: n_data_offset_def n_length_def)
  moreover have "frame {n..<hi} d d2" by (rule frame_mono [OF fr]) (use le in auto)
  ultimately show thesis using d1(1,2) d2(1,2) by (intro that [of d2]) (simp_all add: put_position_def)
qed

subsection \<open>The loop over the queue\<close>

text \<open>What the loop makes of the queue \<open>F\<close>: the queue \<open>F'\<close> of trees whose files have their positions.\<close>

definition loop_result ::
    "('s \<Rightarrow> nat \<rightharpoonup> bytes) \<Rightarrow> (string \<rightharpoonup> bytes) \<Rightarrow> queued list \<Rightarrow> bytes \<Rightarrow> 's chunk_builder \<Rightarrow>
     queued list \<Rightarrow> bytes \<Rightarrow> 's chunk_builder \<Rightarrow> bool" where
  "loop_result lk fs F d b F' d' b' \<longleftrightarrow> frame (covers F) d d' \<and> map same_place F' = map same_place F \<and> in_buffer d' F' \<and>
     (\<forall>(n, path, hi, t) \<in> set F'. placed (volume lk b') fs (pos b) (pos b') path t) \<and>
     pos b' = pos b + all_bytes fs F \<and> built b' = built b \<and>
     (\<forall>a < pos b. volume lk b a \<noteq> None \<longrightarrow> volume lk b' a = volume lk b a)"

lemma loop_result_Nil [simp]: "loop_result lk fs [] d b [] d b"
  by (simp add: loop_result_def)

text \<open>A file, then the rest of the queue.\<close>

lemma loop_result_file:
  assumes rest: "loop_result lk fs F d1 b1 F' d' b'" and buf: "{n..<hi} \<inter> covers F = {}"
    and d1: "frame {n..<hi} d d1" "lays d1 n hi t'" "unplaced t' = unplaced t" "length d1 = length d"
    and b1: "placed (volume lk b1) fs (pos b) (pos b1) path t'" "pos b1 = pos b + file_bytes fs path t" "built b1 = built b"
      "\<forall>a < pos b. volume lk b a \<noteq> None \<longrightarrow> volume lk b1 a = volume lk b a"
  shows "loop_result lk fs ((n, path, hi, t) # F) d b ((n, path, hi, t') # F') d' b'"
proof -
  have r: "frame (covers F) d1 d'" "map same_place F' = map same_place F" "in_buffer d' F'"
    "\<forall>(n, path, hi, t) \<in> set F'. placed (volume lk b') fs (pos b1) (pos b') path t"
    "pos b' = pos b1 + all_bytes fs F" "built b' = built b1"
    "\<forall>a < pos b1. volume lk b1 a \<noteq> None \<longrightarrow> volume lk b' a = volume lk b1 a"
    using rest by (auto simp: loop_result_def)
  have cov: "covers F' = covers F" by (rule covers_same_place [OF r(2)])
  have lay: "lays d' n hi t'" by (rule lays_frame [OF d1(2) r(1) buf])
  have "placed (volume lk b') fs (pos b) (pos b') path t'"
    by (rule placed_mono [OF b1(1)]) (use r(5,7) in auto)
  moreover have "placed (volume lk b') fs (pos b) (pos b') path t"
    if "placed (volume lk b') fs (pos b1) (pos b') path t" for path t
    by (rule placed_mono [OF that]) (use b1(2) in auto)
  moreover have "volume lk b' a = volume lk b a" if "a < pos b" "volume lk b a \<noteq> None" for a
    using b1(2,4) r(7) that by simp
  ultimately show ?thesis
    using r d1(3) lay buf cov b1(2,3) frame_trans [OF d1(1) r(1)] by (auto simp: loop_result_def in_buffer_Cons)
qed

text \<open>A directory: the rest of the queue and its entries.\<close>

lemma loop_result_dir:
  assumes rest: "loop_result lk fs (F @ children path bs es) d b F' d' b'"
    and buf: "{n..<hi} \<inter> covers F = {}" and cov: "covers (children path bs es) \<subseteq> {n..<hi}"
    and new: "\<forall>S d' es'. frame S d d' \<and> S \<inter> {n..<hi} \<subseteq> covers (children path bs es) \<and> map fst es' = map fst es \<and>
      (\<forall>i < length es. lays d' (bs ! i) (bs ! Suc i) (snd (es' ! i))) \<longrightarrow> lays d' n hi (Dir a xs es')"
  shows "\<exists>F'. loop_result lk fs ((n, path, hi, Dir a xs es) # F) d b F' d' b'"
proof -
  let ?ch = "children path bs es"
  have r: "frame (covers F \<union> covers ?ch) d d'" "map same_place F' = map same_place F @ map same_place ?ch" "in_buffer d' F'"
    "\<forall>(n, path, hi, t) \<in> set F'. placed (volume lk b') fs (pos b) (pos b') path t"
    using rest by (auto simp: loop_result_def)
  then obtain A B where F': "F' = A @ B" "map same_place A = map same_place F" "map same_place B = map same_place ?ch"
    by (auto simp: map_eq_append_conv)
  have len: "length B = length es" using arg_cong [OF F'(3), of length] by (simp add: children_def)
  define tr where "tr i = snd (snd (snd (B ! i)))" for i
  have B: "B ! i = (bs ! i, path @ ''/'' @ fst (es ! i), bs ! Suc i, tr i)" "unplaced (tr i) = unplaced (snd (es ! i))"
    if i: "i < length es" for i
  proof -
    have "map same_place B ! i = map same_place ?ch ! i" by (simp only: F'(3))
    then have "same_place (B ! i) = same_place (?ch ! i)" using i len by (simp add: children_def)
    then show "B ! i = (bs ! i, path @ ''/'' @ fst (es ! i), bs ! Suc i, tr i)" "unplaced (tr i) = unplaced (snd (es ! i))"
      using i by (cases "B ! i"; simp add: children_def tr_def)+
  qed
  have mem: "B ! i \<in> set F'" if "i < length es" for i using that len F'(1) by simp
  define es' where "es' = map (\<lambda>i. (fst (es ! i), tr i)) [0..<length es]"
  have names: "map fst es' = map fst es" by (rule nth_equalityI) (simp_all add: es'_def)
  have "lays d' (bs ! i) (bs ! Suc i) (snd (es' ! i))" if i: "i < length es" for i
    using r(3) mem [OF i] B(1) [OF i] i by (auto simp: in_buffer_def es'_def)
  moreover have "(covers F \<union> covers ?ch) \<inter> {n..<hi} \<subseteq> covers ?ch" using buf by blast
  ultimately have lay: "lays d' n hi (Dir a xs es')" using new r(1) names by blast
  have "placed (volume lk b') fs (pos b) (pos b') (path @ ''/'' @ fst (es ! i)) (tr i)" if i: "i < length es" for i
    using r(4) mem [OF i] B(1) [OF i] by fastforce
  then have pl: "placed (volume lk b') fs (pos b) (pos b') path (Dir a xs es')" by (auto simp: es'_def)
  have un: "unplaced (Dir a xs es') = unplaced (Dir a xs es)"
    using B(2) by (auto simp: es'_def comp_def intro!: nth_equalityI)
  have covA: "covers A = covers F" by (rule covers_same_place [OF F'(2)])
  have buf': "in_buffer d' ((n, path, hi, Dir a xs es') # A)"
    using lay buf covA r(3) F'(1) by (simp add: in_buffer_Cons in_buffer_append)
  have fr: "frame ({n..<hi} \<union> covers F) d d'" by (rule frame_mono [OF r(1)]) (use cov in blast)
  have plA: "\<forall>(n, path, hi, t) \<in> set A. placed (volume lk b') fs (pos b) (pos b') path t"
    using r(4) by (simp add: F'(1) ball_Un)
  have eq: "all_bytes fs ((n, path, hi, Dir a xs es) # F) = all_bytes fs (F @ ?ch)"
    unfolding queue_simps children_bytes [where a = a and xs = xs] by simp
  have "loop_result lk fs ((n, path, hi, Dir a xs es) # F) d b ((n, path, hi, Dir a xs es') # A) d' b'"
    unfolding loop_result_def eq
  proof (intro conjI)
    show "map same_place ((n, path, hi, Dir a xs es') # A) = map same_place ((n, path, hi, Dir a xs es) # F)"
      using F'(2) un by simp
    show "\<forall>(n, path, hi, t) \<in> set ((n, path, hi, Dir a xs es') # A). placed (volume lk b') fs (pos b) (pos b') path t"
      using plA pl by simp
  qed (use rest fr buf' in \<open>simp_all add: loop_result_def\<close>)
  then show ?thesis by blast
qed

context chunk_map
begin

text \<open>One regular file: opened, appended to the volume, and its position noted.\<close>

lemma pack_file:
  assumes all: "\<forall>c. length c = CHUNK_SIZE_BYTES \<longrightarrow> storable c" and b: "cb_inv lookup inv room K b" and w: "no_fault w"
    and lay: "lays d n hi (Reg a xs p len)" and room: "pos b + file_bytes (files w) path (Reg a xs p len) < K * CHUNK_SIZE_BYTES"
  shows "\<exists>d1 b1 w1 p' len'.
    create_loop (cb_ops rm) ((n, path) # q) d b w = create_loop (cb_ops rm) q d1 b1 w1 \<and>
    frame {n..<hi} d d1 \<and> lays d1 n hi (Reg a xs p' len') \<and> length d1 = length d \<and>
    placed (volume lookup b1) (files w) (pos b) (pos b1) path (Reg a xs p' len') \<and>
    pos b1 = pos b + file_bytes (files w) path (Reg a xs p len) \<and> built b1 = built b \<and>
    (\<forall>a < pos b. volume lookup b a \<noteq> None \<longrightarrow> volume lookup b1 a = volume lookup b a) \<and>
    cb_inv lookup inv room K b1 \<and> no_fault w1 \<and> same_fs w w1 \<and> grown lookup b b1"
proof -
  have mode: "n_mode d n = Some (a_mode a)" "S_ISREG (a_mode a)" using lay by (auto elim!: lays_RegE simp: attrs_at_def)
  have K: "K * CHUNK_SIZE_BYTES \<le> 2 ^ 32 * CHUNK_SIZE_BYTES" using b by (simp add: cb_inv_def cb_shape_def)
  have C: "(2::nat) ^ 32 * CHUNK_SIZE_BYTES < 2 ^ 64" by (simp add: CHUNK_SIZE_BYTES_def)
  show ?thesis
  proof (cases "files w path")
    case None
    obtain w1 where w1: "add_file (cb_ops rm) path b w = Some (NOT_FOUND, 0, 0, b, w1)" "no_fault w1" "same_fs w w1"
      using add_file_missing [OF w None] by blast
    have "(2::nat) ^ 64 - 1 < 2 ^ 64" "(0::nat) < 2 ^ 64" by simp_all
    then obtain d1 where d1: "put_position d n (2 ^ 64 - 1) 0 = Some d1" "length d1 = length d" "frame {n..<hi} d d1"
        "lays d1 n hi (Reg a xs (2 ^ 64 - 1) 0)"
      by (rule put_position_ok [OF lay])
    have "create_loop (cb_ops rm) ((n, path) # q) d b w = create_loop (cb_ops rm) q d1 b w1"
      using mode w1(1) d1(1) by (subst create_loop.simps) simp
    then show ?thesis
      using d1 w1 b None grown_refl [OF b] by (intro exI [of _ d1] exI [of _ b] exI [of _ w1] exI [of _ "2 ^ 64 - 1"] exI [of _ 0]) simp
  next
    case (Some c)
    have r: "pos b + length c < K * CHUNK_SIZE_BYTES" using room Some by simp
    have st: "\<forall>c \<in> set (full_chunks (take (pos b mod CHUNK_SIZE_BYTES) (buff b) @ c)). storable c"
      using all full_chunks_length by blast
    obtain b1 w1 where a: "add_file (cb_ops rm) path b w = Some (OK, pos b, length c, b1, w1)"
        "cb_inv lookup inv room K b1" "pos b1 = pos b + length c" "built b1 = built b" "no_fault w1" "same_fs w w1"
        "patched (volume lookup b) (pos b) c (volume lookup b1)" "grown lookup b b1"
      using add_file_ok [OF b w Some r st] by blast
    have "pos b < 2 ^ 64" "length c < 2 ^ 64" using r K C by linarith+
    then obtain d1 where d1: "put_position d n (pos b) (length c) = Some d1" "length d1 = length d" "frame {n..<hi} d d1"
        "lays d1 n hi (Reg a xs (pos b) (length c))"
      by (rule put_position_ok [OF lay])
    have "create_loop (cb_ops rm) ((n, path) # q) d b w = create_loop (cb_ops rm) q d1 b1 w1"
      using mode a(1) d1(1) by (subst create_loop.simps) simp
    moreover have "volume lookup b1 x = volume lookup b x" if "x < pos b" "volume lookup b x \<noteq> None" for x
      using a(7) [unfolded patched_def, THEN spec, of x] that by simp
    moreover have "volume lookup b1 (pos b + k) = Some (c ! k)" if "k < length c" for k
      using a(7) [unfolded patched_def, THEN spec, of "pos b + k"] that by simp
    ultimately show ?thesis
      using d1 a Some
      by (intro exI [of _ d1] exI [of _ b1] exI [of _ w1] exI [of _ "pos b"] exI [of _ "length c"]) simp
  qed
qed

text \<open>The loop returns, whatever the order and the number of the reads.\<close>

lemma create_loop_ok:
  assumes all: "\<forall>c. length c = CHUNK_SIZE_BYTES \<longrightarrow> storable c" and "cb_inv lookup inv room K b" and "no_fault w"
    and "in_buffer d F" and "pos b + all_bytes (files w) F < K * CHUNK_SIZE_BYTES"
  shows "\<exists>d' b' w' F'. create_loop (cb_ops rm) (map queued_as F) d b w = Some (OK, d', b', w') \<and>
    loop_result lookup (files w) F d b F' d' b' \<and> length d' = length d \<and>
    cb_inv lookup inv room K b' \<and> no_fault w' \<and> same_fs w w' \<and> grown lookup b b'"
  using assms(2-)
proof (induction "queue_nodes F" arbitrary: F d b w rule: less_induct)
  case less
  show ?case
  proof (cases F)
    case Nil
    then show ?thesis
      using less.prems by (intro exI [of _ d] exI [of _ b] exI [of _ w] exI [of _ "[]"]) (simp add: create_loop.simps grown_refl)
  next
    case (Cons x F1)
    obtain n path hi t where x: "x = (n, path, hi, t)" by (cases x)
    have buf: "lays d n hi t" "{n..<hi} \<inter> covers F1 = {}" "in_buffer d F1" using less.prems(3) by (simp_all add: Cons x in_buffer_Cons)
    have q: "map queued_as F = (n, path) # map queued_as F1" by (simp add: Cons x)
    have room: "pos b + file_bytes (files w) path t + all_bytes (files w) F1 < K * CHUNK_SIZE_BYTES"
      using less.prems(4) by (simp add: Cons x)
    show ?thesis
    proof (cases t)
      case (Reg a xs p len)
      have r1: "pos b + file_bytes (files w) path (Reg a xs p len) < K * CHUNK_SIZE_BYTES" using room by (simp add: Reg)
      obtain d1 b1 w1 p' len' where s:
          "create_loop (cb_ops rm) (map queued_as F) d b w = create_loop (cb_ops rm) (map queued_as F1) d1 b1 w1"
          "frame {n..<hi} d d1" "lays d1 n hi (Reg a xs p' len')" "length d1 = length d"
          "placed (volume lookup b1) (files w) (pos b) (pos b1) path (Reg a xs p' len')"
          "pos b1 = pos b + file_bytes (files w) path (Reg a xs p len)" "built b1 = built b"
          "\<forall>a < pos b. volume lookup b a \<noteq> None \<longrightarrow> volume lookup b1 a = volume lookup b a"
          "cb_inv lookup inv room K b1" "no_fault w1" "same_fs w w1" "grown lookup b b1"
        using pack_file [OF all less.prems(1,2) buf(1) [unfolded Reg] r1, of rm "map queued_as F1"] unfolding q by blast
      have fs: "files w1 = files w" using s(11) by (simp add: same_fs_def)
      have f1: "queue_nodes F1 < queue_nodes F" "in_buffer d1 F1" "pos b1 + all_bytes (files w1) F1 < K * CHUNK_SIZE_BYTES"
        using in_buffer_frame [OF buf(3) s(2)] buf(2) room s(6) by (auto simp: Cons x Reg fs)
      obtain d' b' w' F' where ih: "create_loop (cb_ops rm) (map queued_as F1) d1 b1 w1 = Some (OK, d', b', w')"
          "loop_result lookup (files w) F1 d1 b1 F' d' b'" "length d' = length d1"
          "cb_inv lookup inv room K b'" "no_fault w'" "same_fs w1 w'" "grown lookup b1 b'"
        using less.hyps [OF f1(1) s(9,10) f1(2,3)] unfolding fs by blast
      have g: "grown lookup b b'"
        by (rule grown_trans [OF s(12) ih(7)]) (use s(6) ih(2) in \<open>simp_all add: loop_result_def\<close>)
      have "loop_result lookup (files w) F d b ((n, path, hi, Reg a xs p' len') # F') d' b'"
        unfolding Cons x Reg by (rule loop_result_file [OF ih(2) buf(2) s(2,3) _ s(4,5,6,7,8)]) simp
      then show ?thesis using s(1,4) ih same_fs_trans [OF s(11) ih(6)] g by auto
    next
      case (Lnk a xs target)
      have mode: "n_mode d n = Some (a_mode a)" "\<not> S_ISREG (a_mode a)" "\<not> S_ISDIR (a_mode a)"
        using buf(1) by (auto simp: Lnk attrs_at_def elim!: lays_LnkE dest: file_types)
      have f1: "queue_nodes F1 < queue_nodes F" "pos b + all_bytes (files w) F1 < K * CHUNK_SIZE_BYTES"
        using room by (simp_all add: Cons x Lnk)
      obtain d' b' w' F' where ih: "create_loop (cb_ops rm) (map queued_as F1) d b w = Some (OK, d', b', w')"
          "loop_result lookup (files w) F1 d b F' d' b'" "length d' = length d"
          "cb_inv lookup inv room K b'" "no_fault w'" "same_fs w w'" "grown lookup b b'"
        using less.hyps [OF f1(1) less.prems(1,2) buf(3) f1(2)] by blast
      have "loop_result lookup (files w) F d b ((n, path, hi, t) # F') d' b'"
        unfolding Cons x by (rule loop_result_file [OF ih(2) buf(2) frame_refl buf(1)]) (simp_all add: Lnk)
      moreover have "create_loop (cb_ops rm) (map queued_as F) d b w = create_loop (cb_ops rm) (map queued_as F1) d b w"
        unfolding q using mode by (subst create_loop.simps) simp
      ultimately show ?thesis using ih by auto
    next
      case (Dir a xs es)
      show ?thesis
      proof (rule dir_children [OF buf(1) [unfolded Dir], of path])
        fix bs D
        let ?ch = "children path bs es"
        assume c: "n_mode d n = Some (a_mode a)" "S_ISDIR (a_mode a)" "n_length d n = Some (length es)"
          "n_data_offset d n = Some D" "queue_entries d D path [0..<length es] = Some (map queued_as ?ch)"
          "in_buffer d ?ch" "covers ?ch \<subseteq> {n..<hi}"
          and new: "\<forall>S d' es'. frame S d d' \<and> S \<inter> {n..<hi} \<subseteq> covers ?ch \<and> map fst es' = map fst es \<and>
            (\<forall>i < length es. lays d' (bs ! i) (bs ! Suc i) (snd (es' ! i))) \<longrightarrow> lays d' n hi (Dir a xs es')"
        have f1: "queue_nodes (F1 @ ?ch) < queue_nodes F" "in_buffer d (F1 @ ?ch)"
            "pos b + all_bytes (files w) (F1 @ ?ch) < K * CHUNK_SIZE_BYTES"
          using children_nodes [of path bs es a xs] children_bytes [of "files w" path bs es a xs] buf(2,3) c(6,7) room
          by (auto simp: Cons x Dir in_buffer_append)
        obtain d' b' w' F' where ih: "create_loop (cb_ops rm) (map queued_as (F1 @ ?ch)) d b w = Some (OK, d', b', w')"
            "loop_result lookup (files w) (F1 @ ?ch) d b F' d' b'" "length d' = length d"
            "cb_inv lookup inv room K b'" "no_fault w'" "same_fs w w'" "grown lookup b b'"
          using less.hyps [OF f1(1) less.prems(1,2) f1(2,3)] by blast
        obtain F2 where "loop_result lookup (files w) F d b F2 d' b'"
          using loop_result_dir [OF ih(2) buf(2) c(7) new] unfolding Cons x Dir by blast
        moreover have "create_loop (cb_ops rm) (map queued_as F) d b w = create_loop (cb_ops rm) (map queued_as (F1 @ ?ch)) d b w"
          unfolding q using c(1-5) file_types(1) [OF c(2)] by (subst create_loop.simps) simp
        ultimately show ?thesis using ih by auto
      qed
    qed
  qed
qed

end

subsection \<open>The whole image\<close>

lemma span_from_0: "a \<le> b \<Longrightarrow> insert a {0} \<union> {a..b} \<union> {0..a} = {0..b::nat}"
  by auto

context chunk_map
begin

lemma create_chunks_ok:
  assumes all: "\<forall>c. length c = CHUNK_SIZE_BYTES \<longrightarrow> storable c" and b: "cb_inv lookup inv room K cb" "pos cb = 0" "no_fault w"
    and lay: "lays (mb_data b) 8 (current_pos b) t" "current_pos b \<le> length (mb_data b)"
    and room: "current_pos b + file_bytes (files w) root t < K * CHUNK_SIZE_BYTES"
  shows "\<exists>d' cb' w' t'. create_chunks (cb_ops rm) root b cb w = Some (OK, cb', w') \<and>
    frame {8..<current_pos b} (mb_data b) d' \<and> length d' = length (mb_data b) \<and>
    lays d' 8 (current_pos b) t' \<and> unplaced t' = unplaced t \<and>
    placed (volume lookup cb') (files w) (current_pos b) (current_pos b + file_bytes (files w) root t) root t' \<and>
    (\<forall>a < current_pos b. volume lookup cb' a = Some (d' ! a)) \<and> cb_inv lookup inv room K cb' \<and> same_fs w w' \<and>
    (held lookup cb = {0} \<longrightarrow> held lookup cb' = {0..(current_pos b + file_bytes (files w) root t) div CHUNK_SIZE_BYTES})"
proof -
  let ?cp = "current_pos b" and ?F = "[(8, root, current_pos b, t)]"
  have len: "length (buff x) = CHUNK_SIZE_BYTES" if "cb_inv lookup inv room K x" for x using that by (simp add: cb_inv_def cb_shape_def)
  have "pos cb + ?cp < K * CHUNK_SIZE_BYTES" using room b(2) by simp
  then obtain b1 where b1: "reserve (cb_ops rm) ?cp cb = Some (OK, 0, b1)" "cb_inv lookup inv room K b1" "pos b1 = ?cp"
      "held lookup b1 = insert (?cp div CHUNK_SIZE_BYTES) (held lookup cb)"
    using reserve_ok [OF b(1), of ?cp rm] all len [OF b(1)] b(2) by auto
  have F: "in_buffer (mb_data b) ?F" "pos b1 + all_bytes (files w) ?F < K * CHUNK_SIZE_BYTES"
    using lay(1) room b1(3) by (simp_all add: in_buffer_Cons)
  obtain d' b2 w' F' where l: "create_loop (cb_ops rm) (map queued_as ?F) (mb_data b) b1 w = Some (OK, d', b2, w')"
      "loop_result lookup (files w) ?F (mb_data b) b1 F' d' b2" "length d' = length (mb_data b)"
      "cb_inv lookup inv room K b2" "no_fault w'" "same_fs w w'" "grown lookup b1 b2"
    using create_loop_ok [OF all b1(2) b(3) F] by blast
  have "map same_place F' = [(8, root, ?cp, unplaced t)]" using l(2) by (simp add: loop_result_def)
  then obtain t' where F': "F' = [(8, root, ?cp, t')]" "unplaced t' = unplaced t"
    by (auto simp: map_eq_Cons_conv same_place_def split: prod.splits)
  have r: "frame {8..<?cp} (mb_data b) d'" "lays d' 8 ?cp t'" "pos b2 = ?cp + file_bytes (files w) root t"
    "placed (volume lookup b2) (files w) ?cp (?cp + file_bytes (files w) root t) root t'"
    using l(2) b1(3) unfolding F'(1) by (auto simp: loop_result_def in_buffer_Cons)
  have "?cp \<le> length d'" "0 + ?cp < K * CHUNK_SIZE_BYTES" using lay(2) l(3) room by simp_all
  moreover have "\<forall>c \<in> set (full_chunks (take (0 mod CHUNK_SIZE_BYTES) (window lookup b2 0) @ take ?cp d')). storable c"
    using all full_chunks_length by blast
  ultimately obtain b3 where b3: "cb_write (cb_ops rm) 0 d' ?cp b2 = Some (OK, b3)" "cb_inv lookup inv room K b3"
      "patched (volume lookup b2) 0 (take ?cp d') (volume lookup b3)"
      "held lookup b3 = held lookup b2 \<union> {0 div CHUNK_SIZE_BYTES..(0 + ?cp) div CHUNK_SIZE_BYTES}"
    using cb_write_ok [OF l(4), of ?cp d' 0 rm] all len [OF l(4)] by blast
  note v = b3(3) [unfolded patched_def, THEN spec]
  have "volume lookup b3 a = Some (d' ! a)" if "a < ?cp" for a using v [of a] that lay(2) l(3) by simp
  moreover have "placed (volume lookup b3) (files w) ?cp (?cp + file_bytes (files w) root t) root t'"
  proof (rule placed_mono [OF r(4)], intro allI impI)
    fix a
    assume "?cp \<le> a \<and> a < ?cp + file_bytes (files w) root t \<and> volume lookup b2 a \<noteq> None"
    then show "volume lookup b3 a = volume lookup b2 a" using v [of a] lay(2) l(3) by simp
  qed simp_all
  moreover have "held lookup b3 = {0..(?cp + file_bytes (files w) root t) div CHUNK_SIZE_BYTES}" if "held lookup cb = {0}"
  proof -
    have "?cp div CHUNK_SIZE_BYTES \<le> (?cp + file_bytes (files w) root t) div CHUNK_SIZE_BYTES"
      by (rule div_le_mono) simp
    from span_from_0 [OF this] show ?thesis
      using l(7) unfolding b3(4) grown_def b1(3,4) r(3) that by (simp only: add_0 div_0)
  qed
  moreover have "create_chunks (cb_ops rm) root b cb w = Some (OK, b3, w')"
    using b1(1) l(1) b3(1) by (simp add: create_chunks_def)
  ultimately show ?thesis using r(1,2) l(3,6) F'(2) b3(2) by blast
qed

end

text \<open>The byte of a volume of stored chunks at an address.\<close>

definition stored_byte :: "(nat \<rightharpoonup> bytes) \<Rightarrow> nat \<rightharpoonup> byte" where
  "stored_byte T a = map_option (\<lambda>d. d ! (a mod CHUNK_SIZE_BYTES)) (T (a div CHUNK_SIZE_BYTES))"

context chunk_map
begin

lemma build_fs_ok:
  assumes all: "\<forall>c. length c = CHUNK_SIZE_BYTES \<longrightarrow> storable c" and b: "cb_inv lookup inv room K cb" "pos cb = 0" "no_fault w"
    and h: "scanned h root t\<^sub>0" "host_ok h" "\<And>n. length (fresh n) = n"
    and room: "8 + packed_size t\<^sub>0 + file_bytes (files w) root t\<^sub>0 < K * CHUNK_SIZE_BYTES"
  shows "\<exists>cb' w' img t. build_fs (cb_ops rm) h fresh root cb w = Some (OK, cb', w') \<and> built cb' \<and>
    cb_inv lookup inv room K cb' \<and> length img = 8 + packed_size t\<^sub>0 \<and> get_u64 img 0 = Some (length img) \<and>
    represents img 8 t \<and> scanned h root t \<and>
    (\<forall>a < length img. stored_byte (lookup (store cb')) a = Some (img ! a)) \<and>
    placed (stored_byte (lookup (store cb'))) (files w) (length img) (K * CHUNK_SIZE_BYTES) root t \<and>
    (held lookup cb = {0} \<longrightarrow> (\<exists>n. dom (lookup (store cb')) = {..<n} \<and> 0 < n \<and> n \<le> K \<and>
       placed (stored_byte (lookup (store cb'))) (files w) (length img) (n * CHUNK_SIZE_BYTES) root t))"
proof -
  let ?b0 = "\<lparr>mb_data = fresh CHUNK_SIZE_BYTES, current_pos = 8\<rparr>" and ?cp = "8 + packed_size t\<^sub>0"
  have len: "length (buff x) = CHUNK_SIZE_BYTES" if "cb_inv lookup inv room K x" for x using that by (simp add: cb_inv_def cb_shape_def)
  have "K * CHUNK_SIZE_BYTES \<le> 2 ^ 32 * CHUNK_SIZE_BYTES" using b(1) by (simp add: cb_inv_def cb_shape_def)
  moreover have "(2::nat) ^ 32 * CHUNK_SIZE_BYTES < 2 ^ 64" by (simp add: CHUNK_SIZE_BYTES_def)
  ultimately have small: "?cp < 2 ^ 64" using room by linarith
  have "0 < length (mb_data ?b0)" "current_pos ?b0 + packed_size t\<^sub>0 < 2 ^ 64"
    using small by (simp_all add: h(3) chunk_size_pos del: length_greater_0_conv)
  then obtain d t1 where s: "scan_dfs h fresh root ?b0 = Some (8, \<lparr>mb_data = d, current_pos = ?cp\<rparr>)"
      "?cp \<le> length d" "lays d 8 ?cp t1" "scanned h root t1"
    using scan_dfs_ok [OF h] unfolding scan_ok_def by fastforce
  have "0 + 8 \<le> length d" using s(2) by simp
  then obtain d1 where d1: "put_u64 d 0 ?cp = Some d1" "length d1 = length d" "frame {0..<0 + 8} d d1" "get_u64 d1 0 = Some ?cp"
    using small by (rule put_u64_effect)
  let ?b = "\<lparr>mb_data = d1, current_pos = ?cp\<rparr>"
  have same: "file_bytes (files w) root t1 = file_bytes (files w) root t\<^sub>0" by (rule scanned_file_bytes [OF s(4) h(1)])
  have lay: "lays (mb_data ?b) 8 (current_pos ?b) t1" "current_pos ?b \<le> length (mb_data ?b)"
    "current_pos ?b + file_bytes (files w) root t1 < K * CHUNK_SIZE_BYTES"
    using lays_frame [OF s(3) d1(3)] s(2) d1(2) room same by simp_all
  obtain d2 cb1 w' t where c: "create_chunks (cb_ops rm) root ?b cb w = Some (OK, cb1, w')"
      "frame {8..<?cp} d1 d2" "length d2 = length d1" "lays d2 8 ?cp t" "unplaced t = unplaced t1"
      "placed (volume lookup cb1) (files w) ?cp (?cp + file_bytes (files w) root t1) root t"
      "\<forall>a < ?cp. volume lookup cb1 a = Some (d2 ! a)" "cb_inv lookup inv room K cb1"
      "held lookup cb = {0} \<longrightarrow> held lookup cb1 = {0..(?cp + file_bytes (files w) root t\<^sub>0) div CHUNK_SIZE_BYTES}"
    using create_chunks_ok [OF all b lay, of rm] unfolding same meta_builder.simps by blast
  obtain cb2 where c2: "build (cb_ops rm) cb1 = Some (OK, cb2)" "built cb2" "cb_inv lookup inv room K cb2"
      "\<forall>a x. volume lookup cb1 a = Some x \<longrightarrow>
        (\<exists>d. lookup (store cb2) (a div CHUNK_SIZE_BYTES) = Some d \<and> d ! (a mod CHUNK_SIZE_BYTES) = x)"
      "dom (lookup (store cb2)) = held lookup cb1"
    using build_ok [OF c(8), of rm] all len [OF c(8)] by blast
  have st: "stored_byte (lookup (store cb2)) a = Some x" if "volume lookup cb1 a = Some x" for a x
    using c2(4) that by (auto simp: stored_byte_def)
  let ?img = "take ?cp d2"
  have l: "length ?img = ?cp" using s(2) d1(2) c(3) by simp
  have fr: "frame {?cp..} d2 ?img" by (simp add: frame_def)
  have "get_u64 d2 0 = Some ?cp" by (rule get_u64_frame [OF d1(4) c(2)]) simp
  then have "get_u64 ?img 0 = Some ?cp" by (rule get_u64_frame [OF _ fr]) auto
  moreover have "represents ?img 8 t" by (rule lays_represents [OF lays_frame [OF c(4) fr]]) auto
  moreover have "scanned h root t" using scanned_unplaced [OF s(4)] c(5) by simp
  moreover have "placed (stored_byte (lookup (store cb2))) (files w) ?cp (K * CHUNK_SIZE_BYTES) root t"
    by (rule placed_mono [OF c(6)]) (use st room same in auto)
  moreover have "\<exists>n. dom (lookup (store cb2)) = {..<n} \<and> 0 < n \<and> n \<le> K \<and>
      placed (stored_byte (lookup (store cb2))) (files w) ?cp (n * CHUNK_SIZE_BYTES) root t" if "held lookup cb = {0}"
  proof -
    let ?e = "?cp + file_bytes (files w) root t\<^sub>0"
    have d: "dom (lookup (store cb2)) = {..<Suc (?e div CHUNK_SIZE_BYTES)}" using c(9) c2(5) that by auto
    have "?e < Suc (?e div CHUNK_SIZE_BYTES) * CHUNK_SIZE_BYTES"
      using dividend_less_div_times [OF chunk_size_pos, of ?e] by (simp add: add.commute)
    then have "placed (stored_byte (lookup (store cb2))) (files w) ?cp (Suc (?e div CHUNK_SIZE_BYTES) * CHUNK_SIZE_BYTES) root t"
      using same by (intro placed_mono [OF c(6)]) (use st in auto)
    moreover have "?e div CHUNK_SIZE_BYTES < K" using room by (simp add: less_mult_imp_div_less)
    ultimately show ?thesis using d by (intro exI [of _ "Suc (?e div CHUNK_SIZE_BYTES)"]) simp
  qed
  moreover have "build_fs (cb_ops rm) h fresh root cb w = Some (OK, cb2, w')"
    using s(1) d1(1) c(1) c2(1) by (simp add: build_fs_def)
  ultimately show ?thesis
    using c2(2,3) st c(7) l by (intro exI [of _ cb2] exI [of _ w'] exI [of _ ?img] exI [of _ t]) simp
qed

end

end
