(* ===== verification/Packed_Image.thy ===== *)
theory Packed_Image
  imports Metafs_Scan Meta_Read_Back
begin

text \<open>
  The properties of MetaFSBuilder: the scan writes the image of the tree, and MetaFileSystem
  reads the attributes of the packed files from it.
\<close>

subsection \<open>Growing the buffer\<close>

lemma reserve_buffer_empty:
  assumes "reserve_buffer fresh len b = Some b'"
  shows "fresh 0 = [] \<and> mb_data b = [] \<longrightarrow> len + current_pos b = 0"
proof (rule reserve_buffer.raw_induct [OF _ assms], goal_cases)
  case (1 rec fresh len b b')
  show ?case
  proof (intro impI, rule ccontr)
    assume a: "fresh 0 = [] \<and> mb_data b = []" "len + current_pos b \<noteq> 0"
    let ?b = "b\<lparr>mb_data := mb_data b @ fresh (length (mb_data b))\<rparr>"
    have "rec fresh len ?b = Some b'" using 1(2) a by simp
    then have "len + current_pos ?b = 0" using 1(1) a(1) by auto
    then show False using a(2) by simp
  qed
qed



subsection \<open>The image of a tree\<close>


text \<open>A directory with a file and a link, as a system describes it.\<close>

definition example_stat :: "nat \<Rightarrow> stat" where
  "example_stat mode = stat_of (example_attrs mode)"

definition example_host :: host where
  "example_host =
     \<lparr>h_lstat = (\<lambda>path. if path = ''/r'' then Some (example_stat 0x41ED)
        else if path = ''/r/a'' then Some (example_stat 0x81A4)
        else if path = ''/r/l'' then Some (example_stat 0xA1FF)
        else if path = ''/r/p'' then Some (example_stat 0x1180) else None),
      h_readlink = (\<lambda>path. if path = ''/r/l'' then Some ''a'' else None),
      h_readdir = (\<lambda>path. if path = ''/r'' then Some [''p'', ''l'', ''.'', ''a'', ''..''] else None),
      h_llistxattr = (\<lambda>path. if path = ''/r/a'' then Some (''k'' @ [CHR 0x00]) else None),
      h_getxattr = (\<lambda>path name. if path = ''/r/a'' \<and> name = ''k'' then Some ''v'' else None)\<rparr>"

lemma example_scan_names: "scan_names example_host ''/r'' = [''a'', ''l'']" "path \<noteq> ''/r'' \<Longrightarrow> scan_names example_host path = []"
  by (simp_all add: scan_names_def example_host_def sys_lstat_def PATH_MAX_def is_supported_def example_stat_def stat_of_def
      example_attrs_def S_ISLNK_def S_ISREG_def S_ISDIR_def)

lemma example_read_xattrs: "read_xattrs example_host path = (if path = ''/r/a'' then [(''k'', ''v'')] else [])"
  by (simp add: read_xattrs_def example_host_def attr_names.simps c_string_def)

lemma example_host_ok: "host_ok example_host"
  unfolding host_ok_def example_read_xattrs
  by (auto simp: example_host_def example_stat_def stat_of_def example_attrs_def stat_ok_def split: if_splits)

lemma example_lstat:
  "sys_lstat example_host ''/r'' = Some (example_stat 0x41ED)"
  "sys_lstat example_host ''/r/a'' = Some (example_stat 0x81A4)"
  "sys_lstat example_host ''/r/l'' = Some (example_stat 0xA1FF)"
  by (simp_all add: sys_lstat_def example_host_def PATH_MAX_def)

lemma example_stat_attrs: "attrs_of (example_stat mode) = example_attrs mode" "st_mode (example_stat mode) = mode"
  by (simp_all add: example_stat_def stat_of_def attrs_of_def example_attrs_def nanoseconds_def timespec_def wrap_def)

lemma example_link_target: "link_target example_host ''/r/l'' = ''a''"
  by (simp add: link_target_def example_host_def c_string_def PATH_MAX_def)

lemma example_scanned: "scanned example_host ''/r'' example_tree"
proof -
  have "scanned example_host ''/r/a'' (Reg (example_attrs 0x81A4) [(''k'', ''v'')] 300 5)"
    using scanned.reg [OF example_lstat(2), of 300 5]
    by (simp add: example_stat_attrs example_read_xattrs S_ISREG_def)
  moreover have "scanned example_host ''/r/l'' (Lnk (example_attrs 0xA1FF) [] ''a'')"
    using scanned.lnk [OF example_lstat(3)]
    by (simp add: example_stat_attrs example_read_xattrs S_ISLNK_def example_link_target)
  ultimately have "\<forall>e \<in> set [(''a'', Reg (example_attrs 0x81A4) [(''k'', ''v'')] 300 5), (''l'', Lnk (example_attrs 0xA1FF) [] ''a'')].
      scanned example_host (''/r'' @ ''/'' @ fst e) (snd e)" by simp
  from scanned.dir [OF example_lstat(1) _ _ this] show ?thesis
    by (simp add: example_stat_attrs example_read_xattrs example_scan_names S_ISDIR_def example_tree_def)
qed

lemma example_packed_size: "packed_size example_tree = 282"
  by (simp add: example_tree_def NODE_SIZE_def ENTRY_SIZE_def xattrs_len_def)


subsection \<open>Reading back what was packed\<close>

text \<open>The path below the root with the given names.\<close>

definition below :: "string list \<Rightarrow> string" where
  "below cs = concat (map ((#) CHR ''/'') cs)"

definition name_ok :: "string \<Rightarrow> bool" where
  "name_ok c \<longleftrightarrow> c \<noteq> [] \<and> CHR ''/'' \<notin> set c \<and> CHR 0x00 \<notin> set c"

lemma components_join: "CHR ''/'' \<notin> set c \<Longrightarrow> components acc (c @ CHR ''/'' # rest) = (acc @ c) # components [] rest"
  by (induction c arbitrary: acc) auto

lemma components_last: "CHR ''/'' \<notin> set c \<Longrightarrow> acc @ c \<noteq> [] \<Longrightarrow> components acc c = [acc @ c]"
  by (induction c arbitrary: acc) auto

lemma components_below: "list_all name_ok (c # cs) \<Longrightarrow> components [] (tl (below (c # cs))) = c # cs"
proof (induction cs arbitrary: c)
  case Nil
  then show ?case by (simp add: below_def name_ok_def components_last)
next
  case (Cons d cs)
  have "tl (below (c # d # cs)) = c @ CHR ''/'' # tl (below (d # cs))" by (simp add: below_def)
  then show ?case using Cons by (simp add: components_join name_ok_def)
qed

lemma below_no_nul: "list_all name_ok cs \<Longrightarrow> CHR 0x00 \<notin> set (below cs)"
  by (induction cs) (auto simp: below_def name_ok_def)

lemma scanned_Dir: "scanned h path (Dir a xs es) \<Longrightarrow>
    map fst es = scan_names h path \<and> xs = read_xattrs h path \<and> (\<forall>e \<in> set es. scanned h (path @ ''/'' @ fst e) (snd e))"
  by (cases rule: scanned.cases) auto

lemma scanned_attrs: "scanned h path t \<Longrightarrow> \<exists>st. sys_lstat h path = Some st \<and> tree_attrs t = attrs_of st"
  by (cases rule: scanned.cases) auto

lemma scanned_lookup:
  "scanned h path t \<Longrightarrow> tree_lookup t cs = Some t' \<Longrightarrow> scanned h (path @ below cs) t'"
proof (induction cs arbitrary: path t)
  case Nil
  then show ?case by (simp add: below_def)
next
  case (Cons c cs)
  then obtain a xs es u where t: "t = Dir a xs es" "map_of es c = Some u" "tree_lookup u cs = Some t'"
    by (auto split: tree.splits option.splits)
  have "scanned h (path @ ''/'' @ c) u" using scanned_Dir [of h path a xs es] Cons.prems(1) t map_of_SomeD by fastforce
  from Cons.IH [OF this t(3)] show ?case by (simp add: below_def)
qed

text \<open>Two scans of the same tree differ in the positions of the files only.\<close>

lemma scanned_same_shape:
  assumes "scanned h path t" and "scanned h path u"
  shows "(plain_dirs t \<longrightarrow> plain_dirs u) \<and> (\<forall>cs. tree_lookup t cs = None \<longrightarrow> tree_lookup u cs = None)"
  using assms
proof (induction arbitrary: u rule: scanned.induct)
  case (reg path st p len)
  from reg.prems obtain p' len' where "u = Reg (attrs_of st) (read_xattrs h path) p' len'"
    using reg.hyps by (cases rule: scanned.cases) (auto dest: file_types)
  then show ?case by (auto simp: neq_Nil_conv elim!: tree_lookup.elims)
next
  case (lnk path st)
  from lnk.prems have "u = Lnk (attrs_of st) (read_xattrs h path) (link_target h path)"
    using lnk.hyps by (cases rule: scanned.cases) (auto dest: file_types)
  then show ?case by simp
next
  case (dir path st es)
  from dir.prems obtain es' where u: "u = Dir (attrs_of st) (read_xattrs h path) es'"
    using dir.hyps by (cases rule: scanned.cases) (auto dest: file_types)
  note sub = scanned_Dir [OF dir.prems [unfolded u]]
  have names: "map fst es' = map fst es" using sub dir.hyps(3) by simp
  have both: "(plain_dirs v \<longrightarrow> plain_dirs v') \<and> (\<forall>cs. tree_lookup v cs = None \<longrightarrow> tree_lookup v' cs = None)"
    if "(c, v) \<in> set es" "(c, v') \<in> set es'" for c v v'
    using dir.IH sub that by fastforce
  have "plain_dirs v'" if all: "\<forall>e \<in> set es. plain_dirs (snd e)" and e: "(c, v') \<in> set es'" for c v'
  proof -
    have "c \<in> fst ` set es'" using e by force
    then have "c \<in> fst ` set es" using arg_cong [OF names, of set] by simp
    then obtain v where "(c, v) \<in> set es" by auto
    then show ?thesis using both e all by fastforce
  qed
  then have "plain_dirs (Dir (attrs_of st) (read_xattrs h path) es) \<longrightarrow> plain_dirs u"
    unfolding u plain_dirs_Dir by auto
  moreover have "tree_lookup u cs = None" if none: "tree_lookup (Dir (attrs_of st) (read_xattrs h path) es) cs = None" for cs
  proof (cases cs)
    case Nil
    then show ?thesis using none by simp
  next
    case (Cons c ds)
    show ?thesis
    proof (cases "map_of es' c")
      case None
      then show ?thesis by (simp add: u Cons)
    next
      case (Some v')
      then have "c \<in> fst ` set es'" by (metis map_of_eq_None_iff option.distinct(1))
      then have "map_of es c \<noteq> None" using arg_cong [OF names, of set] by (simp add: map_of_eq_None_iff)
      then obtain v where "map_of es c = Some v" by blast
      then show ?thesis using both [of c v v'] Some none by (auto simp: u Cons dest: map_of_SomeD)
    qed
  qed
  ultimately show ?case by blast
qed

text \<open>What an image can keep of \<^verbatim>\<open>struct stat\<close>: no link count, no access time.\<close>

definition packed_stat :: "stat \<Rightarrow> stat" where
  "packed_stat st = st\<lparr>st_nlink := (if S_ISDIR (st_mode st) then 2 else 1), st_atim := st_mtim st\<rparr>"

definition time_ok :: "nat \<times> nat \<Rightarrow> bool" where
  "time_ok t \<longleftrightarrow> snd t < 1000000000 \<and> snd t + fst t * 1000000000 < 2 ^ 64"

lemma timespec_nanoseconds: "time_ok t \<Longrightarrow> timespec (nanoseconds t) = t"
  by (cases t) (simp add: time_ok_def timespec_def nanoseconds_def wrap_def nat_mod_distrib nat_add_distrib nat_mult_distrib)

lemma stat_of_attrs_of: "time_ok (st_mtim st) \<Longrightarrow> time_ok (st_ctim st) \<Longrightarrow> stat_of (attrs_of st) = packed_stat st"
  by (simp add: stat_of_def attrs_of_def packed_stat_def timespec_nanoseconds)

lemma get_stat_below:
  assumes "represents img 8 t" and "scanned h root t" and "plain_dirs t" and "list_all name_ok cs"
    and "\<forall>path s. h_lstat h path = Some s \<longrightarrow> time_ok (st_mtim s) \<and> time_ok (st_ctim s)"
  shows "get_stat img (if cs = [] then ''/'' else below cs) st = Some (Inr (case tree_lookup t cs of
      None \<Rightarrow> (NOT_FOUND, st)
    | Some _ \<Rightarrow> (OK, packed_stat (the (sys_lstat h (root @ below cs))))))"
proof -
  define path where "path = tl (if cs = [] then ''/'' else below cs)"
  have eq: "(if cs = [] then ''/'' else below cs) = CHR ''/'' # path"
    by (cases cs) (simp_all add: path_def below_def)
  have c: "components [] path = cs" using assms(4) components_below by (cases cs) (simp_all add: path_def)
  have "CHR 0x00 \<notin> set path"
    using below_no_nul [OF assms(4)] unfolding path_def by (cases cs) (auto simp: below_def)
  then have g: "get_stat img (CHR ''/'' # path) st = Some (Inr (case tree_lookup t cs of
      None \<Rightarrow> (NOT_FOUND, st) | Some t' \<Rightarrow> (OK, stat_of (tree_attrs t'))))"
    unfolding get_stat_def c [symmetric] by (rule at_path_tree [OF assms(1,3)]) (simp_all add: get_stat_at_ok [OF represents_attrs])
  have "stat_of (tree_attrs t') = packed_stat (the (sys_lstat h (root @ below cs)))" if t': "tree_lookup t cs = Some t'" for t'
  proof -
    obtain s where s: "sys_lstat h (root @ below cs) = Some s" "tree_attrs t' = attrs_of s"
      using scanned_attrs [OF scanned_lookup [OF assms(2) t']] by blast
    then have "h_lstat h (root @ below cs) = Some s" by (auto simp: sys_lstat_def split: if_splits)
    then show ?thesis using assms(5) s stat_of_attrs_of by simp
  qed
  then show ?thesis unfolding eq g by (simp split: option.split)
qed



end
