(* ===== verification/Packed_Volume.thy ===== *)
theory Packed_Volume
  imports Metafs_Pack Packed_Image Fuse_Callbacks
begin

text \<open>
  The whole way of a file: a directory tree is packed by MetaFSBuilder into a volume of chunks,
  and the volume is mounted and read through ChunkProvider, DataProvider, MetaFileSystem and the
  callbacks of the kernel.
\<close>

subsection \<open>The volume that was packed\<close>

lemma placed_lookup:
  "placed V fs lo hi path t \<Longrightarrow> tree_lookup t cs = Some t' \<Longrightarrow> placed V fs lo hi (path @ below cs) t'"
proof (induction cs arbitrary: path t)
  case Nil
  then show ?case by (simp add: below_def)
next
  case (Cons c cs)
  then obtain a xs es u where t: "t = Dir a xs es" "map_of es c = Some u" "tree_lookup u cs = Some t'"
    by (auto split: tree.splits option.splits)
  have "placed V fs lo hi (path @ ''/'' @ c) u" using Cons.prems(1) t map_of_SomeD by fastforce
  from Cons.IH [OF this t(3)] show ?case by (simp add: below_def)
qed

lemma stored_bytes:
  assumes "\<forall>k < len. stored_byte T (p + k) = Some (d ! k)" and "len = length d"
  shows "volume_bytes T p len = d"
proof (rule nth_equalityI)
  fix k
  assume "k < length (volume_bytes T p len)"
  then have k: "k < len" by simp
  then have "stored_byte T (p + k) = Some (d ! k)" using assms(1) by blast
  then show "volume_bytes T p len ! k = d ! k" using k by (auto simp: stored_byte_def volume_bytes_def)
qed (use assms(2) in simp)

text \<open>The file at a place of the tree: its position and length are those of its content in the volume.\<close>

definition file_packed :: "(nat \<rightharpoonup> bytes) \<Rightarrow> bytes option \<Rightarrow> nat \<Rightarrow> nat \<Rightarrow> bool" where
  "file_packed T content p len \<longleftrightarrow>
     (case content of None \<Rightarrow> p = 2 ^ 64 - 1 \<and> len = 0 | Some d \<Rightarrow> len = length d \<and> volume_bytes T p len = d)"

lemma packed_volume:
  assumes all: "\<forall>c. length c = CHUNK_SIZE_BYTES \<longrightarrow> cs_storable lz4 c"
    and b: "builder_inv lz4 K cb" "pos cb = 0" "no_fault w"
    and h: "scanned h root t\<^sub>0" "host_ok h" "\<And>n. length (fresh n) = n"
    and room: "8 + packed_size t\<^sub>0 + file_bytes (files w) root t\<^sub>0 < K * CHUNK_SIZE_BYTES"
  shows "\<exists>cb' w' img t. build_fs (cs_ops lz4) h fresh root cb w = Some (OK, cb', w') \<and> built cb' \<and>
    builder_inv lz4 K cb' \<and> length img = 8 + packed_size t\<^sub>0 \<and> get_u64 img 0 = Some (length img) \<and>
    represents img 8 t \<and> scanned h root t \<and>
    (\<forall>a < length img. stored_byte (cs_lookup lz4 (store cb')) a = Some (img ! a)) \<and>
    placed (stored_byte (cs_lookup lz4 (store cb'))) (files w) (length img) (K * CHUNK_SIZE_BYTES) root t \<and>
    (held (cs_lookup lz4) cb = {0} \<longrightarrow> (\<exists>n. dom (cs_lookup lz4 (store cb')) = {..<n} \<and> 0 < n \<and> n \<le> K \<and>
       placed (stored_byte (cs_lookup lz4 (store cb'))) (files w) (length img) (n * CHUNK_SIZE_BYTES) root t))"
  using compressed_files.build_fs_ok [OF all b h room, of cs_remove_chunk] unfolding cs_ops_def .


text \<open>The example tree with a file of five bytes, packed into a new store.\<close>

definition example_world :: world where
  "example_world = \<lparr>files = [''/r/a'' \<mapsto> ''hello''], dirs = {''/r''}, choices = [Full, Short 0]\<rparr>"

definition example_builder :: "chunk_store chunk_builder" where
  "example_builder = cb_new (fresh_store ''/s'' 4 []) new_buffer new_buffer"

lemma example_packing:
  "builder_inv copy_codec 4 example_builder" "pos example_builder = 0" "no_fault example_world"
  "8 + packed_size example_tree + file_bytes (files example_world) ''/r'' example_tree < 4 * CHUNK_SIZE_BYTES"
proof -
  show "builder_inv copy_codec 4 example_builder"
    unfolding example_builder_def by (rule new_builder_inv [OF copy_codec_ok]) (simp_all add: short_base_def)
  show "pos example_builder = 0" by (simp add: example_builder_def cb_new_def)
  show "no_fault example_world" by (simp add: example_world_def no_fault_def)
  show "8 + packed_size example_tree + file_bytes (files example_world) ''/r'' example_tree < 4 * CHUNK_SIZE_BYTES"
    unfolding example_packed_size by (simp add: example_world_def example_tree_def CHUNK_SIZE_BYTES_def)
qed


subsection \<open>Mounting the volume where it was packed\<close>

text \<open>A node without peers: it cannot fetch a chunk.\<close>

definition offline :: "nat \<Rightarrow> chunk_store \<Rightarrow> (ErrorCode \<times> chunk_store) option" where
  "offline i s = Some (NOT_FOUND, s)"

lemma mount_own_store:
  assumes "builder_inv lz4 K cb" and "0 < cache"
  shows "provider_ready lz4 (cs_lookup lz4 (store cb)) offline (provider_new (store cb) cache)"
    and "full_volume (cs_lookup lz4 (store cb))"
    and "locally_present lz4 (provider_new (store cb) cache) i \<longleftrightarrow> cs_lookup lz4 (store cb) i \<noteq> None"
proof -
  have "cs_inv lz4 (store cb)" using assms(1) by (simp add: cb_inv_def cb_shape_def)
  then have "cs_provider_inv lz4 (cs_lookup lz4 (store cb)) (provider_new (store cb) cache)"
    using assms(2) by (intro provider_new_inv) simp_all
  then show "provider_ready lz4 (cs_lookup lz4 (store cb)) offline (provider_new (store cb) cache)"
    by (simp add: provider_ready_def fetch_ok_def offline_def)
  show "full_volume (cs_lookup lz4 (store cb))" using assms(1) by (auto simp: full_volume_def cb_inv_def cb_shape_def)
  show "locally_present lz4 (provider_new (store cb) cache) i \<longleftrightarrow> cs_lookup lz4 (store cb) i \<noteq> None"
    by (simp add: locally_present_def provider_new_def)
qed

lemma scanned_regular_file:
  assumes "scanned h path t" and "scanned h path u" and "tree_lookup t cs = Some (Reg a xs p len)"
  shows "\<exists>p' len'. tree_lookup u cs = Some (Reg a xs p' len')"
proof -
  have "tree_lookup u cs \<noteq> None" using scanned_same_shape [OF assms(2,1)] assms(3) by auto
  then obtain u' where u': "tree_lookup u cs = Some u'" by blast
  have one: "scanned h (path @ below cs) (Reg a xs p len)" by (rule scanned_lookup [OF assms(1,3)])
  have "scanned h (path @ below cs) u'" by (rule scanned_lookup [OF assms(2) u'])
  then have "\<exists>p' len'. u' = Reg a xs p' len'"
    using one by (cases rule: scanned.cases) (auto elim!: scanned.cases dest: file_types)
  then show ?thesis using u' by blast
qed

lemma present_range:
  assumes "\<forall>k < len. stored_byte T (a + k) \<noteq> None" and "\<And>i. locally_present lz4 p i \<longleftrightarrow> T i \<noteq> None"
  shows "range_present lz4 p a len"
  unfolding addresses_present_def
proof (intro allI impI)
  fix x
  assume x: "a \<le> x \<and> x < a + len"
  then have "x - a < len" by auto
  then have "stored_byte T (a + (x - a)) \<noteq> None" using assms(1) by blast
  then show "locally_present lz4 p (x div CHUNK_SIZE_BYTES)" using x assms(2) by (auto simp: stored_byte_def)
qed

text \<open>A regular file of the tree in the volume that was packed from it, found by its path.\<close>

lemma packed_file:
  assumes "scanned h root t\<^sub>0" and "scanned h root t" and "plain_dirs t\<^sub>0" and "list_all name_ok (c # cs)"
    and "tree_lookup t\<^sub>0 (c # cs) = Some (Reg a xs p\<^sub>0 l\<^sub>0)" and "placed (stored_byte T) fs lo hi root t"
    and "fs (root @ below (c # cs)) = Some content"
  shows "\<exists>p. tree_lookup t (components [] (tl (below (c # cs)))) = Some (Reg a xs p (length content)) \<and>
    plain_dirs t \<and> CHR 0x00 \<notin> set (tl (below (c # cs))) \<and> CHR ''/'' # tl (below (c # cs)) = below (c # cs) \<and>
    p + length content \<le> hi \<and> volume_bytes T p (length content) = content \<and>
    (\<forall>k < length content. stored_byte T (p + k) \<noteq> None)"
proof -
  obtain p len where leaf: "tree_lookup t (c # cs) = Some (Reg a xs p len)"
    using scanned_regular_file [OF assms(1,2,5)] by blast
  then have f: "p + len \<le> hi" "len = length content" "\<forall>k < len. stored_byte T (p + k) = Some (content ! k)"
    using placed_lookup [OF assms(6) leaf] assms(7) by auto
  have path: "CHR ''/'' # tl (below (c # cs)) = below (c # cs)" by (simp add: below_def)
  then have "CHR 0x00 \<notin> set (tl (below (c # cs)))" using below_no_nul [OF assms(4)] by (metis list.set_intros(2))
  moreover have "plain_dirs t" using scanned_same_shape [OF assms(1,2)] assms(3) by blast
  ultimately show ?thesis
    using leaf f path components_below [OF assms(4)] stored_bytes [OF f(3,2)] by auto
qed



end
