(* ===== verification/Ordered_Set.thy ===== *)
theory Ordered_Set
  imports Distfs_Prelude
begin

text \<open>
  common/ordered_set.cc: a set of strings that remembers insertion order and drops its
  oldest elements beyond a maximal size. The queue holds iterators into the set; an iterator
  is modelled by the element it points to and is valid while that element is in the set.
  \<open>front()\<close> of an empty queue and the use of an invalid iterator are undefined (\<open>None\<close>).
\<close>

subsection \<open>State and operations\<close>

record OrderedSet =
  os_data :: "string set"
  os_iterators :: "string list"
  os_max_size :: nat

definition os_new :: "nat \<Rightarrow> OrderedSet" where
  "os_new m = \<lparr>os_data = {}, os_iterators = [], os_max_size = m\<rparr>"

definition os_pop :: "OrderedSet \<Rightarrow> (string \<times> OrderedSet) option" where
  "os_pop s =
     (case os_iterators s of
        [] \<Rightarrow> None
      | it # q \<Rightarrow>
          if it \<in> os_data s
          then Some (it, s\<lparr>os_iterators := q, os_data := os_data s - {it}\<rparr>)
          else None)"

function os_trim :: "OrderedSet \<Rightarrow> OrderedSet option" where
  "os_trim s =
     (if os_max_size s < card (os_data s)
      then (case os_pop s of None \<Rightarrow> None | Some (x, s') \<Rightarrow> os_trim s')
      else Some s)"
  by pat_completeness auto
termination
  by (relation "measure (\<lambda>s. length (os_iterators s))")
    (auto simp: os_pop_def split: list.splits if_splits)

declare os_trim.simps [simp del]

definition os_push :: "string \<Rightarrow> OrderedSet \<Rightarrow> (bool \<times> OrderedSet) option" where
  "os_push str s =
     (if str \<notin> os_data s
      then map_option (Pair True)
             (os_trim (s\<lparr>os_data := insert str (os_data s), os_iterators := os_iterators s @ [str]\<rparr>))
      else Some (False, s))"

definition os_size :: "OrderedSet \<Rightarrow> nat" where
  "os_size s = wrap 32 (int (card (os_data s)))"

subsection \<open>Invariant and operations on the insertion order\<close>

definition os_inv :: "OrderedSet \<Rightarrow> bool" where
  "os_inv s \<longleftrightarrow> distinct (os_iterators s) \<and> os_data s = set (os_iterators s) \<and>
     length (os_iterators s) \<le> os_max_size s"

text \<open>The bounded queue without duplicates the class promises.\<close>

definition fifo_push :: "nat \<Rightarrow> string \<Rightarrow> string list \<Rightarrow> string list" where
  "fifo_push m x xs =
     (if x \<in> set xs then xs else drop (Suc (length xs) - m) (xs @ [x]))"

lemma os_inv_new [simp]: "os_inv (os_new m)"
  by (simp add: os_inv_def os_new_def)

lemma os_pop_inv:
  assumes "os_inv s"
  shows "os_pop s = (case os_iterators s of [] \<Rightarrow> None
           | x # q \<Rightarrow> Some (x, s\<lparr>os_iterators := q, os_data := set q\<rparr>))"
    and "os_pop s = Some (x, s') \<Longrightarrow> os_inv s'"
  using assms by (auto simp: os_pop_def os_inv_def split: list.splits)

text \<open>Trimming a state that is consistent but for its length keeps the newest elements.\<close>

lemma os_trim_drop:
  assumes "distinct (os_iterators s)" and "os_data s = set (os_iterators s)"
  shows "os_trim s =
    (let q = drop (length (os_iterators s) - os_max_size s) (os_iterators s)
     in Some (s\<lparr>os_iterators := q, os_data := set q\<rparr>))"
  using assms
proof (induction "length (os_iterators s)" arbitrary: s)
  case 0
  then show ?case by (simp add: os_trim.simps [of s])
next
  case (Suc n)
  then obtain x q where q: "os_iterators s = x # q" by (metis length_Suc_conv)
  show ?case
  proof (cases "os_max_size s < card (os_data s)")
    case False
    then have "length (os_iterators s) \<le> os_max_size s"
      using Suc.prems by (simp add: distinct_card)
    then show ?thesis using False Suc.prems(2) by (simp add: os_trim.simps [of s] Let_def)
  next
    case True
    let ?s = "s\<lparr>os_iterators := q, os_data := set q\<rparr>"
    have "os_pop s = Some (x, ?s)"
      using Suc.prems by (auto simp: os_pop_def q)
    then have "os_trim s = os_trim ?s" using True by (simp add: os_trim.simps [of s])
    also have "\<dots> = (let r = drop (length q - os_max_size s) q
        in Some (?s\<lparr>os_iterators := r, os_data := set r\<rparr>))"
      using Suc.hyps(1) [of ?s] Suc.hyps(2) Suc.prems(1) q by simp
    moreover have "length (os_iterators s) - os_max_size s = Suc (length q - os_max_size s)"
      using True Suc.prems by (simp add: q distinct_card)
    ultimately show ?thesis by (simp add: q Let_def)
  qed
qed

lemma os_push_fifo:
  assumes "os_inv s"
  shows "\<exists>s'. os_push x s = Some (x \<notin> set (os_iterators s), s') \<and> os_inv s' \<and>
           os_iterators s' = fifo_push (os_max_size s) x (os_iterators s) \<and>
           os_max_size s' = os_max_size s"
proof (cases "x \<in> set (os_iterators s)")
  case True
  then show ?thesis using assms by (simp add: os_push_def fifo_push_def os_inv_def)
next
  case False
  let ?s = "s\<lparr>os_data := insert x (os_data s), os_iterators := os_iterators s @ [x]\<rparr>"
  define q where "q = drop (Suc (length (os_iterators s)) - os_max_size s) (os_iterators s @ [x])"
  have d: "distinct (os_iterators s @ [x])" "os_data ?s = set (os_iterators s @ [x])"
    using assms False by (auto simp: os_inv_def)
  then have "distinct q" unfolding q_def by (intro distinct_drop)
  moreover have "length q \<le> os_max_size s" by (simp add: q_def)
  moreover have "os_trim ?s = Some (?s\<lparr>os_iterators := q, os_data := set q\<rparr>)"
    using os_trim_drop [of ?s] d by (simp add: q_def Let_def del: drop_append)
  moreover have "x \<notin> os_data s" using assms False by (simp add: os_inv_def)
  ultimately show ?thesis
    using False by (simp add: os_push_def fifo_push_def os_inv_def q_def del: drop_append)
qed

subsection \<open>Properties\<close>



end
