(* ===== verification/Chunk_Availability.thy ===== *)
theory Chunk_Availability
  imports Distfs_Prelude
begin

text \<open>
  network/chunk_availability.cc: the set of chunks a node holds, its exchange format (a bit
  mask of characters) and its order by size, by which the connection pool prefers one node to
  another.
\<close>

subsection \<open>The class\<close>

datatype ChunkAvailability = ChunkAvailability (chunks: "nat set")

text \<open>Bit \<open>j\<close> of a character, and the character with bit \<open>j\<close> set (\<^verbatim>\<open>|= 1 << j\<close>).\<close>

definition char_bit :: "char \<Rightarrow> nat \<Rightarrow> bool" where
  "char_bit c j = bit (of_char c :: nat) j"

definition char_set_bit :: "nat \<Rightarrow> char \<Rightarrow> char" where
  "char_set_bit j c = char_of (set_bit j (of_char c :: nat))"

definition availability_of_bitmask :: "string \<Rightarrow> ChunkAvailability" where
  "availability_of_bitmask bitmask =
     ChunkAvailability (set (concat (map (\<lambda>i. map (\<lambda>j. wrap 32 (int (i * 8 + j)))
       (filter (char_bit (bitmask ! i)) [0..<8])) [0..<length bitmask])))"

definition has_chunk :: "ChunkAvailability \<Rightarrow> nat \<Rightarrow> bool" where
  "has_chunk a i \<longleftrightarrow> i \<in> chunks a"

text \<open>
  The loop of \<^verbatim>\<open>bitmask()\<close> over the set in ascending order. Writing a character at or behind
  the length of the string is undefined.
\<close>

fun set_bits :: "nat list \<Rightarrow> string \<Rightarrow> string option" where
  "set_bits [] str = Some str"
| "set_bits (x # xs) str =
     (if x div 8 < length str
      then set_bits xs (str[x div 8 := char_set_bit (x mod 8) (str ! (x div 8))]) else None)"

definition bitmask :: "ChunkAvailability \<Rightarrow> string option" where
  "bitmask a =
     (let xs = sorted_list_of_set (chunks a)
      in if xs = [] then Some []
         else set_bits xs (replicate (last xs div 8 + last xs mod 8) (CHR 0x00)))"

definition count :: "ChunkAvailability \<Rightarrow> nat" where
  "count a = wrap 32 (int (card (chunks a)))"

text \<open>\<^verbatim>\<open>operator<\<close> compares the sizes; different sets of one size are equivalent.\<close>

definition availability_less :: "ChunkAvailability \<Rightarrow> ChunkAvailability \<Rightarrow> bool" where
  "availability_less a b \<longleftrightarrow> count a < count b"

instantiation ChunkAvailability :: preorder
begin

definition less_ChunkAvailability :: "ChunkAvailability \<Rightarrow> ChunkAvailability \<Rightarrow> bool" where
  "less_ChunkAvailability a b \<longleftrightarrow> availability_less a b"

definition less_eq_ChunkAvailability :: "ChunkAvailability \<Rightarrow> ChunkAvailability \<Rightarrow> bool" where
  "less_eq_ChunkAvailability a b \<longleftrightarrow> \<not> availability_less b a"

instance
  by standard (auto simp: less_ChunkAvailability_def less_eq_ChunkAvailability_def availability_less_def)

end

subsection \<open>Bits of a string\<close>

definition bit_at :: "string \<Rightarrow> nat \<Rightarrow> bool" where
  "bit_at s x \<longleftrightarrow> x div 8 < length s \<and> char_bit (s ! (x div 8)) (x mod 8)"

lemma char_bit_set [simp]:
  assumes "j < 8"
  shows "char_bit (char_set_bit k c) j \<longleftrightarrow> j = k \<or> char_bit c j"
proof -
  have "of_char (char_of (set_bit k (of_char c :: nat))) = take_bit 8 (set_bit k (of_char c :: nat))"
    by (simp add: take_bit_eq_mod)
  then show ?thesis
    using assms by (auto simp: char_bit_def char_set_bit_def bit_take_bit_iff bit_set_bit_iff)
qed

lemma set_bits_defined:
  "\<forall>x \<in> set xs. x div 8 < length str \<Longrightarrow>
     \<exists>str'. set_bits xs str = Some str' \<and> length str' = length str \<and>
       (\<forall>y. bit_at str' y \<longleftrightarrow> y \<in> set xs \<or> bit_at str y)"
proof (induction xs arbitrary: str)
  case Nil
  then show ?case by simp
next
  case (Cons x xs)
  let ?str = "str[x div 8 := char_set_bit (x mod 8) (str ! (x div 8))]"
  have x: "x div 8 < length str" using Cons.prems by simp
  have at: "bit_at ?str y \<longleftrightarrow> y = x \<or> bit_at str y" for y
  proof (cases "y div 8 = x div 8")
    case True
    have "y = x \<longleftrightarrow> y mod 8 = x mod 8" using True by (metis div_mult_mod_eq)
    then show ?thesis using x True by (simp add: bit_at_def)
  next
    case False
    then show ?thesis by (auto simp: bit_at_def)
  qed
  have "\<forall>x \<in> set xs. x div 8 < length ?str" using Cons.prems by simp
  from Cons.IH [OF this] show ?case using x at by auto
qed

lemma set_bits_undefined:
  "\<exists>x \<in> set xs. \<not> x div 8 < length str \<Longrightarrow> set_bits xs str = None"
  by (induction xs arbitrary: str) auto

lemma bit_at_zeros [simp]: "\<not> bit_at (replicate n (CHR 0x00)) x"
  by (simp add: bit_at_def char_bit_def)

lemma chunks_of_bitmask:
  "chunks (availability_of_bitmask s) = (\<lambda>x. wrap 32 (int x)) ` {x. bit_at s x}"
proof -
  have "{x. bit_at s x} = (\<Union>i \<in> {..<length s}. (\<lambda>j. i * 8 + j) ` {j. j < 8 \<and> char_bit (s ! i) j})"
  proof (rule set_eqI, rule iffI)
    fix x
    assume "x \<in> {x. bit_at s x}"
    then show "x \<in> (\<Union>i \<in> {..<length s}. (\<lambda>j. i * 8 + j) ` {j. j < 8 \<and> char_bit (s ! i) j})"
      by (auto simp: bit_at_def intro!: bexI [of _ "x div 8"] image_eqI [of _ _ "x mod 8"])
  next
    fix x
    assume "x \<in> (\<Union>i \<in> {..<length s}. (\<lambda>j. i * 8 + j) ` {j. j < 8 \<and> char_bit (s ! i) j})"
    then show "x \<in> {x. bit_at s x}" by (auto simp: bit_at_def)
  qed
  then show ?thesis by (auto simp: availability_of_bitmask_def image_UN image_image)
qed

lemma last_sorted_list:
  assumes "finite A" "A \<noteq> {}"
  shows "last (sorted_list_of_set A) = Max A"
proof -
  have ne: "sorted_list_of_set A \<noteq> []" using assms by simp
  have "last (sorted_list_of_set A) \<in> A" using last_in_set [OF ne] assms(1) by simp
  moreover have "x \<le> last (sorted_list_of_set A)" if "x \<in> A" for x
  proof -
    have "x \<in> set (sorted_list_of_set A)" using that assms(1) by simp
    then obtain k where "k < length (sorted_list_of_set A)" "x = sorted_list_of_set A ! k"
      by (auto simp: in_set_conv_nth)
    then show ?thesis
      using sorted_nth_mono [OF sorted_sorted_list_of_set, of k "length (sorted_list_of_set A) - 1" A]
      by (simp add: last_conv_nth [OF ne])
  qed
  ultimately show ?thesis using assms by (intro Max_eqI [symmetric]) auto
qed

lemma bitmask_cases:
  assumes "finite (chunks a)" and "chunks a \<noteq> {}"
  shows "if Max (chunks a) mod 8 = 0 then bitmask a = None
    else \<exists>s. bitmask a = Some s \<and> (\<forall>x. bit_at s x \<longleftrightarrow> x \<in> chunks a)"
proof -
  let ?m = "Max (chunks a)"
  have ne: "sorted_list_of_set (chunks a) \<noteq> []" using assms by simp
  have b: "bitmask a = set_bits (sorted_list_of_set (chunks a)) (replicate (?m div 8 + ?m mod 8) (CHR 0x00))"
    using ne last_sorted_list [OF assms] by (simp add: bitmask_def)
  show ?thesis
  proof (cases "?m mod 8 = 0")
    case True
    have "?m \<in> set (sorted_list_of_set (chunks a))" using assms by simp
    then show ?thesis unfolding b using True by (auto intro!: set_bits_undefined)
  next
    case False
    have "x div 8 \<le> ?m div 8" if "x \<in> chunks a" for x
      using that assms(1) by (intro div_le_mono) simp
    then have "\<forall>x \<in> set (sorted_list_of_set (chunks a)). x div 8 < length (replicate (?m div 8 + ?m mod 8) (CHR 0x00))"
      using assms(1) False by fastforce
    from set_bits_defined [OF this] show ?thesis unfolding b using False assms(1) by auto
  qed
qed

text \<open>A mask gives back the set it was made of.\<close>

lemma bitmask_received:
  assumes "bitmask a = Some s" and "chunks a \<subseteq> {..<2 ^ 32}"
  shows "availability_of_bitmask s = a"
proof (cases "chunks a = {}")
  case True
  then show ?thesis using assms(1) by (cases a) (auto simp: bitmask_def availability_of_bitmask_def)
next
  case False
  have "finite (chunks a)" using assms(2) finite_subset by blast
  with bitmask_cases [OF this False] assms(1) have s: "{x. bit_at s x} = chunks a" by (auto split: if_splits)
  have "(\<lambda>x. wrap 32 (int x)) ` chunks a = chunks a"
    using assms(2) wrap_of_nat [of _ 32] by force
  then have "chunks (availability_of_bitmask s) = chunks a" using chunks_of_bitmask [of s] s by simp
  then show ?thesis by (metis ChunkAvailability.collapse)
qed

subsection \<open>Properties\<close>

text \<open>
  C21: Whatever set a node has, unless its largest id is a multiple of eight, the mask it
  sends is defined and the receiver rebuilds exactly the same set from it.
\<close>

theorem bitmask_roundtrip:
  assumes "chunks a \<subseteq> {..<2 ^ 32}" and "chunks a \<noteq> {} \<Longrightarrow> Max (chunks a) mod 8 \<noteq> 0"
  shows "\<exists>s. bitmask a = Some s \<and> availability_of_bitmask s = a"
proof (cases "chunks a = {}")
  case True
  then show ?thesis by (cases a) (simp add: bitmask_def availability_of_bitmask_def)
next
  case False
  have "finite (chunks a)" using assms(1) finite_subset by blast
  with bitmask_cases [OF this False] assms(2) [OF False] obtain s where "bitmask a = Some s" by auto
  then show ?thesis using bitmask_received [OF _ assms(1)] by blast
qed

theorem bitmask_roundtrip_witness:
  "\<exists>s. bitmask (ChunkAvailability {0, 3, 9}) = Some s \<and> availability_of_bitmask s = ChunkAvailability {0, 3, 9}"
  by (rule bitmask_roundtrip) simp_all

text \<open>
  The mask of a nonempty set is undefined exactly when the largest id is a multiple of
  eight: the string is one character short then (a node whose only chunk is chunk 0 has a
  mask of length 0 and writes behind it).
\<close>

theorem bitmask_undefined_iff:
  assumes "finite (chunks a)" and "chunks a \<noteq> {}"
  shows "bitmask a = None \<longleftrightarrow> Max (chunks a) mod 8 = 0"
  using bitmask_cases [OF assms] by (auto split: if_splits)

theorem bitmask_undefined_iff_witness:
  "bitmask (ChunkAvailability {0}) = None \<and> bitmask (ChunkAvailability {1, 16}) = None \<and>
   bitmask (ChunkAvailability {1, 17}) \<noteq> None"
  using bitmask_undefined_iff [of "ChunkAvailability {0}"] bitmask_undefined_iff [of "ChunkAvailability {1, 16}"]
    bitmask_undefined_iff [of "ChunkAvailability {1, 17}"] by simp

end
