(* ===== verification/Distfs_Metadata.thy ===== *)
theory Distfs_Metadata
  imports Compressed_Store "HOL-Library.Multiset"
begin

text \<open>
  network/checksum_engine.cc and network/distfs_metadata.cc: the checksums of the chunks and
  the description of a volume made from them. SHA-256 (OpenSSL) is a parameter: \<open>sha\<close> maps
  the data to the bytes of the digest, of which it is known that there are 32.
\<close>

subsection \<open>The checksum as a string\<close>

text \<open>\<^verbatim>\<open>sprintf("%02x")\<close> of one byte.\<close>

definition lower_hex_digits :: string where
  "lower_hex_digits = ''0123456789abcdef''"

definition hex_byte :: "byte \<Rightarrow> string" where
  "hex_byte b = (let n = of_char b in [lower_hex_digits ! (n div 16), lower_hex_digits ! (n mod 16)])"

definition checksum :: "(bytes \<Rightarrow> bytes) \<Rightarrow> bytes \<Rightarrow> nat \<Rightarrow> string option" where
  "checksum sha data len = do {
     d \<leftarrow> slice data 0 len;
     Some (concat (map hex_byte (sha d)))
   }"

definition sha_ok :: "(bytes \<Rightarrow> bytes) \<Rightarrow> bool" where
  "sha_ok sha \<longleftrightarrow> (\<forall>d. length (sha d) = 32)"

subsection \<open>The description of a volume\<close>

record DistfsMetadata =
  md_peer :: string
  md_id :: nat
  md_node_id :: nat
  md_hashes :: "string list"

text \<open>
  The loop of the constructor over a store: \<open>Inl\<close> is the exception for a missing chunk. \<open>sz\<close>
  is what the uninitialised \<open>size\<close> holds.
\<close>

fun hash_chunks ::
    "(nat \<Rightarrow> bytes \<Rightarrow> nat \<Rightarrow> 's \<Rightarrow> (ErrorCode \<times> bytes \<times> nat \<times> 's) option) \<Rightarrow> (bytes \<Rightarrow> bytes) \<Rightarrow> nat \<Rightarrow>
     nat list \<Rightarrow> bytes \<Rightarrow> 's \<Rightarrow> ((nat + string list) \<times> 's) option" where
  "hash_chunks rd sha sz [] buffer st = Some (Inr [], st)"
| "hash_chunks rd sha sz (i # is) buffer st = do {
     (err, buffer', n, st') \<leftarrow> rd i buffer sz st;
     if err \<noteq> OK then Some (Inl i, st')
     else do {
       h \<leftarrow> checksum sha buffer' n;
       (r, st'') \<leftarrow> hash_chunks rd sha sz is buffer' st';
       Some (case r of Inl e \<Rightarrow> Inl e | Inr hs \<Rightarrow> Inr (h # hs), st'')
     }
   }"

text \<open>\<^verbatim>\<open>id = 1; for (auto &s : block_hashes) for (auto c : s) id *= c;\<close> with 64 bits.\<close>

definition fs_id :: "string list \<Rightarrow> nat" where
  "fs_id hashes = fold (\<lambda>s i. fold (\<lambda>c i. wrap 64 (int i * of_char c)) s i) hashes 1"

definition metadata_of_store ::
    "(nat \<Rightarrow> bytes \<Rightarrow> nat \<Rightarrow> 's \<Rightarrow> (ErrorCode \<times> bytes \<times> nat \<times> 's) option) \<Rightarrow> ('s \<Rightarrow> nat set) \<Rightarrow>
     (bytes \<Rightarrow> bytes) \<Rightarrow> nat \<Rightarrow> nat \<Rightarrow> 's \<Rightarrow> ((nat + DistfsMetadata) \<times> 's) option" where
  "metadata_of_store rd avail sha sz junk_node st = do {
     let max_id = wrap 32 (int (card (avail st)));
     (r, st') \<leftarrow> hash_chunks rd sha sz [0..<max_id] new_buffer st;
     Some (case r of Inl i \<Rightarrow> Inl i
           | Inr hs \<Rightarrow> Inr \<lparr>md_peer = [], md_id = fs_id hs, md_node_id = junk_node, md_hashes = hs\<rparr>, st')
   }"

subsection \<open>Checksums\<close>

lemma length_hex_byte [simp]: "length (hex_byte b) = 2"
  by (simp add: hex_byte_def Let_def)

lemma of_char_lt [simp]: "(of_char c :: nat) < 256"
  by (metis of_char_mod_256 mod_less_divisor zero_less_numeral)

lemma lower_hex_inj: "i < 16 \<Longrightarrow> j < 16 \<Longrightarrow> lower_hex_digits ! i = lower_hex_digits ! j \<Longrightarrow> i = j"
proof -
  have "distinct lower_hex_digits" "length lower_hex_digits = 16" by (simp_all add: lower_hex_digits_def)
  then show "i < 16 \<Longrightarrow> j < 16 \<Longrightarrow> lower_hex_digits ! i = lower_hex_digits ! j \<Longrightarrow> i = j"
    by (simp add: nth_eq_iff_index_eq)
qed

lemma hex_byte_inj: "hex_byte a = hex_byte b \<Longrightarrow> a = b"
proof -
  assume eq: "hex_byte a = hex_byte b"
  let ?a = "of_char a :: nat" and ?b = "of_char b :: nat"
  have d: "?a div 16 < 16" "?b div 16 < 16" by (rule less_mult_imp_div_less, simp)+
  have "lower_hex_digits ! (?a div 16) = lower_hex_digits ! (?b div 16)"
    "lower_hex_digits ! (?a mod 16) = lower_hex_digits ! (?b mod 16)"
    using eq by (simp_all add: hex_byte_def Let_def)
  then have "?a div 16 = ?b div 16" "?a mod 16 = ?b mod 16"
    using d by (auto intro: lower_hex_inj)
  then have "?a = ?b" by (metis div_mult_mod_eq)
  then show "a = b" by simp
qed

lemma hex_string_inj:
  "concat (map hex_byte xs) = concat (map hex_byte ys) \<Longrightarrow> xs = ys"
proof (induction xs arbitrary: ys)
  case Nil
  then show ?case by (cases ys) (auto simp: hex_byte_def Let_def)
next
  case (Cons x xs)
  then obtain y ys' where ys: "ys = y # ys'" by (cases ys) (auto simp: hex_byte_def Let_def)
  with Cons.prems have "hex_byte x = hex_byte y" "concat (map hex_byte xs) = concat (map hex_byte ys')"
    by (auto simp: append_eq_append_conv)
  then show ?case using Cons.IH ys hex_byte_inj by blast
qed

subsection \<open>The volume id\<close>

lemma fs_id_prod: "fs_id hashes = (\<Prod>c \<leftarrow> concat hashes. of_char c) mod 2 ^ 64"
proof -
  have step: "wrap 64 (int i * of_char c) = i * of_char c mod 2 ^ 64" for i :: nat and c :: char
  proof -
    have "int i * of_char c = int (i * of_char c)" by (simp add: of_nat_of_char)
    then show ?thesis by (simp only: wrap_def) (metis nat_int of_nat_mod of_nat_numeral of_nat_power)
  qed
  have inner: "fold (\<lambda>c i. wrap 64 (int i * of_char c)) s i mod 2 ^ 64 = i * (\<Prod>c \<leftarrow> s. of_char c) mod 2 ^ 64"
    for s :: string and i :: nat
    by (induction s arbitrary: i) (simp_all add: step mod_simps mult.assoc)
  have outer: "fold (\<lambda>s i. fold (\<lambda>c i. wrap 64 (int i * of_char c)) s i) hs i mod 2 ^ 64 =
      i * (\<Prod>c \<leftarrow> concat hs. of_char c) mod 2 ^ 64" for hs :: "string list" and i :: nat
  proof (induction hs arbitrary: i)
    case (Cons s hs)
    show ?case
      unfolding fold.simps comp_apply Cons.IH
      using mod_mult_cong [OF inner [of s i] refl, of "\<Prod>c \<leftarrow> concat hs. of_char c"] by (simp add: mult.assoc)
  qed simp
  have lt1: "fold (\<lambda>c i. wrap 64 (int i * of_char c)) s i < 2 ^ 64" if "i < 2 ^ 64" for s :: string and i :: nat
    using that by (induction s arbitrary: i) (simp_all add: wrap_lt [of 64, simplified])
  have "fold (\<lambda>s i. fold (\<lambda>c i. wrap 64 (int i * of_char c)) s i) hs i < 2 ^ 64" if "i < 2 ^ 64"
    for hs :: "string list" and i :: nat
    using that by (induction hs arbitrary: i) (simp_all add: lt1 [simplified])
  then have "fs_id hashes < 2 ^ 64" by (simp add: fs_id_def)
  then show ?thesis using outer [of hashes 1] by (simp add: fs_id_def)
qed

lemma even_chars_power:
  "(2::nat) ^ length (filter (\<lambda>c. even (of_char c :: nat)) s) dvd (\<Prod>c \<leftarrow> s. of_char c)"
  by (induction s) (simp_all add: mult_dvd_mono dvd_mult)

lemma fs_id_zero:
  assumes "64 \<le> length (filter (\<lambda>c. even (of_char c :: nat)) (concat hashes))"
  shows "fs_id hashes = 0"
proof -
  have "(2::nat) ^ 64 dvd 2 ^ length (filter (\<lambda>c. even (of_char c :: nat)) (concat hashes))"
    using assms by (rule le_imp_power_dvd)
  then have "(2::nat) ^ 64 dvd (\<Prod>c \<leftarrow> concat hashes. of_char c)"
    using even_chars_power dvd_trans by blast
  then show ?thesis by (simp add: fs_id_prod dvd_eq_mod_eq_0)
qed

subsection \<open>Describing a store\<close>

context chunk_map
begin

lemma hash_chunks_ok:
  assumes "inv s" and "\<forall>i \<in> set is. lookup s i \<noteq> None" and "length buffer = CHUNK_SIZE_BYTES"
  shows "\<exists>s'. hash_chunks rd sha sz is buffer s =
      Some (Inr (map (\<lambda>i. concat (map hex_byte (sha (the (lookup s i))))) is), s') \<and>
    inv s' \<and> lookup s' = lookup s"
  using assms
proof (induction "is" arbitrary: s buffer)
  case Nil
  then show ?case by simp
next
  case (Cons i "is")
  then obtain d where d: "lookup s i = Some d" by auto
  have len: "length d \<le> CHUNK_SIZE_BYTES" by (rule lookup_length [OF Cons.prems(1) d])
  obtain s1 where r: "rd i buffer sz s = Some (OK, d @ drop (length d) buffer, length d, s1)"
      "inv s1" "lookup s1 = lookup s"
    using read_ok [OF Cons.prems(1) d, of buffer sz] Cons.prems(3) by auto
  have c: "checksum sha (d @ drop (length d) buffer) (length d) = Some (concat (map hex_byte (sha d)))"
    by (simp add: checksum_def slice_def)
  have "\<forall>i \<in> set is. lookup s1 i \<noteq> None" "length (d @ drop (length d) buffer) = CHUNK_SIZE_BYTES"
    using Cons.prems(2,3) r(3) len by simp_all
  from Cons.IH [OF r(2) this] show ?case using r c d by auto
qed

lemma hash_chunks_missing:
  assumes "inv s" and "\<forall>j < i. lookup s j \<noteq> None" and "lookup s i = None" and "i < n" and "n \<le> 2 ^ 32"
    and "length buffer = CHUNK_SIZE_BYTES" and "k \<le> i"
  shows "\<exists>s'. hash_chunks rd sha sz [k..<n] buffer s = Some (Inl i, s') \<and> inv s' \<and> lookup s' = lookup s"
  using assms
proof (induction "i - k" arbitrary: k s buffer)
  case 0
  then have k: "k = i" by simp
  have "i < 2 ^ 32" using 0 by simp
  from read_missing [OF 0(2) this 0(4), of buffer sz] 0(5) show ?case by (auto simp: k upt_conv_Cons)
next
  case (Suc m)
  then have k: "k < i" "k < n" by simp_all
  then obtain d where d: "lookup s k = Some d" using Suc.prems(2) by blast
  have len: "length d \<le> CHUNK_SIZE_BYTES" by (rule lookup_length [OF Suc.prems(1) d])
  obtain s1 where r: "rd k buffer sz s = Some (OK, d @ drop (length d) buffer, length d, s1)"
      "inv s1" "lookup s1 = lookup s"
    using read_ok [OF Suc.prems(1) d, of buffer sz] Suc.prems(6) by auto
  have c: "checksum sha (d @ drop (length d) buffer) (length d) = Some (concat (map hex_byte (sha d)))"
    by (simp add: checksum_def slice_def)
  have "\<exists>s'. hash_chunks rd sha sz [Suc k..<n] (d @ drop (length d) buffer) s1 = Some (Inl i, s') \<and>
      inv s' \<and> lookup s' = lookup s1"
    by (rule Suc.hyps(1)) (use Suc.hyps(2) Suc.prems r(2,3) k len in auto)
  then show ?case using r c k by (auto simp: upt_conv_Cons)
qed

end

text \<open>The description of a store without gaps.\<close>

lemma metadata_of_store_ok:
  assumes "store_bounded s" and "n < 2 ^ 32" and "in_store s = {..<n}"
  shows "\<exists>m s'. metadata_of_store store_read_chunk store_available sha sz junk s = Some (Inr m, s') \<and>
    store_bounded s' \<and> store_lookup s' = store_lookup s \<and> md_peer m = [] \<and> md_id m = fs_id (md_hashes m) \<and>
    md_hashes m = map (\<lambda>i. concat (map hex_byte (sha (the (store_lookup s i))))) [0..<n]"
proof -
  have inv: "store_inv s" using assms(1) by (simp add: store_bounded_def)
  have av: "wrap 32 (int (card (store_available s))) = n"
    using assms(2,3) wrap_of_nat [of n 32] by (simp add: store_available_def)
  have "\<forall>i \<in> set [0..<n]. store_lookup s i \<noteq> None" using assms(3) store_inv_in_store [OF inv] by auto
  from chunk_files.hash_chunks_ok [OF assms(1) this, of new_buffer sha sz] obtain s' where
    "hash_chunks store_read_chunk sha sz [0..<n] new_buffer s =
       Some (Inr (map (\<lambda>i. concat (map hex_byte (sha (the (store_lookup s i))))) [0..<n]), s')"
    "store_bounded s'" "store_lookup s' = store_lookup s" by auto
  then show ?thesis by (auto simp: metadata_of_store_def av)
qed

subsection \<open>Properties\<close>

text \<open>
  The description of a volume whose chunks are numbered without a gap holds the SHA-256
  of every chunk file in order, and two chunk files with the same entry have the same digest.
  The store is not changed. With a gap, the constructor throws and names the first missing
  chunk.
\<close>

theorem metadata_lists_chunk_hashes:
  assumes "store_bounded s" and "K \<le> 2 ^ 32 - 1" and "card (in_store s) = K"
  shows "(in_store s = {..<K} \<longrightarrow>
       (\<exists>m s'. metadata_of_store store_read_chunk store_available sha sz junk s = Some (Inr m, s') \<and>
          store_lookup s' = store_lookup s \<and>
          md_hashes m = map (\<lambda>i. concat (map hex_byte (sha (the (store_lookup s i))))) [0..<K] \<and>
          (\<forall>i < K. \<forall>j < K. md_hashes m ! i = md_hashes m ! j \<longleftrightarrow>
             sha (the (store_lookup s i)) = sha (the (store_lookup s j))))) \<and>
     (\<forall>i < K. i \<notin> in_store s \<and> {..<i} \<subseteq> in_store s \<longrightarrow>
       (\<exists>s'. metadata_of_store store_read_chunk store_available sha sz junk s = Some (Inl i, s')))"
proof (intro conjI impI allI)
  have inv: "store_inv s" using assms(1) by (simp add: store_bounded_def)
  have av: "wrap 32 (int (card (store_available s))) = K"
    using assms(2,3) wrap_of_nat [of K 32] by (simp add: store_available_def)
  show "\<exists>m s'. metadata_of_store store_read_chunk store_available sha sz junk s = Some (Inr m, s') \<and>
      store_lookup s' = store_lookup s \<and>
      md_hashes m = map (\<lambda>i. concat (map hex_byte (sha (the (store_lookup s i))))) [0..<K] \<and>
      (\<forall>i < K. \<forall>j < K. md_hashes m ! i = md_hashes m ! j \<longleftrightarrow>
         sha (the (store_lookup s i)) = sha (the (store_lookup s j)))"
    if "in_store s = {..<K}"
  proof -
    have "K < 2 ^ 32" using assms(2) by simp
    from metadata_of_store_ok [OF assms(1) this that, of sha sz junk] show ?thesis by (auto dest: hex_string_inj)
  qed
  fix i
  assume i: "i < K" and gap: "i \<notin> in_store s \<and> {..<i} \<subseteq> in_store s"
  have l: "\<forall>j < i. store_lookup s j \<noteq> None" "store_lookup s i = None"
    using gap store_inv_in_store [OF inv] by (auto simp: subset_iff)
  have "K \<le> 2 ^ 32" using assms(2) by simp
  from chunk_files.hash_chunks_missing [OF assms(1) l i this length_new_buffer, of 0 sha sz]
  show "\<exists>s'. metadata_of_store store_read_chunk store_available sha sz junk s = Some (Inl i, s')"
    by (auto simp: metadata_of_store_def av)
qed

theorem metadata_lists_chunk_hashes_witness:
  "\<exists>s s'. store_write_chunk 1 ''abc'' 3 (fresh_store ''/s'' 4 []) = Some (OK, s) \<and>
     metadata_of_store store_read_chunk store_available (\<lambda>d. replicate 32 (CHR 0x07)) 9 5 s = Some (Inl 0, s')"
proof -
  have f: "store_bounded (fresh_store ''/s'' 4 [])" by (rule fresh_store_bounded) (simp_all add: short_base_def)
  obtain s E where s: "store_write_chunk 1 ''abc'' 3 (fresh_store ''/s'' 4 []) = Some (OK, s)" "store_bounded s"
      "store_lookup s = (Map.empty |` (- E))(1 \<mapsto> take 3 ''abc'')"
    using chunk_files.write_ok [OF f, of 1 3 "''abc''"] by (auto simp: CHUNK_SIZE_BYTES_def)
  have "store_available s = {1}" using chunk_files.avail_dom [OF s(2)] by (simp add: s(3) restrict_map_def)
  then have "in_store s = {1}" by (simp add: store_available_def)
  then show ?thesis
    using metadata_lists_chunk_hashes [OF s(2), of 1 "\<lambda>d. replicate 32 (CHR 0x07)" 9 5] s(1) by auto
qed

text \<open>
  The volume id is the product of the characters of all hashes modulo 2^64. It does not
  depend on the order of the chunks, and it is 0 as soon as 64 characters of the hashes have
  an even code, so that practically all volumes of more than a few chunks have the same id.
\<close>

theorem fs_id_degenerates:
  "fs_id hashes = (\<Prod>c \<leftarrow> concat hashes. of_char c) mod 2 ^ 64 \<and>
   (mset (concat hashes) = mset (concat hashes') \<longrightarrow> fs_id hashes = fs_id hashes') \<and>
   (64 \<le> length (filter (\<lambda>c. even (of_char c :: nat)) (concat hashes)) \<longrightarrow> fs_id hashes = 0)"
proof (intro conjI impI)
  show "fs_id hashes = (\<Prod>c \<leftarrow> concat hashes. of_char c) mod 2 ^ 64" by (rule fs_id_prod)
next
  assume "mset (concat hashes) = mset (concat hashes')"
  then have "mset (map of_char (concat hashes)) = mset (map (of_char :: char \<Rightarrow> nat) (concat hashes'))"
    by (simp only: mset_map)
  then have "(\<Prod>c \<leftarrow> concat hashes. of_char c :: nat) = (\<Prod>c \<leftarrow> concat hashes'. of_char c)"
    by (metis prod_mset_prod_list)
  then show "fs_id hashes = fs_id hashes'" by (simp only: fs_id_prod)
next
  assume "64 \<le> length (filter (\<lambda>c. even (of_char c :: nat)) (concat hashes))"
  then show "fs_id hashes = 0" by (rule fs_id_zero)
qed

theorem fs_id_degenerates_witness:
  "fs_id [replicate 64 CHR ''0''] = 0 \<and> fs_id [''ab'', ''01''] = fs_id [''01'', ''ab''] \<and>
   fs_id [''13''] = 49 * 51"
proof (intro conjI)
  show "fs_id [replicate 64 CHR ''0''] = 0"
    using fs_id_degenerates [of "[replicate 64 CHR ''0'']" "[]"] by simp
  show "fs_id [''ab'', ''01''] = fs_id [''01'', ''ab'']"
    using fs_id_degenerates [of "[''ab'', ''01'']" "[''01'', ''ab'']"] by simp
  show "fs_id [''13''] = 49 * 51"
    using fs_id_degenerates [of "[''13'']" "[]"] by simp
qed

end
