(* ===== verification/Connection_Pool.thy ===== *)
theory Connection_Pool
  imports Ordered_Set Chunk_Availability Distfs_Metadata
begin

text \<open>
  network/connection_pool.cc and .h: the peers of a node. What lies outside of the program, the
  remote procedure calls to other nodes, the channel set-up, the clock and the random
  generator, is the parameter \<open>net\<close>, whose functions act on an environment \<open>'e\<close>. The set of
  chunks in the store is passed as \<open>avail\<close>. Each operation is one step; the threads of the
  server and the worker interleave whole operations (\<open>pool_step\<close>).
\<close>

subsection \<open>Messages and the outside\<close>

text \<open>The messages of network/proto/distfs.proto.\<close>

record Info =
  i_fs_id :: nat
  i_node_id :: nat
  i_listen_port :: nat
  i_available :: bytes

record PeerList =
  pl_node_id :: nat
  pl_peer :: "string list"

text \<open>
  \<open>call_chunk\<close> gives the parts the reader yields and whether the status is ok; \<open>None\<close> of the
  other calls is a status that is not ok. \<open>connect\<close> is the channel and the stub of an address,
  if it could be reached in time; \<open>draw n\<close> is a number below \<open>n\<close>.
\<close>

record ('stub, 'e) net =
  call_chunk :: "'stub \<Rightarrow> nat \<Rightarrow> 'e \<Rightarrow> bytes list \<times> bool \<times> 'e"
  call_info :: "'stub \<Rightarrow> Info \<Rightarrow> 'e \<Rightarrow> Info option \<times> 'e"
  call_peers :: "'stub \<Rightarrow> PeerList \<Rightarrow> 'e \<Rightarrow> PeerList option \<times> 'e"
  connect :: "string \<Rightarrow> 'e \<Rightarrow> 'stub option \<times> 'e"
  clock :: "'e \<Rightarrow> int \<times> 'e"
  draw :: "nat \<Rightarrow> 'e \<Rightarrow> nat \<times> 'e"

definition INFO_REFRESH_S :: int where "INFO_REFRESH_S = 10"
definition PEX_REFRESH_S :: int where "PEX_REFRESH_S = 60"

subsection \<open>The pool\<close>

record 'stub Connection =
  stub :: 'stub
  availability :: ChunkAvailability
  url :: string
  n_id :: nat
  last_info :: int
  last_pex :: int

record 'stub pool =
  active_connections_limit :: nat
  peer_candidates :: OrderedSet
  active_peers :: "string set"
  metadata :: DistfsMetadata
  connections :: "'stub Connection list"
  last_explore :: int
  node_id :: nat
  listen_port :: nat

text \<open>
  \<^verbatim>\<open>std::list::sort\<close>: a stable sort by a comparison \<open>before\<close>; an element goes before the first one that
  is not before it.
\<close>

fun list_insert :: "('a \<Rightarrow> 'a \<Rightarrow> bool) \<Rightarrow> 'a \<Rightarrow> 'a list \<Rightarrow> 'a list" where
  "list_insert before x [] = [x]"
| "list_insert before x (y # ys) = (if before y x then y # list_insert before x ys else x # y # ys)"

fun list_sort :: "('a \<Rightarrow> 'a \<Rightarrow> bool) \<Rightarrow> 'a list \<Rightarrow> 'a list" where
  "list_sort before [] = []"
| "list_sort before (x # xs) = list_insert before x (list_sort before xs)"

text \<open>A new connection, \<^verbatim>\<open>operator<\<close> of connections, and \<^verbatim>\<open>connections.sort()\<close>.\<close>

definition new_connection :: "'stub \<Rightarrow> string \<Rightarrow> nat \<Rightarrow> 'stub Connection" where
  "new_connection st u n =
     \<lparr>stub = st, availability = ChunkAvailability {}, url = u, n_id = n, last_info = 0, last_pex = 0\<rparr>"

definition connection_less :: "'stub Connection \<Rightarrow> 'stub Connection \<Rightarrow> bool" where
  "connection_less a b \<longleftrightarrow> availability_less (availability a) (availability b)"

definition sort_connections :: "'stub Connection list \<Rightarrow> 'stub Connection list" where
  "sort_connections = list_sort connection_less"

text \<open>The members of a new pool; \<open>bootstrap\<close> is the stub of the metadata, if it has one.\<close>

definition pool_new ::
    "('stub, 'e) net \<Rightarrow> DistfsMetadata \<Rightarrow> 'stub option \<Rightarrow> nat \<Rightarrow> nat \<Rightarrow> nat \<Rightarrow> 'e \<Rightarrow> 'stub pool \<times> 'e" where
  "pool_new net md bootstrap limit candidates_limit port e =
     (case draw net (2 ^ 64) e of (nid, e') \<Rightarrow>
        (\<lparr>active_connections_limit = limit, peer_candidates = os_new candidates_limit,
          active_peers = (if md_peer md \<noteq> [] \<and> bootstrap \<noteq> None then {md_peer md} else {}), metadata = md,
          connections = (if md_peer md \<noteq> [] then
              (case bootstrap of None \<Rightarrow> [] | Some st \<Rightarrow> [new_connection st (md_peer md) (md_node_id md)]) else []),
          last_explore = 0, node_id = nid, listen_port = port\<rparr>, e'))"

text \<open>The message a pool describes its node with.\<close>

definition info_request :: "nat set \<Rightarrow> 'stub pool \<Rightarrow> Info option" where
  "info_request avail p =
     map_option (\<lambda>mask. \<lparr>i_fs_id = md_id (metadata p), i_node_id = node_id p, i_listen_port = listen_port p,
       i_available = mask\<rparr>) (bitmask (ChunkAvailability avail))"

subsection \<open>The worker\<close>

text \<open>The loop of \<^verbatim>\<open>worker_get_info\<close> over the connections, with the set of active peers.\<close>

fun refresh_info ::
    "('stub, 'e) net \<Rightarrow> int \<Rightarrow> Info \<Rightarrow> 'stub Connection list \<Rightarrow> string set \<Rightarrow> 'e \<Rightarrow>
     'stub Connection list \<times> string set \<times> 'e" where
  "refresh_info net now request [] active e = ([], active, e)"
| "refresh_info net now request (c # cs) active e =
     (if now - last_info c > INFO_REFRESH_S then
        (case call_info net (stub c) request e of
           (Some response, e1) \<Rightarrow>
             let (t, e2) = clock net e1;
                 (cs', active', e3) = refresh_info net now request cs active e2
             in (c\<lparr>availability := availability_of_bitmask (i_available response), last_info := t\<rparr> # cs', active', e3)
         | (None, e1) \<Rightarrow> refresh_info net now request cs (active - {url c}) e1)
      else
        let (cs', active', e1) = refresh_info net now request cs active e in (c # cs', active', e1))"

definition worker_get_info :: "('stub, 'e) net \<Rightarrow> nat set \<Rightarrow> 'stub pool \<Rightarrow> 'e \<Rightarrow> ('stub pool \<times> 'e) option" where
  "worker_get_info net avail p e = do {
     let (now, e1) = clock net e;
     request \<leftarrow> info_request avail p;
     let (cs, active, e2) = refresh_info net now request (connections p) (active_peers p) e1;
     Some (p\<lparr>connections := sort_connections cs, active_peers := active\<rparr>, e2)
   }"

text \<open>Strangers among the peers become candidates (worker_get_pex and pex_from).\<close>

fun push_strangers :: "string set \<Rightarrow> string list \<Rightarrow> OrderedSet \<Rightarrow> OrderedSet option" where
  "push_strangers active [] candidates = Some candidates"
| "push_strangers active (p # ps) candidates =
     (if p \<in> active then push_strangers active ps candidates
      else do {
        (_, candidates') \<leftarrow> os_push p candidates;
        push_strangers active ps candidates'
      })"

text \<open>
  The loop of \<^verbatim>\<open>worker_get_pex\<close>: \<open>kept\<close> are the connections before the iterator, so that
  \<open>kept @ c # cs\<close> is the list at that moment.
\<close>

fun exchange_peers ::
    "('stub, 'e) net \<Rightarrow> int \<Rightarrow> nat \<Rightarrow> 'stub Connection list \<Rightarrow> 'stub Connection list \<Rightarrow> string set \<Rightarrow> OrderedSet \<Rightarrow>
     'e \<Rightarrow> ('stub Connection list \<times> string set \<times> OrderedSet \<times> 'e) option" where
  "exchange_peers net now nid kept [] active candidates e = Some (kept, active, candidates, e)"
| "exchange_peers net now nid kept (c # cs) active candidates e =
     (if now - last_pex c > PEX_REFRESH_S then
        let request = \<lparr>pl_node_id = nid, pl_peer = map url (filter (\<lambda>d. n_id d \<noteq> n_id c) (kept @ c # cs))\<rparr>
        in case call_peers net (stub c) request e of
             (Some response, e1) \<Rightarrow> do {
               candidates' \<leftarrow> push_strangers active (pl_peer response) candidates;
               let (t, e2) = clock net e1;
               exchange_peers net now nid (kept @ [c\<lparr>last_pex := t\<rparr>]) cs active candidates' e2
             }
           | (None, e1) \<Rightarrow> exchange_peers net now nid kept cs (active - {url c}) candidates e1
      else exchange_peers net now nid (kept @ [c]) cs active candidates e)"

definition worker_get_pex :: "('stub, 'e) net \<Rightarrow> 'stub pool \<Rightarrow> 'e \<Rightarrow> ('stub pool \<times> 'e) option" where
  "worker_get_pex net p e = do {
     let (now, e1) = clock net e;
     (cs, active, candidates, e2) \<leftarrow>
       exchange_peers net now (node_id p) [] (connections p) (active_peers p) (peer_candidates p) e1;
     Some (p\<lparr>connections := sort_connections cs, active_peers := active, peer_candidates := candidates\<rparr>, e2)
   }"

text \<open>
  An attempt to reach a candidate: connect, exchange infos, compare the volume. A node that is
  reached by its own id is reported in the log and not refused.
\<close>

definition attempt ::
    "('stub, 'e) net \<Rightarrow> nat set \<Rightarrow> 'stub pool \<Rightarrow> string \<Rightarrow> 'e \<Rightarrow> (('stub \<times> Info) option \<times> 'e) option" where
  "attempt net avail p u e =
     (case connect net u e of
        (None, e1) \<Rightarrow> Some (None, e1)
      | (Some st, e1) \<Rightarrow> do {
          request \<leftarrow> info_request avail p;
          let (r, e2) = call_info net st request e1;
          Some (case r of None \<Rightarrow> None
                | Some response \<Rightarrow> if i_fs_id response \<noteq> md_id (metadata p) then None else Some (st, response), e2)
        })"

definition peer_connection :: "'stub \<Rightarrow> string \<Rightarrow> Info \<Rightarrow> int \<Rightarrow> 'stub Connection" where
  "peer_connection st u response t =
     (new_connection st u (i_node_id response))
       \<lparr>availability := availability_of_bitmask (i_available response), last_info := t\<rparr>"

text \<open>The loop of \<^verbatim>\<open>worker_expand\<close> with the rounds that are left.\<close>

fun expand_loop :: "('stub, 'e) net \<Rightarrow> nat set \<Rightarrow> nat \<Rightarrow> 'stub pool \<Rightarrow> 'e \<Rightarrow> ('stub pool \<times> 'e) option" where
  "expand_loop net avail 0 p e = Some (p, e)"
| "expand_loop net avail (Suc k) p e =
     (if card (active_peers p) < active_connections_limit p \<and> os_size (peer_candidates p) > 0 then do {
        (u, candidates) \<leftarrow> os_pop (peer_candidates p);
        let p1 = p\<lparr>peer_candidates := candidates\<rparr>;
        (r, e1) \<leftarrow> attempt net avail p1 u e;
        case r of
          None \<Rightarrow> expand_loop net avail k p1 e1
        | Some (st, response) \<Rightarrow>
            let (t, e2) = clock net e1;
                c = peer_connection st u response t
            in expand_loop net avail k
                 (p1\<lparr>connections := sort_connections (connections p1 @ [c]), active_peers := insert u (active_peers p1)\<rparr>) e2
      }
      else Some (p, e))"

definition worker_expand :: "('stub, 'e) net \<Rightarrow> nat set \<Rightarrow> 'stub pool \<Rightarrow> 'e \<Rightarrow> ('stub pool \<times> 'e) option" where
  "worker_expand net avail p e = expand_loop net avail 5 p e"

text \<open>
  The loop of \<^verbatim>\<open>worker_explore\<close>: a peer with more chunks than the poorest connection replaces
  it. \<open>begin()\<close> of an empty list is undefined.
\<close>

fun explore_loop :: "('stub, 'e) net \<Rightarrow> nat set \<Rightarrow> nat \<Rightarrow> nat \<Rightarrow> 'stub pool \<Rightarrow> 'e \<Rightarrow> ('stub pool \<times> 'e) option" where
  "explore_loop net avail min_chunks 0 p e = Some (p, e)"
| "explore_loop net avail min_chunks (Suc k) p e =
     (if os_size (peer_candidates p) > 0 then do {
        (u, candidates) \<leftarrow> os_pop (peer_candidates p);
        let p1 = p\<lparr>peer_candidates := candidates\<rparr>;
        (r, e1) \<leftarrow> attempt net avail p1 u e;
        case r of
          None \<Rightarrow> explore_loop net avail min_chunks k p1 e1
        | Some (st, response) \<Rightarrow>
            if Chunk_Availability.count (availability_of_bitmask (i_available response)) \<le> min_chunks
            then explore_loop net avail min_chunks k p1 e1
            else
              let (t, e2) = clock net e1;
                  c = peer_connection st u response t
              in case connections p1 of
                   [] \<Rightarrow> None
                 | first # rest \<Rightarrow>
                     explore_loop net avail min_chunks k
                       (p1\<lparr>connections := sort_connections (rest @ [c]),
                           active_peers := insert u (active_peers p1 - {url first})\<rparr>) e2
      }
      else Some (p, e))"

definition worker_explore :: "('stub, 'e) net \<Rightarrow> nat set \<Rightarrow> 'stub pool \<Rightarrow> 'e \<Rightarrow> ('stub pool \<times> 'e) option" where
  "worker_explore net avail p e =
     (case clock net e of (now, e1) \<Rightarrow>
        if now - last_explore p > 15
        then explore_loop net avail (case connections p of [] \<Rightarrow> 0 | c # _ \<Rightarrow> Chunk_Availability.count (availability c)) 10 p e1
        else Some (p, e1))"

definition worker :: "('stub, 'e) net \<Rightarrow> nat set \<Rightarrow> 'stub pool \<Rightarrow> 'e \<Rightarrow> ('stub pool \<times> 'e) option" where
  "worker net avail p e = do {
     (p1, e1) \<leftarrow> worker_get_info net avail p e;
     (p2, e2) \<leftarrow> worker_get_pex net p1 e1;
     (p3, e3) \<leftarrow> worker_expand net avail p2 e2;
     worker_explore net avail p3 e3
   }"

subsection \<open>Calls from the service\<close>

text \<open>The first connection with the node id gets the new availability.\<close>

fun update_info ::
    "('stub, 'e) net \<Rightarrow> nat \<Rightarrow> ChunkAvailability \<Rightarrow> 'stub Connection list \<Rightarrow> 'e \<Rightarrow> bool \<times> 'stub Connection list \<times> 'e" where
  "update_info net nid a [] e = (False, [], e)"
| "update_info net nid a (c # cs) e =
     (if n_id c = nid
      then (case clock net e of (t, e1) \<Rightarrow> (True, c\<lparr>availability := a, last_info := t\<rparr> # cs, e1))
      else (case update_info net nid a cs e of (changed, cs', e1) \<Rightarrow> (changed, c # cs', e1)))"

definition info_from ::
    "('stub, 'e) net \<Rightarrow> string \<Rightarrow> nat \<Rightarrow> ChunkAvailability \<Rightarrow> 'stub pool \<Rightarrow> 'e \<Rightarrow> ('stub pool \<times> 'e) option" where
  "info_from net peer nid a p e = do {
     candidates \<leftarrow> push_strangers (active_peers p) [peer] (peer_candidates p);
     let (changed, cs, e1) = update_info net nid a (connections p) e;
     Some (p\<lparr>peer_candidates := candidates, connections := (if changed then sort_connections cs else cs)\<rparr>, e1)
   }"

text \<open>The loop of \<^verbatim>\<open>pex_from\<close> over the connections, with the addresses it hands out.\<close>

fun note_pex ::
    "('stub, 'e) net \<Rightarrow> nat \<Rightarrow> 'stub Connection list \<Rightarrow> 'e \<Rightarrow> 'stub Connection list \<times> string list \<times> 'e" where
  "note_pex net nid [] e = ([], [], e)"
| "note_pex net nid (c # cs) e =
     (if n_id c = nid
      then let (t, e1) = clock net e; (cs', out, e2) = note_pex net nid cs e1 in (c\<lparr>last_pex := t\<rparr> # cs', out, e2)
      else let (cs', out, e1) = note_pex net nid cs e in (c # cs', url c # out, e1))"

definition pex_from ::
    "('stub, 'e) net \<Rightarrow> nat \<Rightarrow> string list \<Rightarrow> 'stub pool \<Rightarrow> 'e \<Rightarrow> (string list \<times> 'stub pool \<times> 'e) option" where
  "pex_from net nid incoming p e = do {
     candidates \<leftarrow> push_strangers (active_peers p) incoming (peer_candidates p);
     let (cs, outgoing, e1) = note_pex net nid (connections p) e;
     Some (outgoing, p\<lparr>peer_candidates := candidates, connections := cs\<rparr>, e1)
   }"

text \<open>A stub of a peer that has the chunk, drawn at random.\<close>

definition connection_for_block ::
    "('stub, 'e) net \<Rightarrow> nat \<Rightarrow> 'stub pool \<Rightarrow> 'e \<Rightarrow> ('stub option \<times> ErrorCode \<times> 'e) option" where
  "connection_for_block net i p e =
     (let a = map stub (filter (\<lambda>c. has_chunk (availability c) i) (connections p))
      in if a \<noteq> [] then
           (case draw net (length a) e of (k, e1) \<Rightarrow> if k < length a then Some (Some (a ! k), OK, e1) else None)
         else Some (None, NOT_FOUND, e))"

subsection \<open>The invariant\<close>

text \<open>
  The active peers are the addresses of the connections, no address is connected twice, there
  are at most \<open>limit\<close> connections, and no candidate is an active peer.
\<close>

definition peers_ok :: "nat \<Rightarrow> 'stub Connection list \<Rightarrow> string set \<Rightarrow> OrderedSet \<Rightarrow> bool" where
  "peers_ok limit cs active candidates \<longleftrightarrow>
     distinct (map url cs) \<and> url ` set cs = active \<and> length cs \<le> limit \<and> os_inv candidates \<and>
     set (os_iterators candidates) \<inter> active = {}"

definition pool_inv :: "'stub pool \<Rightarrow> bool" where
  "pool_inv p \<longleftrightarrow> peers_ok (active_connections_limit p) (connections p) (active_peers p) (peer_candidates p) \<and>
     last_explore p = 0"

lemma list_insert_key: "list_insert (\<lambda>a b. f a < f b) x ys = insort_key f x ys" for f :: "'a \<Rightarrow> nat"
  by (induction ys) auto

lemma list_sort_key: "list_sort (\<lambda>a b. f a < f b) xs = sort_key f xs" for f :: "'a \<Rightarrow> nat"
  by (induction xs) (simp_all add: list_insert_key)

text \<open>The connections come in the order of the number of their chunks, as with the library's sort.\<close>

lemma sort_connections_key: "sort_connections = sort_key (\<lambda>c. Chunk_Availability.count (availability c))"
  by (simp add: fun_eq_iff sort_connections_def connection_less_def [abs_def] availability_less_def list_sort_key)

lemma sort_connections_simps [simp]:
  "set (sort_connections cs) = set cs" "length (sort_connections cs) = length cs"
  "distinct (map url (sort_connections cs)) \<longleftrightarrow> distinct (map url cs)"
  "sort_connections cs = [] \<longleftrightarrow> cs = []"
proof -
  show *: "set (sort_connections cs) = set cs" "length (sort_connections cs) = length cs"
    by (simp_all add: sort_connections_key)
  show "distinct (map url (sort_connections cs)) \<longleftrightarrow> distinct (map url cs)"
    unfolding distinct_map by (simp add: sort_connections_key)
  show "sort_connections cs = [] \<longleftrightarrow> cs = []" using *(2) by (metis length_0_conv)
qed

lemma peers_ok_sort [simp]:
  "peers_ok limit (sort_connections cs) active candidates \<longleftrightarrow> peers_ok limit cs active candidates"
  by (simp add: peers_ok_def)

lemma set_fifo_push: "set (fifo_push m x xs) \<subseteq> insert x (set xs)"
  by (auto simp: fifo_push_def simp del: drop_append dest: in_set_dropD)

lemma push_strangers_ok:
  assumes "os_inv candidates" and "set (os_iterators candidates) \<inter> active = {}"
  shows "\<exists>candidates'. push_strangers active ps candidates = Some candidates' \<and> os_inv candidates' \<and>
    set (os_iterators candidates') \<inter> active = {}"
  using assms
proof (induction ps arbitrary: candidates)
  case Nil
  then show ?case by simp
next
  case (Cons q ps)
  show ?case
  proof (cases "q \<in> active")
    case True
    then show ?thesis using Cons by simp
  next
    case False
    obtain c' where c: "os_push q candidates = Some (q \<notin> set (os_iterators candidates), c')" "os_inv c'"
        "os_iterators c' = fifo_push (os_max_size candidates) q (os_iterators candidates)"
      using os_push_fifo [OF Cons.prems(1), of q] by blast
    have "set (os_iterators c') \<inter> active = {}"
      using set_fifo_push [of "os_max_size candidates" q "os_iterators candidates"] False Cons.prems(2) unfolding c(3) by blast
    from Cons.IH [OF c(2) this] show ?thesis using False c(1) by simp
  qed
qed

lemma refresh_info_peers:
  assumes "refresh_info net now request cs active e = (cs', active', e')" and "distinct (map url cs)"
  shows "url ` set cs' \<subseteq> url ` set cs \<and> distinct (map url cs') \<and> length cs' \<le> length cs \<and>
    active' = active - (url ` set cs - url ` set cs')"
  using assms
proof (induction cs arbitrary: active e cs' active' e')
  case Nil
  then show ?case by simp
next
  case (Cons c cs)
  have d: "distinct (map url cs)" "url c \<notin> url ` set cs" using Cons.prems(2) by auto
  show ?case
  proof (cases "now - last_info c > INFO_REFRESH_S \<and> fst (call_info net (stub c) request e) = None")
    case True
    then obtain e1 where "refresh_info net now request cs (active - {url c}) e1 = (cs', active', e')"
      using Cons.prems(1) by (cases "call_info net (stub c) request e") auto
    from Cons.IH [OF this d(1)] have ih: "url ` set cs' \<subseteq> url ` set cs" "distinct (map url cs')" "length cs' \<le> length cs"
        "active' = active - {url c} - (url ` set cs - url ` set cs')" by auto
    have "active' = active - (url ` set (c # cs) - url ` set cs')" using ih(1) d(2) unfolding ih(4) list.set image_insert by blast
    then show ?thesis using ih(1-3) by (simp add: subset_insertI2)
  next
    case False
    then obtain c' cs1 e1 where r: "refresh_info net now request cs active e1 = (cs1, active', e')" "cs' = c' # cs1"
        "url c' = url c"
      using Cons.prems(1)
      by (cases "call_info net (stub c) request e") (auto split: if_splits option.splits prod.splits)
    from Cons.IH [OF r(1) d(1)] show ?thesis using d(2) r(2,3) by auto
  qed
qed

lemma refresh_info_ok:
  assumes "refresh_info net now request cs active e = (cs', active', e')" and "peers_ok limit cs active candidates"
  shows "peers_ok limit cs' active' candidates"
  using refresh_info_peers [OF assms(1)] assms(2) unfolding peers_ok_def by auto

lemma peers_ok_drop:
  assumes "peers_ok limit (kept @ c # cs) active candidates"
  shows "peers_ok limit (kept @ cs) (active - {url c}) candidates"
proof -
  have p: "distinct (map url (kept @ c # cs))" "url ` set (kept @ c # cs) = active" "length (kept @ c # cs) \<le> limit"
      "os_inv candidates" "set (os_iterators candidates) \<inter> active = {}"
    using assms unfolding peers_ok_def by blast+
  have "url c \<notin> url ` set (kept @ cs)" using p(1) by auto
  then have "active - {url c} = url ` set (kept @ cs)" unfolding p(2) [symmetric] by (simp add: image_Un Un_Diff insert_Diff_if)
  moreover have "set (os_iterators candidates) \<inter> (active - {url c}) = {}" using p(5) by blast
  ultimately show ?thesis using p(1,3,4) unfolding peers_ok_def by simp
qed

lemma exchange_peers_ok:
  assumes "peers_ok limit (kept @ cs) active candidates"
  shows "\<exists>cs' active' candidates' e'. exchange_peers net now nid kept cs active candidates e =
      Some (cs', active', candidates', e') \<and> peers_ok limit cs' active' candidates'"
  using assms
proof (induction cs arbitrary: kept active candidates e)
  case Nil
  then show ?case by simp
next
  case (Cons c cs)
  let ?req = "\<lparr>pl_node_id = nid, pl_peer = map url (filter (\<lambda>d. n_id d \<noteq> n_id c) (kept @ c # cs))\<rparr>"
  show ?case
  proof (cases "now - last_pex c > PEX_REFRESH_S")
    case False
    have "peers_ok limit ((kept @ [c]) @ cs) active candidates" using Cons.prems by simp
    from Cons.IH [OF this] show ?thesis using False by simp
  next
    case True
    obtain r e1 where call: "call_peers net (stub c) ?req e = (r, e1)" by fastforce
    show ?thesis
    proof (cases r)
      case None
      have "peers_ok limit (kept @ cs) (active - {url c}) candidates"
        using Cons.prems by (rule peers_ok_drop)
      from Cons.IH [OF this] show ?thesis using True call None by simp
    next
      case (Some response)
      have "os_inv candidates" "set (os_iterators candidates) \<inter> active = {}"
        using Cons.prems by (simp_all add: peers_ok_def)
      from push_strangers_ok [OF this] obtain candidates' where
        push: "push_strangers active (pl_peer response) candidates = Some candidates'"
          "os_inv candidates'" "set (os_iterators candidates') \<inter> active = {}" by blast
      obtain t e2 where t: "clock net e1 = (t, e2)" by fastforce
      have "peers_ok limit ((kept @ [c\<lparr>last_pex := t\<rparr>]) @ cs) active candidates'"
        using Cons.prems push(2,3) by (simp add: peers_ok_def)
      from Cons.IH [OF this] show ?thesis using True call Some push(1) t by simp
    qed
  qed
qed

text \<open>Taking a candidate, and connecting to it.\<close>

lemma pop_candidate:
  assumes "peers_ok limit cs active candidates" and "os_size candidates > 0"
  obtains u candidates' where "os_pop candidates = Some (u, candidates')"
    and "peers_ok limit cs active candidates'" and "u \<notin> active" and "u \<notin> set (os_iterators candidates')"
proof -
  have inv: "os_inv candidates" "set (os_iterators candidates) \<inter> active = {}"
    using assms(1) unfolding peers_ok_def by blast+
  have "os_iterators candidates \<noteq> []"
    using assms(2) inv(1) by (auto simp: os_size_def os_inv_def wrap_def)
  then obtain u q where q: "os_iterators candidates = u # q" by (cases "os_iterators candidates") auto
  let ?c = "candidates\<lparr>os_iterators := q, os_data := set q\<rparr>"
  have pop: "os_pop candidates = Some (u, ?c)" using os_pop_inv(1) [OF inv(1)] by (simp add: q)
  have "os_inv ?c" by (rule os_pop_inv(2) [OF inv(1) pop])
  moreover have "u \<notin> set q" using inv(1) q by (simp add: os_inv_def)
  ultimately show thesis
    using that [OF pop] assms(1) q by (simp add: peers_ok_def)
qed

lemma peers_ok_add:
  assumes "peers_ok limit cs active candidates" and "url c \<notin> active" and "url c \<notin> set (os_iterators candidates)"
    and "length cs < limit"
  shows "peers_ok limit (cs @ [c]) (insert (url c) active) candidates"
  using assms by (auto simp: peers_ok_def)

lemma peers_ok_replace:
  assumes "peers_ok limit (first # rest) active candidates" and "url c \<notin> active"
    and "url c \<notin> set (os_iterators candidates)"
  shows "peers_ok limit (rest @ [c]) (insert (url c) (active - {url first})) candidates"
proof (rule peers_ok_add)
  show "peers_ok limit rest (active - {url first}) candidates"
    using peers_ok_drop [of limit "[]"] assms(1) by simp
qed (use assms in \<open>auto simp: peers_ok_def\<close>)

lemma url_peer_connection [simp]: "url (peer_connection st u response t) = u"
  by (simp add: peer_connection_def new_connection_def)

lemma attempt_undefined: "attempt net avail p u e = None \<Longrightarrow> bitmask (ChunkAvailability avail) = None"
  by (auto simp: attempt_def info_request_def Let_def split: option.splits prod.splits Option.bind_splits)

lemma expand_loop_ok:
  assumes "pool_inv p"
  shows "case expand_loop net avail k p e of
      None \<Rightarrow> bitmask (ChunkAvailability avail) = None
    | Some (p', e') \<Rightarrow> pool_inv p'"
  using assms
proof (induction k arbitrary: p e)
  case 0
  then show ?case by simp
next
  case (Suc k)
  show ?case
  proof (cases "card (active_peers p) < active_connections_limit p \<and> os_size (peer_candidates p) > 0")
    case False
    show ?thesis unfolding expand_loop.simps if_not_P [OF False] using Suc.prems by simp
  next
    case True
    have inv: "peers_ok (active_connections_limit p) (connections p) (active_peers p) (peer_candidates p)"
      "last_explore p = 0" using Suc.prems by (simp_all add: pool_inv_def)
    obtain u q where pop: "os_pop (peer_candidates p) = Some (u, q)"
      and ok: "peers_ok (active_connections_limit p) (connections p) (active_peers p) q"
      and u: "u \<notin> active_peers p" "u \<notin> set (os_iterators q)"
      using pop_candidate [OF inv(1)] True by blast
    let ?p = "p\<lparr>peer_candidates := q\<rparr>"
    have p1: "pool_inv ?p" using ok inv(2) by (simp add: pool_inv_def)
    show ?thesis
    proof (cases "attempt net avail ?p u e")
      case None
      then show ?thesis using True pop attempt_undefined [OF None] by simp
    next
      case (Some x)
      then obtain r e1 where a: "attempt net avail ?p u e = Some (r, e1)" by (cases x) simp
      show ?thesis
      proof (cases r)
        case None
        from Suc.IH [OF p1] show ?thesis using True pop a None by simp
      next
        case (Some x)
        obtain st response where x: "x = (st, response)" by fastforce
        obtain t e2 where t: "clock net e1 = (t, e2)" by fastforce
        let ?c = "peer_connection st u response t"
        let ?p' = "?p\<lparr>connections := sort_connections (connections ?p @ [?c]), active_peers := insert u (active_peers ?p)\<rparr>"
        have "length (connections p) < active_connections_limit p"
          using True inv(1) distinct_card [of "map url (connections p)"] by (auto simp: peers_ok_def)
        then have "pool_inv ?p'"
          using peers_ok_add [OF ok, of ?c] u inv(2) by (simp add: pool_inv_def)
        from Suc.IH [OF this] show ?thesis using True pop a Some x t by simp
      qed
    qed
  qed
qed

lemma explore_loop_ok:
  assumes "pool_inv p"
  shows "case explore_loop net avail m k p e of
      None \<Rightarrow> bitmask (ChunkAvailability avail) = None \<or> connections p = []
    | Some (p', e') \<Rightarrow> pool_inv p'"
  using assms
proof (induction k arbitrary: p e)
  case 0
  then show ?case by simp
next
  case (Suc k)
  show ?case
  proof (cases "os_size (peer_candidates p) > 0")
    case False
    show ?thesis unfolding explore_loop.simps if_not_P [OF False] using Suc.prems by simp
  next
    case True
    have inv: "peers_ok (active_connections_limit p) (connections p) (active_peers p) (peer_candidates p)"
      "last_explore p = 0" using Suc.prems by (simp_all add: pool_inv_def)
    obtain u q where pop: "os_pop (peer_candidates p) = Some (u, q)"
      and ok: "peers_ok (active_connections_limit p) (connections p) (active_peers p) q"
      and u: "u \<notin> active_peers p" "u \<notin> set (os_iterators q)"
      using pop_candidate [OF inv(1) True] by blast
    let ?p = "p\<lparr>peer_candidates := q\<rparr>"
    have p1: "pool_inv ?p" using ok inv(2) by (simp add: pool_inv_def)
    show ?thesis
    proof (cases "attempt net avail ?p u e")
      case None
      then show ?thesis using True pop attempt_undefined [OF None] by simp
    next
      case (Some x)
      then obtain r e1 where a: "attempt net avail ?p u e = Some (r, e1)" by (cases x) simp
      show ?thesis
      proof (cases "r = None \<or> (\<exists>st response. r = Some (st, response) \<and>
          Chunk_Availability.count (availability_of_bitmask (i_available response)) \<le> m)")
        case skip: True
        then have step: "explore_loop net avail m (Suc k) p e = explore_loop net avail m k ?p e1"
          using True pop a by auto
        show ?thesis unfolding step using Suc.IH [OF p1, of e1] by (auto split: option.splits)
      next
        case False
        then obtain st response where x: "r = Some (st, response)"
            "\<not> Chunk_Availability.count (availability_of_bitmask (i_available response)) \<le> m" by auto
        obtain t e2 where t: "clock net e1 = (t, e2)" by fastforce
        show ?thesis
        proof (cases "connections p")
          case Nil
          then show ?thesis using True pop a x t by simp
        next
          case (Cons first rest)
          let ?c = "peer_connection st u response t"
          let ?p' = "?p\<lparr>connections := sort_connections (rest @ [?c]), active_peers := insert u (active_peers ?p - {url first})\<rparr>"
          have "peers_ok (active_connections_limit p) (rest @ [?c]) (insert u (active_peers p - {url first})) q"
            using peers_ok_replace [of _ first rest _ q ?c] ok Cons u by simp
          then have "pool_inv ?p'" using inv(2) by (simp add: pool_inv_def)
          moreover have "connections ?p' \<noteq> []" by simp
          ultimately show ?thesis using Suc.IH [of ?p' e2] True pop a x t Cons by (auto split: option.splits)
        qed
      qed
    qed
  qed
qed

lemma update_info_peers:
  "update_info net nid a cs e = (changed, cs', e') \<Longrightarrow> map url cs' = map url cs"
  by (induction cs arbitrary: cs' changed e') (auto split: if_splits prod.splits)

lemma note_pex_peers: "note_pex net nid cs e = (cs', out, e') \<Longrightarrow> map url cs' = map url cs"
  by (induction cs arbitrary: cs' out e e') (auto split: if_splits prod.splits)

lemma peers_ok_same_urls:
  assumes "peers_ok limit cs active candidates" and "map url cs' = map url cs"
  shows "peers_ok limit cs' active candidates"
proof -
  have "length cs' = length cs" "url ` set cs' = url ` set cs"
    using arg_cong [OF assms(2), of length] arg_cong [OF assms(2), of set] by simp_all
  then show ?thesis using assms by (simp add: peers_ok_def)
qed

subsection \<open>Operations and reachable pools\<close>

lemma worker_get_info_inv:
  assumes "worker_get_info net avail p e = Some (p', e')" and "pool_inv p"
  shows "pool_inv p'"
proof -
  obtain now e1 where t: "clock net e = (now, e1)" by fastforce
  obtain request where r: "info_request avail p = Some request"
    using assms(1) t by (cases "info_request avail p") (auto simp: worker_get_info_def)
  obtain cs active e2 where l: "refresh_info net now request (connections p) (active_peers p) e1 = (cs, active, e2)"
    by (cases "refresh_info net now request (connections p) (active_peers p) e1") auto
  have "p' = p\<lparr>connections := sort_connections cs, active_peers := active\<rparr>"
    using assms(1) t r l by (simp add: worker_get_info_def)
  then show ?thesis using refresh_info_ok [OF l] assms(2) by (simp add: pool_inv_def)
qed

lemma worker_get_pex_ok:
  assumes "pool_inv p"
  shows "\<exists>p' e'. worker_get_pex net p e = Some (p', e') \<and> pool_inv p'"
proof -
  obtain now e1 where t: "clock net e = (now, e1)" by fastforce
  have "peers_ok (active_connections_limit p) ([] @ connections p) (active_peers p) (peer_candidates p)"
    using assms by (simp add: pool_inv_def)
  from exchange_peers_ok [OF this, of net now "node_id p" e1] obtain cs active q e2 where
    l: "exchange_peers net now (node_id p) [] (connections p) (active_peers p) (peer_candidates p) e1 = Some (cs, active, q, e2)"
    and ok: "peers_ok (active_connections_limit p) cs active q" by blast
  then show ?thesis using t assms by (simp add: worker_get_pex_def pool_inv_def)
qed

lemma worker_expand_inv:
  "worker_expand net avail p e = Some (p', e') \<Longrightarrow> pool_inv p \<Longrightarrow> pool_inv p'"
  using expand_loop_ok [of p avail net 5 e] by (simp add: worker_expand_def)

lemma worker_explore_inv:
  assumes "worker_explore net avail p e = Some (p', e')" and "pool_inv p"
  shows "pool_inv p'"
  using explore_loop_ok [OF assms(2), of avail net _ 10] assms
  by (fastforce simp: worker_explore_def split: prod.splits if_splits option.splits)

lemma info_from_ok:
  assumes "pool_inv p"
  shows "\<exists>p' e'. info_from net peer nid a p e = Some (p', e') \<and> pool_inv p'"
proof -
  have inv: "peers_ok (active_connections_limit p) (connections p) (active_peers p) (peer_candidates p)" "last_explore p = 0"
    using assms by (simp_all add: pool_inv_def)
  then have "os_inv (peer_candidates p)" "set (os_iterators (peer_candidates p)) \<inter> active_peers p = {}"
    by (simp_all add: peers_ok_def)
  from push_strangers_ok [OF this, of "[peer]"] obtain q where
    q: "push_strangers (active_peers p) [peer] (peer_candidates p) = Some q" "os_inv q"
      "set (os_iterators q) \<inter> active_peers p = {}" by blast
  obtain changed cs e1 where u: "update_info net nid a (connections p) e = (changed, cs, e1)"
    by (cases "update_info net nid a (connections p) e") auto
  have "peers_ok (active_connections_limit p) (connections p) (active_peers p) q"
    using inv(1) q(2,3) by (simp add: peers_ok_def)
  from peers_ok_same_urls [OF this update_info_peers [OF u]] show ?thesis
    using q(1) u inv(2) by (simp add: info_from_def pool_inv_def del: push_strangers.simps)
qed

lemma pex_from_ok:
  assumes "pool_inv p"
  shows "\<exists>out p' e'. pex_from net nid incoming p e = Some (out, p', e') \<and> pool_inv p'"
proof -
  have inv: "peers_ok (active_connections_limit p) (connections p) (active_peers p) (peer_candidates p)" "last_explore p = 0"
    using assms by (simp_all add: pool_inv_def)
  then have "os_inv (peer_candidates p)" "set (os_iterators (peer_candidates p)) \<inter> active_peers p = {}"
    by (simp_all add: peers_ok_def)
  from push_strangers_ok [OF this, of incoming] obtain q where
    q: "push_strangers (active_peers p) incoming (peer_candidates p) = Some q" "os_inv q"
      "set (os_iterators q) \<inter> active_peers p = {}" by blast
  obtain cs out e1 where u: "note_pex net nid (connections p) e = (cs, out, e1)"
    by (cases "note_pex net nid (connections p) e") auto
  have "peers_ok (active_connections_limit p) (connections p) (active_peers p) q"
    using inv(1) q(2,3) by (simp add: peers_ok_def)
  from peers_ok_same_urls [OF this note_pex_peers [OF u]] show ?thesis
    using q(1) u inv(2) by (simp add: pex_from_def pool_inv_def)
qed

text \<open>
  The steps of a pool: the four parts of the worker and the two calls from the service, in any
  order, while the store and the outside change as they like.
\<close>

inductive pool_step :: "('stub, 'e) net \<Rightarrow> 'stub pool \<times> 'e \<Rightarrow> 'stub pool \<times> 'e \<Rightarrow> bool" for net where
  get_info: "worker_get_info net avail p e = Some (p', e') \<Longrightarrow> pool_step net (p, e) (p', e')"
| get_pex: "worker_get_pex net p e = Some (p', e') \<Longrightarrow> pool_step net (p, e) (p', e')"
| expand: "worker_expand net avail p e = Some (p', e') \<Longrightarrow> pool_step net (p, e) (p', e')"
| explore: "worker_explore net avail p e = Some (p', e') \<Longrightarrow> pool_step net (p, e) (p', e')"
| info: "info_from net peer nid a p e = Some (p', e') \<Longrightarrow> pool_step net (p, e) (p', e')"
| pex: "pex_from net nid incoming p e = Some (out, p', e') \<Longrightarrow> pool_step net (p, e) (p', e')"
| outside: "pool_step net (p, e) (p, e')"

inductive_cases pool_stepE: "pool_step net (p, e) (p', e')"

lemma pool_step_inv:
  assumes "pool_step net x y" and "pool_inv (fst x)"
  shows "pool_inv (fst y)"
  using assms
proof (induction rule: pool_step.induct)
  case (get_info avail p e p' e')
  then show ?case using worker_get_info_inv by simp
next
  case (get_pex p e p' e')
  then show ?case using worker_get_pex_ok [of p net e] by auto
next
  case (expand avail p e p' e')
  then show ?case using worker_expand_inv by simp
next
  case (explore avail p e p' e')
  then show ?case using worker_explore_inv by simp
next
  case (info peer nid a p e p' e')
  then show ?case using info_from_ok [of p net peer nid a e] by auto
next
  case (pex nid incoming p e out p' e')
  then show ?case using pex_from_ok [of p net nid incoming e] by auto
qed simp

lemma pool_new_inv:
  assumes "0 < limit"
  shows "pool_inv (fst (pool_new net md bootstrap limit candidates_limit port e))"
  using assms
  by (auto simp: pool_new_def pool_inv_def peers_ok_def new_connection_def os_new_def os_inv_def
      split: prod.splits option.splits)

subsection \<open>Properties\<close>

text \<open>
  C19: However the worker and the calls of other nodes interleave and whatever other nodes
  answer, the set of active peers holds exactly the addresses of the connections, no address is
  connected twice, the number of connections stays within the limit, and no candidate is
  connected already. (\<^verbatim>\<open>last_explore\<close> keeps its first value 0 forever, so that its 15 second
  limit never applies.)
\<close>

theorem pool_invariant:
  assumes "(pool_step net)\<^sup>*\<^sup>* (pool_new net md bootstrap limit candidates_limit port e) (p, e')" and "0 < limit"
  shows "active_peers p = url ` set (connections p) \<and> distinct (map url (connections p)) \<and>
    length (connections p) \<le> active_connections_limit p \<and>
    set (os_iterators (peer_candidates p)) \<inter> active_peers p = {} \<and> last_explore p = 0"
proof -
  have "pool_inv (fst (p, e'))"
    using assms(1) pool_new_inv [OF assms(2), of net md bootstrap candidates_limit port e]
    by (induction rule: rtranclp_induct) (auto dest: pool_step_inv)
  then show ?thesis by (auto simp: pool_inv_def peers_ok_def)
qed

text \<open>A network in which every node answers with chunk 1 of volume 5.\<close>

definition example_net :: "(string, nat) net" where
  "example_net =
     \<lparr>call_chunk = \<lambda>st i e. ([], False, e),
      call_info = \<lambda>st r e. (Some \<lparr>i_fs_id = 5, i_node_id = 9, i_listen_port = 1, i_available = [CHR 0x02]\<rparr>, e),
      call_peers = \<lambda>st r e. (Some \<lparr>pl_node_id = 9, pl_peer = [''c:1'', ''b:1'']\<rparr>, e),
      connect = \<lambda>u e. (Some u, e),
      clock = \<lambda>e. (int e, e + 1),
      draw = \<lambda>n e. (e mod n, e + 1)\<rparr>"

definition example_md :: DistfsMetadata where
  "example_md = \<lparr>md_peer = ''b:1'', md_id = 5, md_node_id = 7, md_hashes = []\<rparr>"

theorem pool_invariant_witness:
  "\<exists>p e. (pool_step example_net)\<^sup>*\<^sup>* (pool_new example_net example_md (Some ''b:1'') 2 3 1 100) (p, e) \<and>
     map url (connections p) = [''b:1''] \<and> os_iterators (peer_candidates p) = [''c:1''] \<and>
     active_peers p = {''b:1''} \<and> length (connections p) \<le> 2"
proof -
  obtain p e where p: "pool_new example_net example_md (Some ''b:1'') 2 3 1 100 = (p, e)"
    "connections p = [new_connection ''b:1'' ''b:1'' 7]" "peer_candidates p = os_new 3" "active_connections_limit p = 2"
    "active_peers p = {''b:1''}" "e = 101"
    by (simp add: pool_new_def example_net_def example_md_def)
  have "\<exists>p' e'. worker_get_pex example_net p e = Some (p', e') \<and> map url (connections p') = [''b:1''] \<and>
      os_iterators (peer_candidates p') = [''c:1''] \<and> active_connections_limit p' = 2"
    using p by (simp add: worker_get_pex_def example_net_def new_connection_def PEX_REFRESH_S_def
        os_push_def os_new_def os_trim.simps sort_connections_def)
  then obtain p' e' where q: "worker_get_pex example_net p e = Some (p', e')" "map url (connections p') = [''b:1'']"
    "os_iterators (peer_candidates p') = [''c:1'']" "active_connections_limit p' = 2"
    by (elim exE conjE) (rule that)
  have "pool_step example_net (p, e) (p', e')" by (rule pool_step.get_pex [OF q(1)])
  then have r: "(pool_step example_net)\<^sup>*\<^sup>* (pool_new example_net example_md (Some ''b:1'') 2 3 1 100) (p', e')"
    unfolding p(1) by (rule r_into_rtranclp)
  show ?thesis
    using pool_invariant [OF r] r q(2-4) by auto
qed

text \<open>
  While the pool has no connection, a reachable candidate of the volume that has chunks
  makes \<^verbatim>\<open>worker_explore\<close> use \<^verbatim>\<open>begin()\<close> of the empty list, which is undefined.
\<close>

theorem explore_without_connections_undefined:
  assumes "pool_inv p" and "connections p = []" and "clock net e = (now, e1)" and "15 < now"
    and "os_iterators (peer_candidates p) = u # q" and "length q < 2 ^ 32 - 1"
    and "connect net u e1 = (Some st, e2)"
    and "info_request avail p = Some request" and "call_info net st request e2 = (Some response, e3)"
    and "i_fs_id response = md_id (metadata p)"
    and "0 < Chunk_Availability.count (availability_of_bitmask (i_available response))"
  shows "worker_explore net avail p e = None"
proof -
  have inv: "os_inv (peer_candidates p)" "last_explore p = 0" using assms(1) by (simp_all add: pool_inv_def peers_ok_def)
  then have "card (os_data (peer_candidates p)) = Suc (length q)"
    using assms(5) distinct_card [of "u # q"] by (simp add: os_inv_def)
  then have "os_size (peer_candidates p) > 0"
    using assms(6) wrap_of_nat [of "Suc (length q)" 32] by (simp add: os_size_def)
  moreover obtain c where "os_pop (peer_candidates p) = Some (u, c)" using os_pop_inv(1) [OF inv(1)] assms(5) by simp
  moreover obtain t e4 where "clock net e3 = (t, e4)" by fastforce
  moreover have "info_request avail (p\<lparr>peer_candidates := c\<rparr>) = Some request" for c
    using assms(8) by (simp add: info_request_def)
  ultimately have "explore_loop net avail 0 (Suc k) p e1 = None" for k
    using assms(2,7,9-11) by (simp add: attempt_def)
  from this [of 9] show ?thesis using assms(2-4) inv(2) by (simp add: worker_explore_def)
qed

theorem explore_without_connections_undefined_witness:
  "worker_explore example_net {1} (\<lparr>active_connections_limit = 2,
     peer_candidates = \<lparr>os_data = {''c:1''}, os_iterators = [''c:1''], os_max_size = 3\<rparr>, active_peers = {},
     metadata = example_md, connections = [], last_explore = 0, node_id = 3, listen_port = 1\<rparr>) 100 = None"
proof -
  have "info_request {1} (\<lparr>active_connections_limit = 2,
     peer_candidates = \<lparr>os_data = {''c:1''}, os_iterators = [''c:1''], os_max_size = 3\<rparr>, active_peers = {},
     metadata = example_md, connections = [] :: string Connection list, last_explore = 0, node_id = 3, listen_port = 1\<rparr>) =
     Some \<lparr>i_fs_id = 5, i_node_id = 3, i_listen_port = 1, i_available = [CHR 0x02]\<rparr>"
    by code_simp
  moreover have "Chunk_Availability.count (availability_of_bitmask [CHR 0x02]) = 1"
    by code_simp
  ultimately show ?thesis
    by (intro explore_without_connections_undefined)
      (auto simp: example_net_def pool_inv_def peers_ok_def os_inv_def example_md_def)
qed

end
