(* ===== verification/Chunk_Transfer.thy ===== *)
theory Chunk_Transfer
  imports Connection_Pool
begin

text \<open>
  The transfer of a chunk between two nodes: \<^verbatim>\<open>DistfsService::GetChunk\<close>
  (network/distfs_service.cc) sends it in parts, \<^verbatim>\<open>ConnectionPool::fetch_chunk\<close>
  (network/connection_pool.cc) collects, checks and stores it.
\<close>

subsection \<open>The sender\<close>

datatype Status = StOK | StNotFound | StInternal | StCancelled | StUnavailable

text \<open>
  \<open>write\<close> is \<^verbatim>\<open>writer->Write\<close>, which answers \<open>False\<close> when the stream is closed. The new offset
  is at most \<open>size\<close>, so that it does not wrap.
\<close>

function send_parts ::
    "('w \<Rightarrow> bytes \<Rightarrow> bool \<times> 'w) \<Rightarrow> bytes \<Rightarrow> nat \<Rightarrow> nat \<Rightarrow> 'w \<Rightarrow> (Status \<times> 'w) option" where
  "send_parts write buff offset sz w =
     (if offset < sz then
        case slice buff offset (min WIRE_CHUNK_SIZE_BYTES (sz - offset)) of
          None \<Rightarrow> None
        | Some d \<Rightarrow>
            (case write w d of (ok, w') \<Rightarrow>
               if \<not> ok then Some (StCancelled, w')
               else send_parts write buff (offset + min WIRE_CHUNK_SIZE_BYTES (sz - offset)) sz w')
      else Some (StOK, w))"
  by pat_completeness auto
termination
  by (relation "measure (\<lambda>(write, buff, offset, sz, w). sz - offset)") (auto simp: WIRE_CHUNK_SIZE_BYTES_def)

declare send_parts.simps [simp del]

text \<open>\<open>rd\<close> is \<^verbatim>\<open>store.read_chunk\<close>, \<open>junk\<close> what the uninitialised \<open>size\<close> holds.\<close>

definition GetChunk ::
    "(nat \<Rightarrow> bytes \<Rightarrow> nat \<Rightarrow> 's \<Rightarrow> (ErrorCode \<times> bytes \<times> nat \<times> 's) option) \<Rightarrow> ('w \<Rightarrow> bytes \<Rightarrow> bool \<times> 'w) \<Rightarrow>
     nat \<Rightarrow> nat \<Rightarrow> 'w \<Rightarrow> 's \<Rightarrow> (Status \<times> 'w \<times> 's) option" where
  "GetChunk rd write junk i w st = do {
     (err, buff, sz, st') \<leftarrow> rd i new_buffer junk st;
     if err = NOT_FOUND then Some (StNotFound, w, st')
     else if err \<noteq> OK then Some (StInternal, w, st')
     else do {
       (status, w') \<leftarrow> send_parts write buff 0 sz w;
       Some (status, w', st')
     }
   }"

subsection \<open>The receiver\<close>

text \<open>The loop over \<^verbatim>\<open>reader->Read\<close>: every part is copied behind the ones before.\<close>

fun receive :: "bytes \<Rightarrow> nat \<Rightarrow> bytes list \<Rightarrow> (bytes \<times> nat) option" where
  "receive buff offset [] = Some (buff, offset)"
| "receive buff offset (part # parts) = do {
     buff' \<leftarrow> blit buff offset part;
     receive buff' (wrap 32 (int offset + int (length part))) parts
   }"

text \<open>
  The loop may run forever, which is the value \<open>None\<close> like undefined behaviour. The index into
  the hashes is not checked by the code. The result of \<open>write_chunk\<close> is ignored.
\<close>

partial_function (option) fetch_loop ::
    "('stub, 'e) net \<Rightarrow> (bytes \<Rightarrow> bytes) \<Rightarrow> (nat \<Rightarrow> bytes \<Rightarrow> nat \<Rightarrow> 's \<Rightarrow> (ErrorCode \<times> 's) option) \<Rightarrow>
     'stub pool \<Rightarrow> nat \<Rightarrow> bytes \<Rightarrow> 's \<Rightarrow> 'e \<Rightarrow> (ErrorCode \<times> 's \<times> 'e) option" where
  "fetch_loop net sha wr p i buff s e =
     (case connection_for_block net i p e of
        None \<Rightarrow> None
      | Some (None, code, e1) \<Rightarrow> Some (code, s, e1)
      | Some (Some st, code, e1) \<Rightarrow>
          (case call_chunk net st i e1 of (parts, ok, e2) \<Rightarrow>
             (case receive buff 0 parts of
                None \<Rightarrow> None
              | Some (buff', offset) \<Rightarrow>
                  if ok then
                    (case checksum sha buff' offset of
                       None \<Rightarrow> None
                     | Some h \<Rightarrow>
                         if length (md_hashes (metadata p)) \<le> i then None
                         else if h \<noteq> md_hashes (metadata p) ! i then fetch_loop net sha wr p i buff' s e2
                         else (case wr i buff' offset s of None \<Rightarrow> None | Some (err, s') \<Rightarrow> Some (OK, s', e2)))
                  else fetch_loop net sha wr p i buff' s e2)))"

definition fetch_chunk ::
    "('stub, 'e) net \<Rightarrow> (bytes \<Rightarrow> bytes) \<Rightarrow> (nat \<Rightarrow> bytes \<Rightarrow> nat \<Rightarrow> 's \<Rightarrow> (ErrorCode \<times> 's) option) \<Rightarrow>
     'stub pool \<Rightarrow> nat \<Rightarrow> 's \<Rightarrow> 'e \<Rightarrow> (ErrorCode \<times> 's \<times> 'e) option" where
  "fetch_chunk net sha wr p i s e = fetch_loop net sha wr p i new_buffer s e"

subsection \<open>What is sent is received\<close>

text \<open>A writer that keeps the parts.\<close>

definition keep_part :: "bytes list \<Rightarrow> bytes \<Rightarrow> bool \<times> bytes list" where
  "keep_part ps d = (True, ps @ [d])"

lemma send_parts_ok:
  assumes "offset \<le> sz" and "sz \<le> length buff"
  shows "\<exists>ps. send_parts keep_part buff offset sz w = Some (StOK, w @ ps) \<and>
    concat ps = take (sz - offset) (drop offset buff) \<and> (\<forall>d \<in> set ps. 0 < length d \<and> length d \<le> WIRE_CHUNK_SIZE_BYTES)"
  using assms(1)
proof (induction "sz - offset" arbitrary: offset w rule: less_induct)
  case less
  show ?case
  proof (cases "offset < sz")
    case False
    then show ?thesis by (simp add: send_parts.simps [of keep_part buff offset])
  next
    case True
    define n where "n = min WIRE_CHUNK_SIZE_BYTES (sz - offset)"
    have n: "0 < n" "n \<le> sz - offset" "n \<le> WIRE_CHUNK_SIZE_BYTES" using True by (simp_all add: n_def WIRE_CHUNK_SIZE_BYTES_def)
    let ?d = "take n (drop offset buff)"
    have sl: "slice buff offset n = Some ?d" using n(2) assms(2) True by (simp add: slice_Some)
    have step: "send_parts keep_part buff offset sz w = send_parts keep_part buff (offset + n) sz (w @ [?d])"
      unfolding send_parts.simps [of keep_part buff offset] n_def [symmetric] using True sl by (simp add: keep_part_def)
    have "sz - (offset + n) < sz - offset" "offset + n \<le> sz" using n(1,2) True by simp_all
    from less.hyps [OF this, of "w @ [?d]"] obtain ps where
      ps: "send_parts keep_part buff (offset + n) sz (w @ [?d]) = Some (StOK, (w @ [?d]) @ ps)"
        "concat ps = take (sz - (offset + n)) (drop (offset + n) buff)"
        "\<forall>d \<in> set ps. 0 < length d \<and> length d \<le> WIRE_CHUNK_SIZE_BYTES"
      by blast
    have "?d @ concat ps = take (sz - offset) (drop offset buff)"
    proof -
      have "n + (sz - (offset + n)) = sz - offset" using n(2) True by simp
      then show ?thesis using take_add [of n "sz - (offset + n)" "drop offset buff"] unfolding ps(2) by (simp add: add.commute)
    qed
    moreover have "0 < length ?d \<and> length ?d \<le> WIRE_CHUNK_SIZE_BYTES" using n True assms(2) by auto
    ultimately show ?thesis unfolding step using ps(1,3) by (intro exI [of _ "?d # ps"]) simp
  qed
qed

lemma receive_ok:
  assumes "offset + length (concat parts) \<le> length buff" and "length buff < 2 ^ 32"
  shows "receive buff offset parts =
    Some (take offset buff @ concat parts @ drop (offset + length (concat parts)) buff, offset + length (concat parts))"
  using assms
proof (induction parts arbitrary: buff offset)
  case Nil
  then show ?case by simp
next
  case (Cons part parts)
  let ?buff = "take offset buff @ part @ drop (offset + length part) buff"
  have b: "blit buff offset part = Some ?buff" "length ?buff = length buff"
    using Cons.prems(1) by (simp_all add: blit_Some)
  have w: "wrap 32 (int offset + int (length part)) = offset + length part"
    by (rule wrap_add) (use Cons.prems in simp)
  have "offset + length part + length (concat parts) \<le> length ?buff" "length ?buff < 2 ^ 32"
    using Cons.prems b(2) by simp_all
  note ih = Cons.IH [OF this]
  have t: "take (offset + length part) ?buff = take offset buff @ part"
    "drop (offset + length part + length (concat parts)) ?buff = drop (offset + length part + length (concat parts)) buff"
    using Cons.prems(1) by (simp_all add: add.commute)
  have "receive buff offset (part # parts) = receive ?buff (offset + length part) parts" using b(1) w by simp
  then show ?case unfolding ih t by (simp add: add.assoc)
qed

lemma receive_overflow:
  assumes "length buff < offset + length (concat parts)" and "offset \<le> length buff" and "length buff < 2 ^ 32"
  shows "receive buff offset parts = None"
  using assms
proof (induction parts arbitrary: buff offset)
  case Nil
  then show ?case by simp
next
  case (Cons part parts)
  show ?case
  proof (cases "offset + length part \<le> length buff")
    case False
    then show ?thesis by (simp add: blit_def)
  next
    case True
    let ?buff = "take offset buff @ part @ drop (offset + length part) buff"
    have "length ?buff = length buff" using True by simp
    moreover have "wrap 32 (int offset + int (length part)) = offset + length part"
      by (rule wrap_add) (use True Cons.prems(3) in simp)
    ultimately show ?thesis
      using Cons.IH [of ?buff "offset + length part"] Cons.prems True by (simp add: blit_Some)
  qed
qed

subsection \<open>Fetching\<close>

text \<open>The digest of the whole of a string of bytes, and the steps of the loop.\<close>

definition hexsum :: "(bytes \<Rightarrow> bytes) \<Rightarrow> bytes \<Rightarrow> string" where
  "hexsum sha d = concat (map hex_byte (sha d))"

lemma checksum_received:
  assumes "length parts \<le> length buff"
  shows "checksum sha (parts @ drop (length parts) buff) (length parts) = Some (hexsum sha parts)"
  using assms by (simp add: checksum_def slice_def hexsum_def)

definition chunk_peers :: "'stub pool \<Rightarrow> nat \<Rightarrow> 'stub list" where
  "chunk_peers p i = map stub (filter (\<lambda>c. has_chunk (availability c) i) (connections p))"

lemma connection_for_block_cases:
  "chunk_peers p i = [] \<Longrightarrow> connection_for_block net i p e = Some (None, NOT_FOUND, e)"
  "chunk_peers p i \<noteq> [] \<Longrightarrow> draw net (length (chunk_peers p i)) e = (k, e') \<Longrightarrow> k < length (chunk_peers p i) \<Longrightarrow>
     connection_for_block net i p e = Some (Some (chunk_peers p i ! k), OK, e')"
  unfolding connection_for_block_def chunk_peers_def [symmetric] Let_def by simp_all

text \<open>Whatever the peers send, only data with the right digest is stored.\<close>

definition verified_result ::
    "(bytes \<Rightarrow> bytes) \<Rightarrow> (nat \<Rightarrow> bytes \<Rightarrow> nat \<Rightarrow> 's \<Rightarrow> (ErrorCode \<times> 's) option) \<Rightarrow> string list \<Rightarrow> nat \<Rightarrow> 's \<Rightarrow>
     nat \<Rightarrow> ErrorCode \<Rightarrow> 's \<Rightarrow> bool" where
  "verified_result sha wr hashes i s m err s' \<longleftrightarrow>
     (err = OK \<and> i < length hashes \<and>
       (\<exists>buff n err'. length buff = m \<and> checksum sha buff n = Some (hashes ! i) \<and> wr i buff n s = Some (err', s'))) \<or>
     (err = NOT_FOUND \<and> s' = s)"

lemma receive_length: "receive buff offset parts = Some (buff', n) \<Longrightarrow> length buff' = length buff"
  by (induction parts arbitrary: buff offset)
    (fastforce simp: Option.bind_eq_Some_conv dest: blit_length)+

lemma fetch_loop_sound:
  assumes "fetch_loop net sha wr p i buff s e = Some y"
  shows "case y of (err, s', e') \<Rightarrow> verified_result sha wr (md_hashes (metadata p)) i s (length buff) err s'"
proof (rule fetch_loop.raw_induct [OF _ assms], goal_cases)
  case (1 loop net sha wr p i buff s e y)
  show ?case
  proof (cases "chunk_peers p i = []")
    case True
    have "y = (NOT_FOUND, s, e)" using 1(2) by (simp add: connection_for_block_cases(1) [OF True])
    then show ?thesis by (simp add: verified_result_def)
  next
    case False
    then obtain st e1 where c: "connection_for_block net i p e = Some (Some st, OK, e1)"
      using 1(2) by (auto simp: connection_for_block_def chunk_peers_def Let_def split: prod.splits if_splits)
    obtain parts ok e2 where call: "call_chunk net st i e1 = (parts, ok, e2)" by (cases "call_chunk net st i e1") auto
    obtain buff' offset where b: "receive buff 0 parts = Some (buff', offset)"
      using 1(2) c call by (cases "receive buff 0 parts") auto
    show ?thesis
    proof (cases "loop net sha wr p i buff' s e2 = Some y")
      case True
      then show ?thesis using 1(1) by (simp only: receive_length [OF b, symmetric])
    next
      case False
      then show ?thesis
        using 1(2) c call b receive_length [OF b] by (auto simp: verified_result_def split: option.splits if_splits)
    qed
  qed
qed

subsection \<open>Peers with finitely many faults\<close>

text \<open>
  What is assumed of the outside for a download to end: while the environment is \<open>good\<close>, the
  random numbers are in range, no answer is longer than a chunk, and every answer is either ok
  with the right digest or uses up some of the faults that \<open>faults\<close> counts.
\<close>

definition finitely_faulty ::
    "('stub, 'e) net \<Rightarrow> (bytes \<Rightarrow> bytes) \<Rightarrow> string list \<Rightarrow> ('e \<Rightarrow> bool) \<Rightarrow> ('e \<Rightarrow> nat) \<Rightarrow> bool" where
  "finitely_faulty net sha hashes good faults \<longleftrightarrow>
     (\<forall>e n. good e \<longrightarrow> 0 < n \<longrightarrow>
        (case draw net n e of (k, e') \<Rightarrow> k < n \<and> good e' \<and> faults e' \<le> faults e)) \<and>
     (\<forall>e st i. good e \<longrightarrow> i < length hashes \<longrightarrow>
        (case call_chunk net st i e of (parts, ok, e') \<Rightarrow>
           good e' \<and> length (concat parts) \<le> CHUNK_SIZE_BYTES \<and>
           (ok \<and> hexsum sha (concat parts) = hashes ! i \<and> faults e' \<le> faults e \<or> faults e' < faults e)))"

lemma finitely_faulty_draw:
  assumes "finitely_faulty net sha hashes good faults" and "good e" and "0 < n" and "draw net n e = (k, e')"
  shows "k < n \<and> good e' \<and> faults e' \<le> faults e"
  using assms(1) [unfolded finitely_faulty_def, THEN conjunct1, rule_format, OF assms(2,3)] by (simp add: assms(4))

lemma finitely_faulty_call:
  assumes "finitely_faulty net sha hashes good faults" and "good e" and "i < length hashes"
    and "call_chunk net st i e = (parts, ok, e')"
  shows "good e' \<and> length (concat parts) \<le> CHUNK_SIZE_BYTES \<and>
    (ok \<and> hexsum sha (concat parts) = hashes ! i \<and> faults e' \<le> faults e \<or> faults e' < faults e)"
  using assms(1) [unfolded finitely_faulty_def, THEN conjunct2, rule_format, OF assms(2,3), of st] by (simp add: assms(4))

lemma fetch_loop_returns:
  assumes net: "finitely_faulty net sha (md_hashes (metadata p)) good faults"
    and claims: "i < length (md_hashes (metadata p))" "chunk_peers p i \<noteq> []"
    and wr: "\<And>d buff. hexsum sha d = md_hashes (metadata p) ! i \<Longrightarrow> length (d @ buff) = CHUNK_SIZE_BYTES \<Longrightarrow>
      wr i (d @ buff) (length d) s \<noteq> None"
    and "good e" and "length buff = CHUNK_SIZE_BYTES"
    and Q: "\<forall>st e parts ok e'. good e \<and> call_chunk net st i e = (parts, ok, e') \<and>
      hexsum sha (concat parts) = md_hashes (metadata p) ! i \<longrightarrow> Q (concat parts)"
  shows "\<exists>d rest err' s' e'. fetch_loop net sha wr p i buff s e = Some (OK, s', e') \<and> good e' \<and> faults e' \<le> faults e \<and>
    hexsum sha d = md_hashes (metadata p) ! i \<and> Q d \<and> length (d @ rest) = CHUNK_SIZE_BYTES \<and>
    wr i (d @ rest) (length d) s = Some (err', s')"
  using assms(5,6)
proof (induction "faults e" arbitrary: e buff rule: less_induct)
  case less
  let ?H = "md_hashes (metadata p)"
  have n0: "0 < length (chunk_peers p i)" using claims(2) by simp
  obtain k e1 where d: "draw net (length (chunk_peers p i)) e = (k, e1)" by fastforce
  note k = d finitely_faulty_draw [OF net less.prems(1) n0 d, THEN conjunct1]
    finitely_faulty_draw [OF net less.prems(1) n0 d, THEN conjunct2, THEN conjunct1]
    finitely_faulty_draw [OF net less.prems(1) n0 d, THEN conjunct2, THEN conjunct2]
  define st where "st = chunk_peers p i ! k"
  note c = connection_for_block_cases(2) [OF claims(2) k(1,2), folded st_def]
  obtain parts ok e2 where call: "call_chunk net st i e1 = (parts, ok, e2)" by (cases "call_chunk net st i e1") auto
  have ans: "good e2" "length (concat parts) \<le> CHUNK_SIZE_BYTES"
    "ok \<and> hexsum sha (concat parts) = ?H ! i \<and> faults e2 \<le> faults e1 \<or> faults e2 < faults e1"
    using finitely_faulty_call [OF net k(3) claims(1) call] by blast+
  let ?d = "concat parts"
  let ?buff = "?d @ drop (length ?d) buff"
  have rc: "receive buff 0 parts = Some (?buff, length ?d)"
    using receive_ok [of 0 parts buff] ans(2) less.prems(2) chunk_size_lt_32 by simp
  have sum: "checksum sha ?buff (length ?d) = Some (hexsum sha ?d)"
    by (rule checksum_received) (use ans(2) less.prems(2) in simp)
  have len: "length ?buff = CHUNK_SIZE_BYTES" using ans(2) less.prems(2) by simp
  have step: "fetch_loop net sha wr p i buff s e =
      (if ok \<and> hexsum sha ?d = ?H ! i
       then case wr i ?buff (length ?d) s of None \<Rightarrow> None | Some (err, s') \<Rightarrow> Some (OK, s', e2)
       else fetch_loop net sha wr p i ?buff s e2)"
    using c call rc sum claims(1) by (simp add: fetch_loop.simps [of net sha wr p i buff])
  show ?case
  proof (cases "ok \<and> hexsum sha ?d = ?H ! i")
    case True
    then obtain err' s' where "wr i ?buff (length ?d) s = Some (err', s')" using wr len by fastforce
    moreover have "faults e2 \<le> faults e" using ans(3) k(4) by linarith
    moreover have "Q ?d" using Q k(3) call True by blast
    ultimately show ?thesis
      unfolding step using True ans(1) len
      by (intro exI [of _ ?d] exI [of _ "drop (length ?d) buff"] exI [of _ err'] exI [of _ s'] exI [of _ e2]) simp
  next
    case False
    then have "faults e2 < faults e" using ans(3) k(4) by linarith
    from less.hyps [OF this ans(1) len] this show ?thesis unfolding step if_not_P [OF False] by (meson less_imp_le order_trans)
  qed
qed

lemma checksum_Some:
  assumes "checksum sha buff n = Some h"
  obtains d rest where "buff = d @ rest" and "n = length d" and "h = hexsum sha d"
proof -
  have n: "n \<le> length buff" "h = hexsum sha (take n buff)"
    using assms by (auto simp: checksum_def slice_def hexsum_def split: if_splits)
  show thesis by (rule that [of "take n buff" "drop n buff"]) (use n in simp_all)
qed

text \<open>\<open>Q\<close> is what is known of the data with the right digest that peers send.\<close>

lemma fetch_chunk_stores:
  assumes "finitely_faulty net sha (md_hashes (metadata p)) good faults" and "good e"
    and "i < length (md_hashes (metadata p))" and "chunk_peers p i \<noteq> []"
    and "store_bounded s" and "i < 2 ^ 32"
    and "\<forall>st e parts ok e'. good e \<and> call_chunk net st i e = (parts, ok, e') \<and>
      hexsum sha (concat parts) = md_hashes (metadata p) ! i \<longrightarrow> Q (concat parts)"
  shows "\<exists>s' e' d E. fetch_chunk net sha store_write_chunk p i s e = Some (OK, s', e') \<and> good e' \<and> store_bounded s' \<and>
    store_lookup s' = (store_lookup s |` (- E))(i \<mapsto> d) \<and> hexsum sha d = md_hashes (metadata p) ! i \<and> Q d \<and>
    (\<forall>K. store_room s K \<longrightarrow> i < K \<longrightarrow> E = {} \<and> store_room s' K)"
proof -
  have w: "\<exists>s' E. store_write_chunk i (d @ rest) (length d) s = Some (OK, s') \<and> store_bounded s' \<and>
      store_lookup s' = (store_lookup s |` (- E))(i \<mapsto> d) \<and>
      (\<forall>K. store_room s K \<longrightarrow> i < K \<longrightarrow> E = {} \<and> store_room s' K)" if "length (d @ rest) = CHUNK_SIZE_BYTES" for d rest
    using chunk_files.write_ok [OF assms(5,6), of "length d" "d @ rest"] that by auto
  obtain d rest err' s' e' where f: "fetch_loop net sha store_write_chunk p i new_buffer s e = Some (OK, s', e')" "good e'"
      "hexsum sha d = md_hashes (metadata p) ! i" "Q d" "length (d @ rest) = CHUNK_SIZE_BYTES"
      "store_write_chunk i (d @ rest) (length d) s = Some (err', s')"
    using fetch_loop_returns [OF assms(1,3,4) _ assms(2) _ assms(7), of store_write_chunk s new_buffer] w by fastforce
  show ?thesis using f w [OF f(5)] by (auto simp: fetch_chunk_def)
qed

lemma fetch_chunk_ok:
  assumes "finitely_faulty net sha (md_hashes (metadata p)) good faults" and "good e"
    and "i < length (md_hashes (metadata p))" and "chunk_peers p i \<noteq> []"
    and "store_bounded s" and "i < 2 ^ 32"
  shows "\<exists>s' e' d. fetch_chunk net sha store_write_chunk p i s e = Some (OK, s', e') \<and> good e' \<and> store_bounded s' \<and>
    store_lookup s' i = Some d \<and> hexsum sha d = md_hashes (metadata p) ! i"
  using fetch_chunk_stores [OF assms, of "\<lambda>d. True"] by fastforce

text \<open>
  An example: a peer at \<open>b:1\<close> that has chunk 0, the text \<open>abc\<close>, but sends something else as often
  as the environment says; the digest of a text is the text itself.
\<close>

definition faulty_net :: "(string, nat) net" where
  "faulty_net = example_net
     \<lparr>call_chunk := \<lambda>st i e. if e > 0 then ([''b'', ''ad''], True, e - 1) else ([''ab'', ''c''], True, 0),
      draw := \<lambda>n e. (0, e)\<rparr>"

definition fetching_pool :: "string pool" where
  "fetching_pool =
     \<lparr>active_connections_limit = 2, peer_candidates = os_new 3, active_peers = {''b:1''},
      metadata = \<lparr>md_peer = ''b:1'', md_id = 5, md_node_id = 7, md_hashes = [hexsum (\<lambda>d. d) ''abc'']\<rparr>,
      connections = [(new_connection ''b:1'' ''b:1'' 7)\<lparr>availability := ChunkAvailability {0}\<rparr>],
      last_explore = 0, node_id = 3, listen_port = 1\<rparr>"

lemma fetching_pool_simps [simp]:
  "md_hashes (metadata fetching_pool) = [hexsum (\<lambda>d. d) ''abc'']" "chunk_peers fetching_pool 0 = [''b:1'']"
  by (simp_all add: fetching_pool_def chunk_peers_def new_connection_def has_chunk_def)

lemma faulty_net_ok: "finitely_faulty faulty_net (\<lambda>d. d) (md_hashes (metadata fetching_pool)) (\<lambda>e. True) (\<lambda>e. e)"
  by (simp add: finitely_faulty_def faulty_net_def CHUNK_SIZE_BYTES_def)

lemma fresh_store_ok: "store_bounded (fresh_store ''/s'' 4 [])"
  by (rule fresh_store_bounded) (simp_all add: short_base_def)

lemma hexsum_inj: "hexsum (\<lambda>d. d) d = hexsum (\<lambda>d. d) d' \<Longrightarrow> d = d'"
  unfolding hexsum_def by (rule hex_string_inj)

lemma fetching_run:
  "\<exists>s' e'. fetch_chunk faulty_net (\<lambda>d. d) store_write_chunk fetching_pool 0 (fresh_store ''/s'' 4 []) 2 = Some (OK, s', e') \<and>
     store_bounded s' \<and> store_lookup s' 0 = Some ''abc''"
proof -
  have z: "0 < length (md_hashes (metadata fetching_pool))" "chunk_peers fetching_pool 0 \<noteq> []" "(0::nat) < 2 ^ 32"
    by simp_all
  obtain s' e' d where
    "fetch_chunk faulty_net (\<lambda>d. d) store_write_chunk fetching_pool 0 (fresh_store ''/s'' 4 []) 2 = Some (OK, s', e')"
    "store_bounded s'" "store_lookup s' 0 = Some d" "hexsum (\<lambda>d. d) d = md_hashes (metadata fetching_pool) ! 0"
    using fetch_chunk_ok [OF faulty_net_ok TrueI z(1,2) fresh_store_ok z(3), of 2] by blast
  moreover from this(4) have "d = ''abc''" by (simp add: hexsum_inj)
  ultimately show ?thesis by blast
qed

subsection \<open>Properties\<close>

text \<open>
  C25: What GetChunk sends of a chunk in the store, in parts of at most \<open>WIRE_CHUNK_SIZE_BYTES\<close>
  each, the loop of fetch_chunk puts together to exactly the stored bytes and their number.
\<close>

theorem chunk_transfer_roundtrip:
  assumes "store_bounded s" and "store_lookup s i = Some d"
  shows "\<exists>parts s'. GetChunk store_read_chunk keep_part junk i [] s = Some (StOK, parts, s') \<and>
    store_lookup s' = store_lookup s \<and>
    (\<forall>part \<in> set parts. 0 < length part \<and> length part \<le> WIRE_CHUNK_SIZE_BYTES) \<and>
    receive new_buffer 0 parts = Some (d @ drop (length d) new_buffer, length d)"
proof -
  obtain s' where r: "store_read_chunk i new_buffer junk s = Some (OK, d @ drop (length d) new_buffer, length d, s')"
      "store_lookup s' = store_lookup s"
    using chunk_files.read_ok [OF assms, of new_buffer junk] by auto
  have len: "length d \<le> CHUNK_SIZE_BYTES" by (rule chunk_files.lookup_length [OF assms])
  have "length d \<le> length (d @ drop (length d) new_buffer)" by simp
  from send_parts_ok [OF le0 this, of "[]"] obtain parts where
    parts: "send_parts keep_part (d @ drop (length d) new_buffer) 0 (length d) [] = Some (StOK, parts)" "concat parts = d"
      "\<forall>part \<in> set parts. 0 < length part \<and> length part \<le> WIRE_CHUNK_SIZE_BYTES" by auto
  have "receive new_buffer 0 parts = Some (d @ drop (length d) new_buffer, length d)"
    using receive_ok [of 0 parts new_buffer] parts(2) len chunk_size_lt_32 by simp
  then show ?thesis using r parts(1,3) by (simp add: GetChunk_def)
qed

theorem chunk_transfer_roundtrip_witness:
  "\<exists>s e parts s'. fetch_chunk faulty_net (\<lambda>d. d) store_write_chunk fetching_pool 0 (fresh_store ''/s'' 4 []) 2 =
       Some (OK, s, e) \<and>
     GetChunk store_read_chunk keep_part 0 0 [] s = Some (StOK, parts, s') \<and>
     receive new_buffer 0 parts = Some (''abc'' @ drop 3 new_buffer, 3)"
proof -
  obtain s e where f: "fetch_chunk faulty_net (\<lambda>d. d) store_write_chunk fetching_pool 0 (fresh_store ''/s'' 4 []) 2 =
      Some (OK, s, e)" and s: "store_bounded s" "store_lookup s 0 = Some ''abc''" using fetching_run by blast
  show ?thesis using f chunk_transfer_roundtrip [OF s, of 0] by (auto simp: numeral_3_eq_3)
qed

text \<open>
  C14: Whatever the peers and the network do, a call of fetch_chunk that returns has either
  written data with the published digest of the chunk to the store and reports OK, or has left
  the store alone and reports NOT_FOUND.
\<close>

theorem fetch_chunk_stores_only_verified:
  assumes "fetch_chunk net sha store_write_chunk p i s e = Some (err, s', e')"
  shows "(err = OK \<and> i < length (md_hashes (metadata p)) \<and>
      (\<exists>d rest err'. hexsum sha d = md_hashes (metadata p) ! i \<and> length (d @ rest) = CHUNK_SIZE_BYTES \<and>
         store_write_chunk i (d @ rest) (length d) s = Some (err', s'))) \<or>
    (err = NOT_FOUND \<and> s' = s)"
proof -
  have "verified_result sha store_write_chunk (md_hashes (metadata p)) i s CHUNK_SIZE_BYTES err s'"
    using fetch_loop_sound [of net sha store_write_chunk p i new_buffer s e "(err, s', e')"] assms
    by (simp add: fetch_chunk_def)
  then show ?thesis unfolding verified_result_def by (metis checksum_Some)
qed

theorem fetch_chunk_stores_only_verified_witness:
  "\<exists>s' e' d rest err'. fetch_chunk faulty_net (\<lambda>d. d) store_write_chunk fetching_pool 0 (fresh_store ''/s'' 4 []) 2 =
       Some (OK, s', e') \<and> hexsum (\<lambda>d. d) d = hexsum (\<lambda>d. d) ''abc'' \<and>
     store_write_chunk 0 (d @ rest) (length d) (fresh_store ''/s'' 4 []) = Some (err', s')"
proof -
  obtain s' e' where f: "fetch_chunk faulty_net (\<lambda>d. d) store_write_chunk fetching_pool 0 (fresh_store ''/s'' 4 []) 2 =
      Some (OK, s', e')" using fetching_run by blast
  from fetch_chunk_stores_only_verified [OF f] f show ?thesis by auto
qed



text \<open>
  C38: A peer that sends more than \<open>CHUNK_SIZE_BYTES\<close> for a chunk makes fetch_chunk write
  behind its buffer, which is undefined: the parts are copied before anything is checked.
\<close>

theorem fetch_chunk_overflow_undefined:
  assumes "connection_for_block net i p e = Some (Some st, OK, e1)"
    and "call_chunk net st i e1 = (parts, ok, e2)" and "CHUNK_SIZE_BYTES < length (concat parts)"
  shows "fetch_chunk net sha wr p i s e = None"
proof -
  have "receive new_buffer 0 parts = None"
    by (rule receive_overflow) (use assms(3) chunk_size_lt_32 in simp_all)
  then show ?thesis using assms(1,2) by (simp add: fetch_chunk_def fetch_loop.simps)
qed

theorem fetch_chunk_overflow_undefined_witness:
  "fetch_chunk (faulty_net\<lparr>call_chunk := \<lambda>st i e. ([new_buffer, ''x''], False, e)\<rparr>) (\<lambda>d. d) store_write_chunk
     fetching_pool 0 (fresh_store ''/s'' 4 []) 2 = None"
  by (rule fetch_chunk_overflow_undefined [where st = "''b:1''" and parts = "[new_buffer, ''x'']" and ok = False and ?e1.0 = 2 and ?e2.0 = 2])
    (simp_all add: connection_for_block_def faulty_net_def fetching_pool_def new_connection_def has_chunk_def)

end
