(* ===== verification/Remote_Mount.thy ===== *)
theory Remote_Mount
  imports Packed_Volume Chunk_Transfer
begin

text \<open>
  A volume that is mounted over the network: ChunkProvider over a CompressedStore whose missing
  chunks ConnectionPool::fetch_chunk gets from the peers. The state of the provider is the store
  together with the environment of the network.
\<close>

subsection \<open>The store of a node on the network\<close>

interpretation net_store: chunk_map "env_read (cs_read_chunk lz4)" "env_write (cs_write_chunk lz4)"
  "\<lambda>x. cs_available (fst x)" "\<lambda>x. cs_lookup lz4 (fst x)" "\<lambda>x. cs_inv lz4 (fst x) \<and> good (snd x)"
  "\<lambda>x. store_room (fst x)" "cs_storable lz4" for lz4 good
  by (rule compressed_files.env_chunk_map)

definition net_fetch ::
    "('stub, 'e) net \<Rightarrow> (bytes \<Rightarrow> bytes) \<Rightarrow> 'stub pool \<Rightarrow> nat \<Rightarrow> chunk_store \<times> 'e \<Rightarrow>
     (ErrorCode \<times> chunk_store \<times> 'e) option" where
  "net_fetch net sha p i x = fetch_chunk net sha store_write_chunk p i (fst x) (snd x)"

text \<open>
  A published volume: \<open>R\<close> holds its chunks as they are stored and sent, compressed; the hashes
  are their digests. \<open>decoded\<close> is the volume itself.
\<close>

definition decoded :: "codec \<Rightarrow> (nat \<rightharpoonup> bytes) \<Rightarrow> nat \<rightharpoonup> bytes" where
  "decoded lz4 R = coded_lookup lz4 (\<lambda>r. r) R"

definition published :: "codec \<Rightarrow> (bytes \<Rightarrow> bytes) \<Rightarrow> string list \<Rightarrow> (nat \<rightharpoonup> bytes) \<Rightarrow> bool" where
  "published lz4 sha hashes R \<longleftrightarrow> codec_ok lz4 \<and> length hashes \<le> 2 ^ 32 \<and> dom R = {..<length hashes} \<and>
     (\<forall>i z. R i = Some z \<longrightarrow> hashes ! i = hexsum sha z \<and> 0 \<le> fst (lz4_decompress lz4 z CHUNK_SIZE_BYTES))"

text \<open>
  The peers give finitely many bad answers, and nobody sends other data with the digest of a chunk.
\<close>

definition serving ::
    "('stub, 'e) net \<Rightarrow> (bytes \<Rightarrow> bytes) \<Rightarrow> 'stub pool \<Rightarrow> (nat \<rightharpoonup> bytes) \<Rightarrow> ('e \<Rightarrow> bool) \<Rightarrow> ('e \<Rightarrow> nat) \<Rightarrow> bool" where
  "serving net sha p R good faults \<longleftrightarrow>
     finitely_faulty net sha (md_hashes (metadata p)) good faults \<and>
     (\<forall>st i e parts ok e'. good e \<and> call_chunk net st i e = (parts, ok, e') \<and> i < length (md_hashes (metadata p)) \<and>
        hexsum sha (concat parts) = md_hashes (metadata p) ! i \<longrightarrow> R i = Some (concat parts))"

abbreviation net_faithful ::
    "codec \<Rightarrow> (nat \<rightharpoonup> bytes) \<Rightarrow> ('e \<Rightarrow> bool) \<Rightarrow> chunk_store \<times> 'e \<Rightarrow> bool" where
  "net_faithful lz4 R good \<equiv>
     faithful (decoded lz4 R) (\<lambda>x. cs_lookup lz4 (fst x)) (\<lambda>x. cs_inv lz4 (fst x) \<and> good (snd x))"

lemma net_fetch_stores:
  assumes pub: "published lz4 sha (md_hashes (metadata p)) R" and srv: "serving net sha p R good faults"
    and x: "net_faithful lz4 R good x" and i_in: "i < length (md_hashes (metadata p))" and peers: "chunk_peers p i \<noteq> []"
  shows "\<exists>x'. net_fetch net sha p i x = Some (OK, x') \<and> net_faithful lz4 R good x' \<and> cs_lookup lz4 (fst x') i \<noteq> None"
proof -
  have inv: "codec_ok lz4" "store_bounded (fst x)" "good (snd x)" "cs_lookup lz4 (fst x) \<subseteq>\<^sub>m decoded lz4 R"
    "\<forall>j z. store_lookup (fst x) j = Some z \<longrightarrow> 0 \<le> fst (lz4_decompress lz4 z CHUNK_SIZE_BYTES)"
    using x by (auto simp: faithful_def cs_inv_def coded_inv_def)
  have i: "i < length (md_hashes (metadata p))" "i < 2 ^ 32" using i_in pub by (simp_all add: published_def)
  have fin: "finitely_faulty net sha (md_hashes (metadata p)) good faults" using srv by (simp add: serving_def)
  have Q: "\<forall>st e parts ok e'. good e \<and> call_chunk net st i e = (parts, ok, e') \<and>
      hexsum sha (concat parts) = md_hashes (metadata p) ! i \<longrightarrow> R i = Some (concat parts)"
    using srv i(1) unfolding serving_def by blast
  obtain s' e' d E where f: "fetch_chunk net sha store_write_chunk p i (fst x) (snd x) = Some (OK, s', e')" "good e'"
      "store_bounded s'" "store_lookup s' = (store_lookup (fst x) |` (- E))(i \<mapsto> d)" "R i = Some d"
    using fetch_chunk_stores [OF fin inv(3) i(1) peers inv(2) i(2) Q] by blast
  have dec: "0 \<le> fst (lz4_decompress lz4 d CHUNK_SIZE_BYTES)" using pub f(5) by (auto simp: published_def)
  have "0 \<le> fst (lz4_decompress lz4 z CHUNK_SIZE_BYTES)" if "store_lookup s' j = Some z" for j z
    using that inv(5) dec unfolding f(4) by (auto simp: restrict_map_def split: if_splits)
  then have "cs_inv lz4 s'" using inv(1) f(3) by (simp add: cs_inv_def coded_inv_def)
  moreover have "cs_lookup lz4 s' i = decoded lz4 R i"
    by (simp add: cs_lookup_def coded_lookup_def decoded_def f(4,5))
  moreover have "cs_lookup lz4 s' j = cs_lookup lz4 (fst x) j \<or> cs_lookup lz4 s' j = None" if "j \<noteq> i" for j
    using that by (simp add: cs_lookup_def coded_lookup_def f(4) restrict_map_def)
  ultimately have "net_faithful lz4 R good (s', e')"
    using inv(4) f(2) unfolding faithful_def map_le_def by (metis domIff fst_conv snd_conv)
  moreover have "cs_lookup lz4 s' i \<noteq> None"
    using dec f(4) by (auto simp: cs_lookup_def coded_lookup_def split: prod.splits)
  ultimately show ?thesis using f(1) by (auto simp: net_fetch_def)
qed

lemma net_fetch_no_peer: "chunk_peers p i = [] \<Longrightarrow> net_fetch net sha p i x = Some (NOT_FOUND, x)"
  by (simp add: net_fetch_def fetch_chunk_def fetch_loop.simps connection_for_block_cases(1))

text \<open>What is known of a fetch holds for the chunks of the volume; peers may claim others.\<close>

definition volume_fetch ::
    "('stub, 'e) net \<Rightarrow> (bytes \<Rightarrow> bytes) \<Rightarrow> 'stub pool \<Rightarrow> nat \<Rightarrow> chunk_store \<times> 'e \<Rightarrow>
     (ErrorCode \<times> chunk_store \<times> 'e) option" where
  "volume_fetch net sha p i x =
     (if i < length (md_hashes (metadata p)) then net_fetch net sha p i x else Some (NOT_FOUND, x))"

lemma volume_fetch_is: "i < length (md_hashes (metadata p)) \<Longrightarrow> volume_fetch net sha p i = net_fetch net sha p i"
  by (simp add: volume_fetch_def fun_eq_iff)

lemma volume_fetch_ok:
  assumes "published lz4 sha (md_hashes (metadata p)) R" and "serving net sha p R good faults"
  shows "fetch_ok (decoded lz4 R) (\<lambda>x. cs_lookup lz4 (fst x)) (\<lambda>x. cs_inv lz4 (fst x) \<and> good (snd x)) (volume_fetch net sha p)"
  unfolding fetch_ok_def
proof (intro allI impI)
  fix i :: nat and x
  assume x: "net_faithful lz4 R good x"
  show "\<exists>err x'. volume_fetch net sha p i x = Some (err, x') \<and> net_faithful lz4 R good x' \<and>
      (err = OK \<longrightarrow> cs_lookup lz4 (fst x') i \<noteq> None)"
  proof (cases "chunk_peers p i = [] \<or> \<not> i < length (md_hashes (metadata p))")
    case True
    then have "volume_fetch net sha p i x = Some (NOT_FOUND, x)"
      by (auto simp: volume_fetch_def net_fetch_no_peer)
    then show ?thesis using x by simp
  next
    case False
    then have i: "i < length (md_hashes (metadata p))" "chunk_peers p i \<noteq> []" by simp_all
    from net_fetch_stores [OF assms x this] show ?thesis unfolding volume_fetch_is [OF i(1)] by blast
  qed
qed


subsection \<open>The provider over the network\<close>

abbreviation net_provider_inv ::
    "codec \<Rightarrow> (nat \<rightharpoonup> bytes) \<Rightarrow> ('e \<Rightarrow> bool) \<Rightarrow> (chunk_store \<times> 'e) provider \<Rightarrow> bool" where
  "net_provider_inv lz4 R good \<equiv>
     provider_inv (decoded lz4 R) (\<lambda>x. cs_lookup lz4 (fst x)) (\<lambda>x. cs_inv lz4 (fst x) \<and> good (snd x))"

definition remote_ready ::
    "('stub, 'e) net \<Rightarrow> (bytes \<Rightarrow> bytes) \<Rightarrow> 'stub pool \<Rightarrow> codec \<Rightarrow> (nat \<rightharpoonup> bytes) \<Rightarrow> ('e \<Rightarrow> bool) \<Rightarrow> ('e \<Rightarrow> nat) \<Rightarrow>
     (chunk_store \<times> 'e) provider \<Rightarrow> bool" where
  "remote_ready net sha p lz4 R good faults q \<longleftrightarrow>
     net_provider_inv lz4 R good q \<and> published lz4 sha (md_hashes (metadata p)) R \<and> serving net sha p R good faults"

abbreviation remote_read ::
    "('stub, 'e) net \<Rightarrow> (bytes \<Rightarrow> bytes) \<Rightarrow> 'stub pool \<Rightarrow> codec \<Rightarrow> (nat \<Rightarrow> nat) \<Rightarrow> nat \<Rightarrow> bytes \<Rightarrow> nat \<Rightarrow>
     (chunk_store \<times> 'e) provider \<Rightarrow> (ErrorCode \<times> bytes \<times> (chunk_store \<times> 'e) provider) option" where
  "remote_read net sha p lz4 junk \<equiv>
     dp_read (provider_read_chunk (env_read (cs_read_chunk lz4)) (net_fetch net sha p)) junk"

lemma volume_fetch_sure:
  assumes "published lz4 sha (md_hashes (metadata p)) R" and "serving net sha p R good faults"
    and "i < length (md_hashes (metadata p))" and "chunk_peers p i \<noteq> []"
  shows "fetch_sure (decoded lz4 R) (\<lambda>x. cs_lookup lz4 (fst x)) (\<lambda>x. cs_inv lz4 (fst x) \<and> good (snd x)) (volume_fetch net sha p) i"
  unfolding fetch_sure_def volume_fetch_is [OF assms(3)] using net_fetch_stores [OF assms(1,2) _ assms(3,4)] by blast

lemma provider_reads_volume:
  assumes "i < length (md_hashes (metadata p))"
  shows "provider_read_chunk rd (net_fetch net sha p) i = provider_read_chunk rd (volume_fetch net sha p) i"
  by (intro ext) (simp only: provider_read_chunk_def load_entry_def volume_fetch_is [OF assms])

text \<open>A chunk that a peer has is as good as one in the store.\<close>

interpretation remote_reader: chunk_reader "provider_read_chunk (env_read (cs_read_chunk lz4)) (net_fetch net sha p)"
  "remote_ready net sha p lz4 R good faults" "decoded lz4 R" "\<lambda>q i. chunk_peers p i \<noteq> []" "if length (md_hashes (metadata p)) \<le> 2 ^ 32 then length (md_hashes (metadata p)) else 0"
  for net :: "('stub, 'e) net" and sha p lz4 R good faults
proof (unfold_locales, goal_cases)
  case (2 q i ofs len buffer junk)
  then have i: "i < length (md_hashes (metadata p))" "i < 2 ^ 32" by (simp_all split: if_splits)
  from 2 have q: "net_provider_inv lz4 R good q" and pub: "published lz4 sha (md_hashes (metadata p)) R"
    and srv: "serving net sha p R good faults" by (simp_all add: remote_ready_def)
  obtain err buffer' n q' where
    r: "provider_read_chunk (env_read (cs_read_chunk lz4)) (volume_fetch net sha p) i buffer ofs len junk q = Some (err, buffer', n, q')"
      "net_provider_inv lz4 R good q'" "read_result (decoded lz4 R) i buffer ofs len junk err buffer' n"
      "fetch_sure (decoded lz4 R) (\<lambda>x. cs_lookup lz4 (fst x)) (\<lambda>x. cs_inv lz4 (fst x) \<and> good (snd x)) (volume_fetch net sha p) i
         \<longrightarrow> err = OK"
    using net_store.provider_read_ok [OF q volume_fetch_ok [OF pub srv] i(2) 2(3,4), of junk] by blast
  have "remote_ready net sha p lz4 R good faults q'" using r(2) pub srv by (simp add: remote_ready_def)
  moreover have "chunk_peers p i \<noteq> [] \<longrightarrow> err = OK" using r(4) volume_fetch_sure [OF pub srv i(1)] by blast
  moreover have "err = OK \<longrightarrow> (\<exists>d. decoded lz4 R i = Some d \<and>
      (ofs + len \<le> length d \<longrightarrow> n = len \<and> buffer' = take len (drop ofs d) @ drop len buffer))"
    using r(3) by (auto simp: read_result_def)
  moreover have "(err \<noteq> OK \<longrightarrow> buffer' = buffer \<and> n = junk) \<and> length buffer' = length buffer"
    using r(3) by (auto simp: read_result_def split: if_splits)
  ultimately show ?case using r(1) unfolding provider_reads_volume [OF i(1)] by blast
qed simp

lemma remote_new:
  assumes "cs_inv lz4 s" and "cs_lookup lz4 s \<subseteq>\<^sub>m decoded lz4 R" and "good e" and "0 < cache"
    and "published lz4 sha (md_hashes (metadata p)) R" and "serving net sha p R good faults"
  shows "remote_ready net sha p lz4 R good faults (provider_new (s, e) cache)"
  using assms by (simp add: remote_ready_def provider_inv_def provider_new_def faithful_def)

subsection \<open>Properties\<close>

text \<open>
  An example: a peer has all chunks \<open>R\<close> of a volume; it sends something else as often as the
  environment says.
\<close>

definition peer_net :: "(nat \<rightharpoonup> bytes) \<Rightarrow> (string, nat) net" where
  "peer_net R = faulty_net
     \<lparr>call_chunk := \<lambda>st i e. if e > 0 then ([''b'', ''ad''], True, e - 1)
        else (case R i of None \<Rightarrow> ([], False, 0) | Some d \<Rightarrow> ([d], True, 0))\<rparr>"

definition peer_pool :: "string list \<Rightarrow> string pool" where
  "peer_pool hashes = fetching_pool
     \<lparr>metadata := (metadata fetching_pool)\<lparr>md_hashes := hashes\<rparr>,
      connections := [(new_connection ''b:1'' ''b:1'' 7)\<lparr>availability := ChunkAvailability {..<length hashes}\<rparr>]\<rparr>"

lemma peer_pool_simps [simp]:
  "md_hashes (metadata (peer_pool hashes)) = hashes"
  "chunk_peers (peer_pool hashes) i = (if i < length hashes then [''b:1''] else [])"
  by (simp_all add: peer_pool_def chunk_peers_def new_connection_def has_chunk_def)

lemma peer_serves:
  assumes "dom R = {..<length hashes}" and "\<And>i d. R i = Some d \<Longrightarrow> length d \<le> CHUNK_SIZE_BYTES \<and> hashes ! i = hexsum (\<lambda>d. d) d"
  shows "serving (peer_net R) (\<lambda>d. d) (peer_pool hashes) R (\<lambda>e. True) (\<lambda>e. e)"
proof -
  have R: "\<exists>d. R i = Some d" if "i < length hashes" for i using that assms(1) by blast
  have "finitely_faulty (peer_net R) (\<lambda>d. d) hashes (\<lambda>e. True) (\<lambda>e. e)"
    using R assms(2) by (fastforce simp: finitely_faulty_def peer_net_def faulty_net_def CHUNK_SIZE_BYTES_def)
  then show ?thesis using R assms(2) by (fastforce simp: serving_def dest: hexsum_inj)
qed

lemma one_chunk_served:
  assumes "length d = CHUNK_SIZE_BYTES"
  shows "published copy_codec (\<lambda>d. d) [hexsum (\<lambda>d. d) d] [0 \<mapsto> d]"
    and "serving (peer_net [0 \<mapsto> d]) (\<lambda>d. d) (peer_pool [hexsum (\<lambda>d. d) d]) [0 \<mapsto> d] (\<lambda>e. True) (\<lambda>e. e)"
    and "decoded copy_codec [0 \<mapsto> d] = [0 \<mapsto> d]"
proof -
  show "published copy_codec (\<lambda>d. d) [hexsum (\<lambda>d. d) d] [0 \<mapsto> d]"
    using assms copy_codec_ok by (simp add: published_def copy_codec_def [THEN arg_cong [where f = lz4_decompress]] lessThan_Suc)
  show "serving (peer_net [0 \<mapsto> d]) (\<lambda>d. d) (peer_pool [hexsum (\<lambda>d. d) d]) [0 \<mapsto> d] (\<lambda>e. True) (\<lambda>e. e)"
    using assms by (intro peer_serves) (auto split: if_splits)
  show "decoded copy_codec [0 \<mapsto> d] = [0 \<mapsto> d]"
    using assms by (auto simp: decoded_def coded_lookup_def copy_codec_def fun_eq_iff)
qed

lemma mounted_volume_image:
  "volume_bytes [0 \<mapsto> padded_chunk mounted_volume] 0 (length example_image) = example_image"
  using volume_bytes_part [of 0 "length example_image" "length mounted_volume" "[0 \<mapsto> padded_chunk mounted_volume]" 0]
  unfolding padded_chunk_bytes [OF mounted_volume_facts(2)] by (simp add: mounted_volume_def)

end
