(* ===== verification/Fuse_Session.thy ===== *)
theory Fuse_Session
  imports Remote_Mount
begin

text \<open>
  \<^verbatim>\<open>run_fuse\<close> (fuse/fuse_main.cc): the table of callbacks and the arguments for the FUSE library, and
  what a mounted volume answers to a whole session of requests of the kernel, which is specified
  by the tree alone.
\<close>

subsection \<open>The arguments and the callbacks\<close>

text \<open>The arguments of \<^verbatim>\<open>fuse_main\<close>, as many as the count that is passed with them.\<close>

definition fuse_argv :: "string \<Rightarrow> bool \<Rightarrow> string list" where
  "fuse_argv mount_path single_thread =
     [''distfs'', ''-f'', ''-oro,allow_other,default_permissions'', mount_path] @ (if single_thread then [''-s''] else [])"

text \<open>
  The requests, with the buffers of the kernel. The buffer of a listing has room for as many
  entries as the first number says.
\<close>

datatype fuse_request =
    Getattr string stat
  | Readlink string bytes nat
  | Readdir string nat nat
  | Getxattr string string bytes nat
  | Listxattr string bytes nat
  | OpenFile string nat
  | ReadFile nat bytes nat nat

type_synonym listing = "(string \<times> stat \<times> nat) list"

datatype fuse_reply =
    StatReply int stat
  | DataReply int bytes
  | ListReply int listing
  | HandleReply int nat

definition fill_entry :: "nat \<Rightarrow> string \<Rightarrow> stat \<Rightarrow> nat \<Rightarrow> listing \<Rightarrow> int \<times> listing" where
  "fill_entry room name st off buf = (if length buf < room then (0, buf @ [(name, st, off)]) else (1, buf))"

text \<open>The callback a request is handed to; \<open>u\<close> is what an uninitialised length holds.\<close>

fun fuse_call ::
    "(nat \<Rightarrow> bytes \<Rightarrow> nat \<Rightarrow> 'p \<Rightarrow> (ErrorCode \<times> bytes \<times> 'p) option) \<Rightarrow> bytes \<Rightarrow> nat \<Rightarrow> fuse_request \<Rightarrow> 'p \<Rightarrow>
     (string + fuse_reply \<times> 'p) option" where
  "fuse_call rd img u (Getattr path st) p =
     map_option (map_sum id (\<lambda>(r, st'). (StatReply r st', p))) (distfs_getattr img path st)"
| "fuse_call rd img u (Readlink path buf n) p =
     map_option (map_sum id (\<lambda>(r, buf'). (DataReply r buf', p))) (distfs_readlink img path buf n)"
| "fuse_call rd img u (Readdir path room offset) p =
     map_option (map_sum id (\<lambda>(r, l). (ListReply r l, p))) (distfs_readdir img path (fill_entry room) offset [])"
| "fuse_call rd img u (Getxattr path name buf n) p =
     map_option (map_sum id (\<lambda>(r, buf'). (DataReply r buf', p))) (distfs_getxattr img path name buf n u)"
| "fuse_call rd img u (Listxattr path buf n) p =
     map_option (map_sum id (\<lambda>(r, buf'). (DataReply r buf', p))) (distfs_listattr img path buf n u)"
| "fuse_call rd img u (OpenFile path flags) p =
     map_option (map_sum id (\<lambda>(r, fh). (HandleReply r fh, p))) (distfs_open img path flags 0)"
| "fuse_call rd img u (ReadFile fh buf n offset) p =
     map_option (\<lambda>(r, buf', p'). Inr (DataReply r buf', p')) (distfs_read rd img fh buf n offset p)"

subsection \<open>What the tree answers\<close>

text \<open>
  The specification. \<open>opened\<close> has the files of the handles that the kernel has been given, and
  \<open>content\<close> the bytes of a file. A path is absolute.
\<close>

definition file_at :: "tree \<Rightarrow> string \<Rightarrow> tree option" where
  "file_at t path = tree_lookup t (components [] (tl path))"

definition numbered :: "(string \<times> tree) list \<Rightarrow> listing" where
  "numbered es = map (\<lambda>(i, name, t). (name, stat_of (tree_attrs t), i + 1)) (enumerate 0 es)"

fun tree_answer :: "tree \<Rightarrow> (tree \<Rightarrow> bytes) \<Rightarrow> (nat \<rightharpoonup> tree) \<Rightarrow> fuse_request \<Rightarrow> fuse_reply \<Rightarrow> bool" where
  "tree_answer t content opened (Getattr path st) r =
     (r = (case file_at t path of None \<Rightarrow> StatReply (- ENOENT_no) st | Some f \<Rightarrow> StatReply 0 (stat_of (tree_attrs f))))"
| "tree_answer t content opened (Readlink path buf n) r =
     (case file_at t path of
        None \<Rightarrow> r = DataReply (- ENOENT_no) buf
      | Some (Lnk a xs target) \<Rightarrow>
          (case r of DataReply e buf' \<Rightarrow> e = 0 \<and> (length target < n - 1 \<longrightarrow> c_str buf' 0 = Some target) | _ \<Rightarrow> False)
      | Some _ \<Rightarrow> r = DataReply (- EINVAL_no) buf)"
| "tree_answer t content opened (Readdir path room offset) r =
     (r = (case file_at t path of
             None \<Rightarrow> ListReply (- ENOENT_no) []
           | Some (Dir a xs es) \<Rightarrow> ListReply 0 (take room (drop offset (numbered es)))
           | Some _ \<Rightarrow> ListReply (- ENOTDIR_no) []))"
| "tree_answer t content opened (Getxattr path name buf n) r =
     (r = (case file_at t path of
             None \<Rightarrow> DataReply (- ENOENT_no) buf
           | Some f \<Rightarrow>
               (case map_of (tree_xattrs f) name of
                  None \<Rightarrow> DataReply (- ENODATA_no) buf
                | Some v \<Rightarrow>
                    if n = 0 then DataReply (to_int (length v)) buf
                    else if n < length v then DataReply (- ERANGE_no) buf
                    else DataReply (to_int (length v)) (v @ drop (length v) buf))))"
| "tree_answer t content opened (Listxattr path buf n) r =
     (case file_at t path of
        None \<Rightarrow> r = DataReply (- ENOENT_no) buf
      | Some f \<Rightarrow>
          let names = name_list (map fst (tree_xattrs f))
          in if n = 0 then r = DataReply (to_int (length names)) buf
             else length names \<le> n \<longrightarrow> r = DataReply (to_int (length names)) (names @ drop (length names) buf))"
| "tree_answer t content opened (OpenFile path flags) r =
     (case r of
        HandleReply e fh \<Rightarrow>
          e = (if flags mod 4 \<noteq> 0 then -1 else case file_at t path of None \<Rightarrow> - ENOENT_no | Some f \<Rightarrow> 0)
      | _ \<Rightarrow> False)"
| "tree_answer t content opened (ReadFile fh buf n offset) r =
     (case opened fh of
        Some (Reg a xs fpos len) \<Rightarrow>
          r = DataReply (int (min (len - offset) n))
            (take n (drop offset (content (Reg a xs fpos len))) @ drop (min (len - offset) n) buf)
      | Some _ \<Rightarrow> r = DataReply (- EACCES_no) buf
      | None \<Rightarrow> True)"

fun opens :: "tree \<Rightarrow> (nat \<rightharpoonup> tree) \<Rightarrow> fuse_request \<Rightarrow> fuse_reply \<Rightarrow> (nat \<rightharpoonup> tree)" where
  "opens t opened (OpenFile path flags) (HandleReply e fh) = (if e = 0 then opened(fh := file_at t path) else opened)"
| "opens t opened q r = opened"

text \<open>
  What the kernel keeps to: paths are absolute C strings, buffers are as long as it says (for
  links longer by one character, which the code needs), offsets of listings fit 32 bits, reads
  use a handle it was given and stay inside the file.
\<close>

definition path_ok :: "string \<Rightarrow> bool" where
  "path_ok path \<longleftrightarrow> path \<noteq> [] \<and> hd path = CHR ''/'' \<and> CHR 0x00 \<notin> set path"

fun admissible :: "(nat \<rightharpoonup> tree) \<Rightarrow> fuse_request \<Rightarrow> bool" where
  "admissible opened (Getattr path st) = path_ok path"
| "admissible opened (Readlink path buf n) = (path_ok path \<and> 0 < n \<and> n < 2 ^ 64 \<and> n < length buf)"
| "admissible opened (Readdir path room offset) = (path_ok path \<and> offset < 2 ^ 32)"
| "admissible opened (Getxattr path name buf n) = (path_ok path \<and> CHR 0x00 \<notin> set name \<and> n \<le> length buf)"
| "admissible opened (Listxattr path buf n) = (path_ok path \<and> n \<le> length buf)"
| "admissible opened (OpenFile path flags) = path_ok path"
| "admissible opened (ReadFile fh buf n offset) =
     (case opened fh of None \<Rightarrow> False
      | Some (Reg a xs fpos len) \<Rightarrow> offset \<le> len \<and> n \<le> length buf \<and> n < 2 ^ 31
      | Some _ \<Rightarrow> True)"

text \<open>A read that fails; nothing else can, once a volume is mounted.\<close>

fun io_error :: "fuse_request \<Rightarrow> fuse_reply \<Rightarrow> bool" where
  "io_error (ReadFile fh buf n offset) (DataReply e buf') = (e = - EACCES_no)"
| "io_error _ _ = False"

subsection \<open>The callbacks answer like the tree\<close>

lemma path_okE:
  assumes "path_ok path"
  obtains p where "path = CHR ''/'' # p" and "CHR 0x00 \<notin> set p" and "file_at t path = tree_lookup t (components [] p)"
  using assms by (cases path) (auto simp: path_ok_def file_at_def)

lemma getattr_answer:
  assumes "represents img 8 t" and "plain_dirs t" and "path_ok path"
  shows "fuse_call rd img u (Getattr path st) p =
    Some (Inr (case file_at t path of None \<Rightarrow> StatReply (- ENOENT_no) st | Some f \<Rightarrow> StatReply 0 (stat_of (tree_attrs f)), p))"
proof -
  obtain q where q: "path = CHR ''/'' # q" "CHR 0x00 \<notin> set q" "file_at t path = tree_lookup t (components [] q)"
    using path_okE [OF assms(3)] by blast
  have "get_stat img path st = Some (Inr (case file_at t path of None \<Rightarrow> (NOT_FOUND, st) | Some f \<Rightarrow> (OK, stat_of (tree_attrs f))))"
    unfolding get_stat_def q(3) unfolding q(1) by (rule at_path_tree [OF assms(1,2) q(2)]) (simp add: get_stat_at_ok [OF represents_attrs])
  then show ?thesis by (simp add: distfs_getattr_def split: option.split)
qed

text \<open>Links: the C string in the kernel's buffer is the target when it fits.\<close>

lemma c_str_start: "CHR 0x00 \<notin> set s \<Longrightarrow> c_str (s @ CHR 0x00 # ys) 0 = Some s"
  by (induction s) (auto simp: c_str_def split: if_splits)

lemma not_lnk: "S_ISREG m \<Longrightarrow> \<not> S_ISLNK m" "S_ISDIR m \<Longrightarrow> \<not> S_ISLNK m" "S_ISLNK m \<Longrightarrow> \<not> S_ISREG m" "S_ISDIR m \<Longrightarrow> \<not> S_ISREG m"
  by (simp_all add: S_ISREG_def S_ISLNK_def S_ISDIR_def)

lemma symlink_answer:
  assumes "represents img 8 t" and "plain_dirs t" and "path_ok path" and "0 < n" and "n < 2 ^ 64" and "n < length buf"
  shows "\<exists>r. fuse_call rd img u (Readlink path buf n) p = Some (Inr (r, p)) \<and> tree_answer t content opened (Readlink path buf n) r"
proof -
  obtain q where q: "path = CHR ''/'' # q" "CHR 0x00 \<notin> set q" "file_at t path = tree_lookup t (components [] q)"
    using path_okE [OF assms(3)] by blast
  note at = at_path_ok [OF assms(1,2) q(2), where f = "\<lambda>offset. do {
       mode \<leftarrow> n_mode img offset;
       if \<not> S_ISLNK mode then Some (BAD_TYPE, buf)
       else do {
         t \<leftarrow> n_data_offset img offset;
         target \<leftarrow> c_str img t;
         buff' \<leftarrow> strncpy buf 0 target (wrap 64 (int n - 1));
         buff'' \<leftarrow> blit buff' n [CHR 0x00];
         Some (if length target > n then TOO_LONG else OK, buff'')
       }
     }" and r = buf, folded get_symlink_def q(1,3)]
  show ?thesis
  proof (cases "file_at t path")
    case None
    then show ?thesis using at by (simp add: distfs_readlink_def)
  next
    case (Some f)
    then obtain k where k: "represents img k f" "get_symlink img path n buf = map_option Inr (do {
         mode \<leftarrow> n_mode img k;
         if \<not> S_ISLNK mode then Some (BAD_TYPE, buf)
         else do {
           t \<leftarrow> n_data_offset img k;
           target \<leftarrow> c_str img t;
           buff' \<leftarrow> strncpy buf 0 target (wrap 64 (int n - 1));
           buff'' \<leftarrow> blit buff' n [CHR 0x00];
           Some (if length target > n then TOO_LONG else OK, buff'')
         }
       })"
      using at by auto
    show ?thesis
    proof (cases "\<exists>a xs target. f = Lnk a xs target")
      case True
      then obtain a xs target where f: "f = Lnk a xs target" by blast
      have "CHR 0x00 \<notin> set target" using k(1) unfolding f by (auto elim!: represents_LnkE dest: c_str_no_nul)
      moreover have "replicate (n - 1 - length target) (CHR 0x00) = CHR 0x00 # replicate (n - 2 - length target) (CHR 0x00)"
        if "length target < n - 1"
        using that by (metis Suc_diff_Suc diff_diff_left diff_less_mono2 not_less_eq numeral_2_eq_2 One_nat_def plus_1_eq_Suc replicate_Suc zero_less_diff)
      ultimately show ?thesis
        using Some k(2) get_symlink_at_ok [of img k a xs target n buf] k(1) assms(4-6)
        by (auto simp: f distfs_readlink_def c_str_start)
    next
      case False
      then have "get_symlink img path n buf = Some (Inr (BAD_TYPE, buf))"
        using k by (auto elim!: represents.cases simp: attrs_at_def not_lnk)
      then show ?thesis using Some False by (cases f) (simp_all add: distfs_readlink_def)
    qed
  qed
qed

text \<open>Listings.\<close>

definition numbered_from :: "nat \<Rightarrow> (string \<times> tree) list \<Rightarrow> listing" where
  "numbered_from k es = map (\<lambda>(i, name, t). (name, stat_of (tree_attrs t), i + 1)) (enumerate k es)"

lemma numbered_from_simps [simp]:
  "numbered_from k [] = []"
  "numbered_from k (e # es) = (fst e, stat_of (tree_attrs (snd e)), k + 1) # numbered_from (Suc k) es"
  by (simp_all add: numbered_from_def case_prod_beta)

lemma drop_numbered: "drop k (numbered es) = numbered_from k (drop k es)"
proof -
  have "drop k (numbered_from i es) = numbered_from (i + k) (drop k es)" for i
  proof (induction k arbitrary: i es)
    case (Suc k)
    then show ?case by (cases es) auto
  qed simp
  from this [of 0] show ?thesis by (simp add: numbered_def numbered_from_def)
qed

lemma list_until_fill:
  assumes "length l \<le> room"
  shows "snd (list_until (\<lambda>name st (off, buf). case fill_entry room name st (off + 1) buf of (full, buf') \<Rightarrow> (full \<noteq> 0, off + 1, buf'))
    es (k, l)) = l @ take (room - length l) (numbered_from k es)"
  using assms
proof (induction es arbitrary: k l)
  case (Cons e es)
  show ?case
  proof (cases "length l < room")
    case True
    then have "room - length l = Suc (room - Suc (length l))" by simp
    then show ?thesis using True Cons.IH [of "l @ [(fst e, stat_of (tree_attrs (snd e)), Suc k)]" "Suc k"] by (simp add: fill_entry_def)
  qed (use Cons.prems in \<open>simp add: fill_entry_def\<close>)
qed simp

lemma readdir_answer:
  assumes "represents img 8 t" and "plain_dirs t" and "path_ok path" and "offset < 2 ^ 32"
  shows "fuse_call rd img u (Readdir path room offset) p =
    Some (Inr (case file_at t path of None \<Rightarrow> ListReply (- ENOENT_no) []
       | Some (Dir a xs es) \<Rightarrow> ListReply 0 (take room (drop offset (numbered es))) | Some _ \<Rightarrow> ListReply (- ENOTDIR_no) [], p))"
proof -
  obtain q where q: "path = CHR ''/'' # q" "CHR 0x00 \<notin> set q" "file_at t path = tree_lookup t (components [] q)"
    using path_okE [OF assms(3)] by blast
  have "get_dir img path (wrap 32 (int offset)) f acc = Some (Inr (case file_at t path of
        None \<Rightarrow> (NOT_FOUND, acc)
      | Some f' \<Rightarrow> (case f' of Dir a xs es \<Rightarrow> (OK, list_until f (drop offset es) acc) | _ \<Rightarrow> (BAD_TYPE, acc))))"
    for f :: "string \<Rightarrow> stat \<Rightarrow> nat \<times> listing \<Rightarrow> bool \<times> nat \<times> listing" and acc
    unfolding get_dir_def q(3) wrap_of_nat [OF assms(4)] unfolding q(1)
    by (rule at_path_tree [OF assms(1,2) q(2)]) (rule get_dir_at_ok)
  then show ?thesis
    using list_until_fill [of "[]" room _ offset] by (simp add: distfs_readdir_def drop_numbered case_prod_beta split: option.split tree.split)
qed

text \<open>Attributes.\<close>

lemma getxattr_answer:
  assumes "represents img 8 t" and "plain_dirs t" and "path_ok path" and "CHR 0x00 \<notin> set name" and "n \<le> length buf"
  shows "\<exists>r. fuse_call rd img u (Getxattr path name buf n) p = Some (Inr (r, p)) \<and>
    tree_answer t content opened (Getxattr path name buf n) r"
proof -
  obtain q where q: "path = CHR ''/'' # q" "CHR 0x00 \<notin> set q" "file_at t path = tree_lookup t (components [] q)"
    using path_okE [OF assms(3)] by blast
  have "get_xattr img path name buf n u = Some (Inr (case file_at t path of
        None \<Rightarrow> (NOT_FOUND, buf, u)
      | Some f \<Rightarrow> (case map_of (tree_xattrs f) name of
          None \<Rightarrow> (NO_DATA, buf, u)
        | Some v \<Rightarrow> if n = 0 then (OK, buf, length v)
            else if length v > n then (TOO_LONG, buf, length v)
            else (OK, v @ drop (length v) buf, length v))))"
    unfolding get_xattr_def q(3) unfolding q(1)
    by (rule at_path_tree [OF assms(1,2) q(2)]) (rule get_xattr_at_ok [OF _ assms(4,5)])
  then show ?thesis by (auto simp: distfs_getxattr_def split: option.split)
qed

lemma list_names_defined:
  assumes "list_all2 (entry_named img ents) is ns" and "at_pos + k \<le> length buf"
  shows "\<exists>err buf' len'. list_names img ents is buf at_pos k len = Some (err, buf', len')"
  using assms
proof (induction arbitrary: buf at_pos k len)
  case (Cons i "is" n ns)
  obtain no where no: "e_name_offset img ents i = Some no" "c_str img no = Some n"
    using Cons.hyps(1) by (auto simp: entry_named_def)
  show ?case
  proof (cases "k = 0 \<or> k < length n + 1")
    case True
    then show ?thesis using no Cons.IH [of at_pos 0 buf] Cons.prems by (auto simp: Let_def)
  next
    case False
    then have "strncpy buf at_pos n (length n + 1) = Some (take at_pos buf @ (n @ [CHR 0x00]) @ drop (at_pos + (length n + 1)) buf)"
      using Cons.prems by (simp add: strncpy_def blit_def)
    then show ?thesis
      using no False Cons.prems
        Cons.IH [of "at_pos + (length n + 1)" "k - (length n + 1)" "take at_pos buf @ (n @ [CHR 0x00]) @ drop (at_pos + (length n + 1)) buf"]
      by (simp add: Let_def)
  qed
qed simp

lemma listxattr_answer:
  assumes "represents img 8 t" and "plain_dirs t" and "path_ok path" and "n \<le> length buf"
  shows "\<exists>r. fuse_call rd img u (Listxattr path buf n) p = Some (Inr (r, p)) \<and>
    tree_answer t content opened (Listxattr path buf n) r"
proof -
  obtain q where q: "path = CHR ''/'' # q" "CHR 0x00 \<notin> set q" "file_at t path = tree_lookup t (components [] q)"
    using path_okE [OF assms(3)] by blast
  note at = at_path_ok [OF assms(1,2) q(2), where f = "\<lambda>offset. do {
       count \<leftarrow> n_xattrs_count img offset;
       list_names img (offset + NODE_SIZE) [0..<count] buf 0 n 0
     }" and r = "(buf, u)", folded list_xattr_def q(1,3)]
  show ?thesis
  proof (cases "file_at t path")
    case None
    then show ?thesis using at by (simp add: distfs_listattr_def)
  next
    case (Some f)
    let ?ns = "map fst (tree_xattrs f)"
    obtain k where k: "represents img k f" "list_xattr img path buf n u = map_option Inr (do {
         count \<leftarrow> n_xattrs_count img k;
         list_names img (k + NODE_SIZE) [0..<count] buf 0 n 0
       })" using at Some by auto
    have x: "xattrs_at img k (tree_xattrs f)" by (rule represents_xattrs [OF k(1)])
    have names: "list_all2 (entry_named img (k + NODE_SIZE)) [0..<length (tree_xattrs f)] ?ns"
      using x by (auto simp: xattrs_at_def table_at_def entry_named_def list_all2_conv_all_nth)
    obtain err buf' len' where l: "list_xattr img path buf n u = Some (Inr (err, buf', len'))"
      using list_names_defined [OF names, of 0 n buf 0] assms(4) x k(2) by (auto simp: xattrs_at_def)
    have "list_xattr img path buf n u = Some (Inr (OK, name_list ?ns @ drop (length (name_list ?ns)) buf, length (name_list ?ns)))"
      if "length (name_list ?ns) \<le> n"
      using list_xattr_at_ok [OF k(1), of ?ns "[]" n buf] that assms(4) by (simp add: k(2))
    moreover have "list_xattr img path buf n u = Some (Inr (OK, buf, length (name_list ?ns)))" if "n = 0"
      unfolding k(2) using list_xattr_at_ok [OF k(1), of "[]" ?ns n buf] that by simp
    ultimately show ?thesis using l Some by (auto simp: distfs_listattr_def Let_def)
  qed
qed

text \<open>Opening and reading. The handle of a file is the address of its node.\<close>

definition handles_ok :: "bytes \<Rightarrow> tree \<Rightarrow> (nat \<rightharpoonup> tree) \<Rightarrow> bool" where
  "handles_ok img t opened \<longleftrightarrow>
     (\<forall>fh f. opened fh = Some f \<longrightarrow> represents img fh f \<and> (\<exists>ns. tree_lookup t ns = Some f))"

lemma open_answer:
  assumes "represents img 8 t" and "plain_dirs t" and "path_ok path" and "handles_ok img t opened"
  shows "\<exists>r. fuse_call rd img u (OpenFile path flags) p = Some (Inr (r, p)) \<and>
    tree_answer t content opened (OpenFile path flags) r \<and> handles_ok img t (opens t opened (OpenFile path flags) r)"
proof -
  obtain q where q: "path = CHR ''/'' # q" "CHR 0x00 \<notin> set q" "file_at t path = tree_lookup t (components [] q)"
    using path_okE [OF assms(3)] by blast
  have w: "case file_at t path of None \<Rightarrow> \<exists>fh. get_node_offset img path = Some (Inr (NOT_FOUND, fh))
    | Some f \<Rightarrow> \<exists>fh. get_node_offset img path = Some (Inr (OK, fh)) \<and> represents img fh f"
    using walk_ok [OF assms(1,2), of "[]" q] q by (auto simp: get_node_offset_def split: option.splits)
  show ?thesis
  proof (cases "flags mod 4 = 0")
    case False
    then show ?thesis using assms(4) by (simp add: distfs_open_def)
  next
    case True
    show ?thesis
    proof (cases "file_at t path")
      case None
      then obtain fh where "get_node_offset img path = Some (Inr (NOT_FOUND, fh))" using w by auto
      then show ?thesis using True None assms(4) by (auto simp: distfs_open_def get_offset_def ENOENT_no_def)
    next
      case (Some f)
      then obtain fh where "get_node_offset img path = Some (Inr (OK, fh))" "represents img fh f" using w by auto
      moreover have "handles_ok img t (opened(fh := Some f))"
        using assms(4) calculation(2) Some q(3) by (auto simp: handles_ok_def)
      ultimately show ?thesis using True Some by (simp add: distfs_open_def get_offset_def)
    qed
  qed
qed

text \<open>The bytes of a file, and a tree whose files lie in the first \<open>m\<close> chunks or are empty.\<close>

fun volume_content :: "(nat \<rightharpoonup> bytes) \<Rightarrow> tree \<Rightarrow> bytes" where
  "volume_content T (Reg a xs fpos len) = volume_bytes T fpos len"
| "volume_content T f = []"

definition files_within :: "nat \<Rightarrow> tree \<Rightarrow> bool" where
  "files_within m t \<longleftrightarrow>
     (\<forall>ns a xs fpos len. tree_lookup t ns = Some (Reg a xs fpos len) \<longrightarrow>
        len = 0 \<and> fpos < 2 ^ 64 \<or> fpos + len \<le> m * CHUNK_SIZE_BYTES)"

lemma not_reg_denied:
  assumes "represents img fh f" and "\<not> (\<exists>a xs fpos len. f = Reg a xs fpos len)"
  shows "distfs_read rd img fh buf n offset p = Some (- EACCES_no, buf, p)"
  using assms by (cases rule: represents.cases) (auto simp: distfs_read_def get_file_position_at_def attrs_at_def not_lnk)

context chunk_reader
begin

lemma read_answer:
  assumes h: "handles_ok img t opened" "files_within chunks t" and p: "inv p" "full_volume T"
    and adm: "admissible opened (ReadFile fh buf n offset)"
  shows "\<exists>r p'. fuse_call (dp_read read_chunk junk) img u (ReadFile fh buf n offset) p = Some (Inr (r, p')) \<and> inv p' \<and>
    (tree_answer t (volume_content T) opened (ReadFile fh buf n offset) r \<or>
     io_error (ReadFile fh buf n offset) r \<and> \<not> (\<forall>i < chunks. present p i))"
proof -
  obtain f where f: "opened fh = Some f" "represents img fh f" using adm h(1) by (auto simp: handles_ok_def split: option.splits)
  show ?thesis
  proof (cases "\<exists>a xs fpos len. f = Reg a xs fpos len")
    case False
    then show ?thesis using f p not_reg_denied [OF f(2) False, of "dp_read read_chunk junk" buf n offset p] by (cases f) simp_all
  next
    case True
    then obtain a xs fpos len where reg: "f = Reg a xs fpos len" by blast
    obtain ns where "tree_lookup t ns = Some f" using h(1) f(1) unfolding handles_ok_def by blast
    then have r: "len = 0 \<and> fpos < 2 ^ 64 \<or> fpos + len \<le> chunks * CHUNK_SIZE_BYTES" using h(2) unfolding reg files_within_def by blast
    have b: "offset \<le> len" "n \<le> length buf" "n < 2 ^ 31" using f(1) adm reg by auto
    define k where "k = min (len - offset) n"
    have C: "(2::nat) ^ 32 * CHUNK_SIZE_BYTES < 2 ^ 64" by (simp add: CHUNK_SIZE_BYTES_def)
    have pos: "fpos + offset < 2 ^ 64" "len < 2 ^ 64" using r b(1) chunks_bytes C by (elim disjE; linarith)+
    have k: "offset + k \<le> len" "k < 2 ^ 31" "k \<le> length buf" using b unfolding k_def by linarith+
    have w: "wrap 64 (int len - int offset) = len - offset" by (rule wrap_diff [OF b(1) pos(2)])
    have "\<exists>err buf' p'. dp_read read_chunk junk (fpos + offset) buf k p = Some (err, buf', p') \<and> inv p' \<and>
        (err = OK \<longrightarrow> buf' = volume_bytes T (fpos + offset) k @ drop k buf) \<and> ((\<forall>i < chunks. present p i) \<longrightarrow> err = OK)"
    proof (cases "k = 0")
      case True
      then show ?thesis using p(1) by (simp add: dp_read_def dp_loop.simps volume_bytes_def)
    next
      case False
      then have within: "fpos + offset + k \<le> chunks * CHUNK_SIZE_BYTES" using r k(1) by linarith
      have "j < chunks" if "j * CHUNK_SIZE_BYTES < fpos + offset + k" for j
      proof -
        have "j * CHUNK_SIZE_BYTES < chunks * CHUNK_SIZE_BYTES" using that within by linarith
        then show ?thesis by simp
      qed
      moreover have "fpos + offset < 2 ^ 32 * CHUNK_SIZE_BYTES" using within False chunks_bytes by linarith
      ultimately show ?thesis using data_read_ok [OF p k(3) within, of junk] by blast
    qed
    then obtain err buf' p' where rd: "dp_read read_chunk junk (fpos + offset) buf k p = Some (err, buf', p')" "inv p'"
        "err = OK \<longrightarrow> buf' = volume_bytes T (fpos + offset) k @ drop k buf" "(\<forall>i < chunks. present p i) \<longrightarrow> err = OK"
      by blast
    have "volume_bytes T (fpos + offset) k = take n (drop offset (volume_bytes T fpos len))"
      using volume_bytes_part [OF k(1), of T fpos] by (simp add: k_def min_def)
    then have "buf' = take n (drop offset (volume_bytes T fpos len)) @ drop k buf" if "err = OK" using rd(3) that by simp
    moreover have "fuse_call (dp_read read_chunk junk) img u (ReadFile fh buf n offset) p =
        Some (Inr (DataReply (if err = OK then int k else - EACCES_no) buf', p'))"
      using rd(1) k(2) unfolding fuse_call.simps read_of_node [OF f(2) [unfolded reg] pos(1)] w Let_def k_def [symmetric] by simp
    ultimately show ?thesis using rd(2,4) f(1) unfolding reg by (cases "err = OK") (auto simp: k_def)
  qed
qed

lemma call_answer:
  assumes t: "represents img 8 t" "plain_dirs t" and h: "handles_ok img t opened" "files_within chunks t"
    and p: "inv p" "full_volume T" and adm: "admissible opened q"
  shows "\<exists>r p'. fuse_call (dp_read read_chunk junk) img u q p = Some (Inr (r, p')) \<and> handles_ok img t (opens t opened q r) \<and> inv p' \<and>
    (tree_answer t (volume_content T) opened q r \<or> io_error q r \<and> \<not> (\<forall>i < chunks. present p i))"
proof -
  let ?rd = "dp_read read_chunk junk"
  have quiet: ?thesis
    if "\<exists>r. fuse_call ?rd img u q p = Some (Inr (r, p)) \<and> tree_answer t (volume_content T) opened q r \<and>
      handles_ok img t (opens t opened q r)"
    using that p by blast
  show ?thesis
  proof (cases q)
    case (Getattr path st)
    then show ?thesis using adm h(1) getattr_answer [where rd = ?rd and p = p, OF t, of path u st]
      by (intro quiet) (auto simp del: fuse_call.simps)
  next
    case (Readlink path buf n)
    then show ?thesis using adm h(1) symlink_answer [where rd = ?rd and p = p, OF t, of path n buf u "volume_content T" opened]
      by (intro quiet) (auto simp del: fuse_call.simps tree_answer.simps)
  next
    case (Readdir path room offset)
    then show ?thesis using adm h(1) readdir_answer [where rd = ?rd and p = p, OF t, of path offset u room]
      by (intro quiet) (auto simp del: fuse_call.simps)
  next
    case (Getxattr path name buf n)
    then show ?thesis using adm h(1) getxattr_answer [where rd = ?rd and p = p, OF t, of path name n buf u "volume_content T" opened]
      by (intro quiet) (auto simp del: fuse_call.simps tree_answer.simps)
  next
    case (Listxattr path buf n)
    then show ?thesis using adm h(1) listxattr_answer [where rd = ?rd and p = p, OF t, of path n buf u "volume_content T" opened]
      by (intro quiet) (auto simp del: fuse_call.simps tree_answer.simps)
  next
    case (OpenFile path flags)
    then have "path_ok path" using adm by simp
    from open_answer [where rd = ?rd and p = p and u = u and flags = flags and content = "volume_content T", OF t this h(1)] show ?thesis unfolding OpenFile [symmetric] by (rule quiet)
  next
    case (ReadFile fh buf n offset)
    with adm have "admissible opened (ReadFile fh buf n offset)" by simp
    from read_answer [OF h p this] show ?thesis using h(1) unfolding ReadFile opens.simps by blast
  qed
qed

end

end
