(* ===== verification/Distfs_Service.thy ===== *)
theory Distfs_Service
  imports Chunk_Transfer
begin

text \<open>
  network/distfs_service.cc: the calls a node answers (GetChunk is in \<open>Chunk_Transfer\<close>), and
  network/distfs_bootstrap.cc: how a new node gets the description of the volume. \<open>peer\<close> is
  \<^verbatim>\<open>context->peer()\<close>, \<open>avail\<close> the set \<^verbatim>\<open>store.available()\<close>.
\<close>

subsection \<open>The address of a peer\<close>

text \<open>\<^verbatim>\<open>std::to_string\<close> of an unsigned number.\<close>

fun decimal :: "nat \<Rightarrow> string" where
  "decimal n = (if n < 10 then [char_of (48 + n)] else decimal (n div 10) @ [char_of (48 + n mod 10)])"

declare decimal.simps [simp del]

text \<open>\<^verbatim>\<open>s.substr(0, s.find_last_of(':') + 1)\<close>, where \<^verbatim>\<open>npos + 1\<close> is 0.\<close>

definition upto_last_colon :: "string \<Rightarrow> string" where
  "upto_last_colon s = rev (dropWhile (\<lambda>c. c \<noteq> CHR '':'') (rev s))"

text \<open>
  The address a peer listens on: gRPC's \<^verbatim>\<open>ipv4:\<close> or \<^verbatim>\<open>ipv6:\<close> is cut off and the port is
  replaced by the one the peer announces. \<^verbatim>\<open>substr\<close> throws if the string is shorter.
\<close>

definition listen_address :: "string \<Rightarrow> nat \<Rightarrow> string option" where
  "listen_address peer port =
     (let from = (if take 2 peer = ''ip'' then 5 else 0)
      in if from > length peer then None else Some (upto_last_colon (drop from peer) @ decimal port))"

subsection \<open>The calls\<close>

text \<open>The result \<open>Inl\<close> is an exception.\<close>

definition InfoExchange ::
    "('stub, 'e) net \<Rightarrow> nat set \<Rightarrow> string \<Rightarrow> Info \<Rightarrow> 'stub pool \<Rightarrow> 'e \<Rightarrow>
     (string + Status \<times> Info option \<times> 'stub pool \<times> 'e) option" where
  "InfoExchange net avail peer request p e =
     (if i_fs_id request \<noteq> md_id (metadata p) then Some (Inr (StUnavailable, None, p, e))
      else case listen_address peer (i_listen_port request) of
             None \<Rightarrow> Some (Inl ''out_of_range'')
           | Some u \<Rightarrow> do {
               (p', e') \<leftarrow> info_from net u (i_node_id request) (availability_of_bitmask (i_available request)) p e;
               response \<leftarrow> info_request avail p';
               Some (Inr (StOK, Some response, p', e'))
             })"

definition PeerExchange ::
    "('stub, 'e) net \<Rightarrow> PeerList \<Rightarrow> 'stub pool \<Rightarrow> 'e \<Rightarrow> (Status \<times> PeerList \<times> 'stub pool \<times> 'e) option" where
  "PeerExchange net request p e = do {
     (out, p', e') \<leftarrow> pex_from net (pl_node_id request) (pl_peer request) p e;
     Some (StOK, \<lparr>pl_node_id = node_id p, pl_peer = out\<rparr>, p', e')
   }"

record Metadata =
  m_fs_id :: nat
  m_node_id :: nat
  m_block_hash :: "string list"

definition GetMetadata :: "'stub pool \<Rightarrow> Metadata" where
  "GetMetadata p = \<lparr>m_fs_id = md_id (metadata p), m_node_id = node_id p, m_block_hash = md_hashes (metadata p)\<rparr>"

text \<open>
  \<^verbatim>\<open>DistfsBootstrap::fetch_metadata\<close>; \<open>call_metadata\<close> is \<^verbatim>\<open>stub->GetMetadata\<close>. The stub becomes the
  bootstrap peer of the metadata.
\<close>

definition fetch_metadata ::
    "('stub, 'e) net \<Rightarrow> ('stub \<Rightarrow> 'e \<Rightarrow> Metadata option \<times> 'e) \<Rightarrow> string \<Rightarrow> 'e \<Rightarrow>
     (string + DistfsMetadata \<times> 'stub) \<times> 'e" where
  "fetch_metadata net call_metadata peer e =
     (case connect net peer e of
        (None, e1) \<Rightarrow> (Inl ''Unable to connect to specified peer'', e1)
      | (Some st, e1) \<Rightarrow>
          (case call_metadata st e1 of
             (None, e2) \<Rightarrow> (Inl ''Unable to fetch metadata'', e2)
           | (Some response, e2) \<Rightarrow>
               (Inr (\<lparr>md_peer = peer, md_id = m_fs_id response, md_node_id = m_node_id response,
                      md_hashes = m_block_hash response\<rparr>, st), e2)))"

subsection \<open>Addresses\<close>

lemma upto_last_colon_append:
  assumes "CHR '':'' \<notin> set b"
  shows "upto_last_colon (a @ CHR '':'' # b) = a @ [CHR '':'']"
proof -
  have "dropWhile (\<lambda>c. c \<noteq> CHR '':'') (rev b @ CHR '':'' # rev a) = CHR '':'' # rev a"
    using assms by (subst dropWhile_append2) auto
  then show ?thesis by (simp add: upto_last_colon_def)
qed

lemma listen_address_ipv4:
  assumes "CHR '':'' \<notin> set port"
  shows "listen_address (''ipv4:'' @ host @ CHR '':'' # port) n = Some (host @ CHR '':'' # decimal n)"
  using upto_last_colon_append [OF assms, of host] by (simp add: listen_address_def)

subsection \<open>What an exchange of infos conveys\<close>

lemma update_info_known:
  assumes "\<exists>c \<in> set cs. n_id c = nid"
  shows "\<exists>cs' e'. update_info net nid a cs e = (True, cs', e') \<and> (\<exists>c \<in> set cs'. n_id c = nid \<and> availability c = a)"
  using assms
proof (induction cs arbitrary: e)
  case Nil
  then show ?case by simp
next
  case (Cons c cs)
  show ?case
  proof (cases "n_id c = nid")
    case True
    obtain t e1 where "clock net e = (t, e1)" by fastforce
    then show ?thesis using True by simp
  next
    case False
    then have "\<exists>c \<in> set cs. n_id c = nid" using Cons.prems by auto
    from Cons.IH [OF this, of e] obtain cs' e' where
      "update_info net nid a cs e = (True, cs', e')" "\<exists>c \<in> set cs'. n_id c = nid \<and> availability c = a" by blast
    then show ?thesis using False by auto
  qed
qed

lemma fifo_push_member: "0 < m \<Longrightarrow> x \<in> set (fifo_push m x xs)"
  by (auto simp: fifo_push_def)

lemma info_from_effect:
  assumes "pool_inv p" and "0 < os_max_size (peer_candidates p)"
  shows "\<exists>p' e'. info_from net u nid a p e = Some (p', e') \<and> pool_inv p' \<and> metadata p' = metadata p \<and>
    (u \<in> active_peers p' \<or> u \<in> set (os_iterators (peer_candidates p'))) \<and>
    ((\<exists>c \<in> set (connections p). n_id c = nid) \<longrightarrow> (\<exists>c \<in> set (connections p'). n_id c = nid \<and> availability c = a))"
proof -
  obtain p' e' where i: "info_from net u nid a p e = Some (p', e')" "pool_inv p'"
    using info_from_ok [OF assms(1), of net u nid a e] by blast
  obtain q where q: "push_strangers (active_peers p) [u] (peer_candidates p) = Some q"
    using i(1) by (cases "push_strangers (active_peers p) [u] (peer_candidates p)")
      (auto simp: info_from_def simp del: push_strangers.simps)
  obtain ch cs e1 where c: "update_info net nid a (connections p) e = (ch, cs, e1)"
    by (cases "update_info net nid a (connections p) e") auto
  have p': "p' = p\<lparr>peer_candidates := q, connections := (if ch then sort_connections cs else cs)\<rparr>"
    using i(1) q c by (simp add: info_from_def del: push_strangers.simps)
  have "u \<in> active_peers p \<or> u \<in> set (os_iterators q)"
  proof (cases "u \<in> active_peers p")
    case False
    have "os_inv (peer_candidates p)" using assms(1) by (simp add: pool_inv_def peers_ok_def)
    from os_push_fifo [OF this, of u] obtain q' where "os_push u (peer_candidates p) = Some (u \<notin> set (os_iterators (peer_candidates p)), q')"
      "os_iterators q' = fifo_push (os_max_size (peer_candidates p)) u (os_iterators (peer_candidates p))" by blast
    then show ?thesis using q False fifo_push_member [OF assms(2)] by simp
  qed simp
  moreover have "(\<exists>c \<in> set (connections p). n_id c = nid) \<longrightarrow> (\<exists>c \<in> set (connections p'). n_id c = nid \<and> availability c = a)"
    using update_info_known [of "connections p" nid net a e] c by (auto simp: p')
  ultimately show ?thesis using i by (simp add: p')
qed

subsection \<open>Properties\<close>

text \<open>
  C26: When a node sends its info to a node of the same volume, both sides learn exactly which
  chunks the other one has: the receiver updates its connection to the sender, if there is one,
  and answers with its own set, and it knows the address the sender listens on from then on, as
  a connected peer or as a candidate. The receiver's pool stays consistent.
\<close>

theorem info_exchange_conveys_chunks:
  assumes "pool_inv p" and "0 < os_max_size (peer_candidates p)"
    and "info_request sender_chunks sender = Some request" and "md_id (metadata sender) = md_id (metadata p)"
    and "sender_chunks \<subseteq> {..<2 ^ 32}" and "avail \<subseteq> {..<2 ^ 32}" and "bitmask (ChunkAvailability avail) \<noteq> None"
    and "CHR '':'' \<notin> set port"
  shows "\<exists>response p' e'. InfoExchange net avail (''ipv4:'' @ host @ CHR '':'' # port) request p e =
      Some (Inr (StOK, Some response, p', e')) \<and> pool_inv p' \<and>
    availability_of_bitmask (i_available response) = ChunkAvailability avail \<and>
    (let u = host @ CHR '':'' # decimal (listen_port sender)
     in u \<in> active_peers p' \<or> u \<in> set (os_iterators (peer_candidates p'))) \<and>
    ((\<exists>c \<in> set (connections p). n_id c = node_id sender) \<longrightarrow>
     (\<exists>c \<in> set (connections p'). n_id c = node_id sender \<and> availability c = ChunkAvailability sender_chunks))"
proof -
  have req: "i_fs_id request = md_id (metadata p)" "i_listen_port request = listen_port sender"
    "i_node_id request = node_id sender"
    "availability_of_bitmask (i_available request) = ChunkAvailability sender_chunks"
    using assms(3,4,5) bitmask_received by (auto simp: info_request_def)
  let ?u = "host @ CHR '':'' # decimal (listen_port sender)"
  obtain p' e' where i: "info_from net ?u (node_id sender) (ChunkAvailability sender_chunks) p e = Some (p', e')" "pool_inv p'"
      "?u \<in> active_peers p' \<or> ?u \<in> set (os_iterators (peer_candidates p'))"
      "(\<exists>c \<in> set (connections p). n_id c = node_id sender) \<longrightarrow>
         (\<exists>c \<in> set (connections p'). n_id c = node_id sender \<and> availability c = ChunkAvailability sender_chunks)"
    using info_from_effect [OF assms(1,2), of net ?u "node_id sender" "ChunkAvailability sender_chunks" e] by blast
  obtain mask where m: "bitmask (ChunkAvailability avail) = Some mask" using assms(7) by blast
  obtain response where r: "info_request avail p' = Some response" "i_available response = mask"
    using m by (simp add: info_request_def)
  show ?thesis
    using i r req listen_address_ipv4 [OF assms(8), of host "listen_port sender"] bitmask_received [OF m] assms(6)
    by (simp add: InfoExchange_def Let_def)
qed

theorem info_exchange_conveys_chunks_witness:
  "\<exists>request response p' e'. info_request {1} (fetching_pool\<lparr>node_id := 7\<rparr>) = Some request \<and>
     InfoExchange faulty_net {3} ''ipv4:10.0.0.1:99'' request fetching_pool 0 = Some (Inr (StOK, Some response, p', e')) \<and>
     availability_of_bitmask (i_available response) = ChunkAvailability {3} \<and>
     (\<exists>c \<in> set (connections p'). n_id c = 7 \<and> availability c = ChunkAvailability {1})"
proof -
  have masks: "bitmask (ChunkAvailability {3}) \<noteq> None" "bitmask (ChunkAvailability {1}) \<noteq> None" by code_simp+
  then obtain request where req: "info_request {1} (fetching_pool\<lparr>node_id := 7\<rparr>) = Some request"
    by (auto simp: info_request_def)
  have inv: "pool_inv fetching_pool" "0 < os_max_size (peer_candidates fetching_pool)"
    by (simp_all add: fetching_pool_def pool_inv_def peers_ok_def new_connection_def os_new_def os_inv_def)
  have "\<exists>c \<in> set (connections fetching_pool). n_id c = 7" by (simp add: fetching_pool_def new_connection_def)
  then show ?thesis
    using info_exchange_conveys_chunks [OF inv req _ _ _ masks(1), of "''99''" faulty_net "''10.0.0.1''" 0] req
    by (auto simp: Let_def)
qed

end
