(* ===== verification/Distfs_Node.thy ===== *)
theory Distfs_Node
  imports Distfs_Service
begin

text \<open>
  network/distfs_server.cc: a node that serves a volume. The gRPC server hands the requests of
  the peers to the DistfsService in any order, the worker of the ConnectionPool runs beside it,
  and the node itself fetches and reads chunks; a step is one such operation as a whole.
\<close>

subsection \<open>Requests and replies\<close>

datatype request =
    InfoRequest string Info
  | PeerRequest PeerList
  | MetadataRequest
  | ChunkRequest nat nat

datatype reply =
    InfoReply Status "Info option"
  | PeerReply Status PeerList
  | MetadataReply Metadata
  | ChunkReply Status "bytes list"

text \<open>The stream of a client that takes \<open>n\<close> parts of a chunk and then closes it.\<close>

definition take_part :: "nat \<Rightarrow> bytes list \<Rightarrow> bytes \<Rightarrow> bool \<times> bytes list" where
  "take_part n parts d = (if length parts < n then (True, parts @ [d]) else (False, parts))"

record 'stub node =
  n_store :: chunk_store
  n_pool :: "'stub pool"

text \<open>
  One request, given to the service over the store and the pool of the node; \<open>junk\<close> is what the
  uninitialised size in \<^verbatim>\<open>GetChunk\<close> holds. The result \<open>Inl\<close> is an exception.
\<close>

fun serve_request ::
    "('stub, 'e) net \<Rightarrow> nat \<Rightarrow> request \<Rightarrow> 'stub node \<Rightarrow> 'e \<Rightarrow> (string + reply \<times> 'stub node \<times> 'e) option" where
  "serve_request net junk (InfoRequest peer request) n e =
     map_option (map_sum id (\<lambda>(status, response, p, e'). (InfoReply status response, n\<lparr>n_pool := p\<rparr>, e')))
       (InfoExchange net (store_available (n_store n)) peer request (n_pool n) e)"
| "serve_request net junk (PeerRequest request) n e =
     map_option (\<lambda>(status, response, p, e'). Inr (PeerReply status response, n\<lparr>n_pool := p\<rparr>, e'))
       (PeerExchange net request (n_pool n) e)"
| "serve_request net junk MetadataRequest n e = Some (Inr (MetadataReply (GetMetadata (n_pool n)), n, e))"
| "serve_request net junk (ChunkRequest i k) n e =
     map_option (\<lambda>(status, parts, s). Inr (ChunkReply status parts, n\<lparr>n_store := s\<rparr>, e))
       (GetChunk store_read_chunk (take_part k) junk i [] (n_store n))"

subsection \<open>The steps of a node\<close>

text \<open>The id in a request for a chunk is a 32-bit number (network/proto/distfs.proto).\<close>

fun request_ok :: "request \<Rightarrow> bool" where
  "request_ok (ChunkRequest i k) = (i < 2 ^ 32)"
| "request_ok _ = True"

inductive node_step ::
    "('stub, 'e) net \<Rightarrow> (bytes \<Rightarrow> bytes) \<Rightarrow> 'stub node \<times> 'e \<Rightarrow> 'stub node \<times> 'e \<Rightarrow> bool" for net sha where
  serve: "serve_request net junk request n e = Some (Inr (reply, n', e')) \<Longrightarrow> request_ok request \<Longrightarrow>
    node_step net sha (n, e) (n', e')"
| work: "pool_step net (n_pool n, e) (p', e') \<Longrightarrow> node_step net sha (n, e) (n\<lparr>n_pool := p'\<rparr>, e')"
| fetch: "fetch_chunk net sha store_write_chunk (n_pool n) i (n_store n) e = Some (err, s', e') \<Longrightarrow> i < 2 ^ 32 \<Longrightarrow>
    node_step net sha (n, e) (n\<lparr>n_store := s'\<rparr>, e')"
| look: "store_read_chunk i buffer sz (n_store n) = Some (err, buffer', sz', s') \<Longrightarrow> length buffer = CHUNK_SIZE_BYTES \<Longrightarrow>
    i < 2 ^ 32 \<Longrightarrow> node_step net sha (n, e) (n\<lparr>n_store := s'\<rparr>, e)"

text \<open>
  \<^verbatim>\<open>DistfsServer::run_server_blocking\<close>: \<open>start\<close> is \<^verbatim>\<open>builder.BuildAndStart()\<close>, which says whether the
  server listens on the address. It gives a null pointer otherwise, and \<^verbatim>\<open>server->Wait()\<close> is
  undefined (\<open>None\<close>). While the call waits, the node does any number of steps.
\<close>

inductive run_server_blocking ::
    "('stub, 'e) net \<Rightarrow> (bytes \<Rightarrow> bytes) \<Rightarrow> (string \<Rightarrow> 'e \<Rightarrow> bool \<times> 'e) \<Rightarrow> string \<Rightarrow>
     'stub node \<times> 'e \<Rightarrow> ('stub node \<times> 'e) option \<Rightarrow> bool" for net sha start listen_on where
  refused: "start listen_on e = (False, e') \<Longrightarrow> run_server_blocking net sha start listen_on (n, e) None"
| waits: "start listen_on e = (True, e') \<Longrightarrow> (node_step net sha)\<^sup>*\<^sup>* (n, e') y \<Longrightarrow>
    run_server_blocking net sha start listen_on (n, e) (Some y)"

inductive_cases run_server_blockingE: "run_server_blocking net sha start listen_on (n, e) (Some y)"

subsection \<open>The description of the volume stays\<close>

lemma expand_loop_metadata: "expand_loop net avail k p e = Some (p', e') \<Longrightarrow> metadata p' = metadata p"
proof (induction k arbitrary: p e)
  case (Suc k)
  show ?case
  proof (cases "card (active_peers p) < active_connections_limit p \<and> os_size (peer_candidates p) > 0")
    case True
    with Suc.prems obtain u candidates r e1 where
      "os_pop (peer_candidates p) = Some (u, candidates)"
      "attempt net avail (p\<lparr>peer_candidates := candidates\<rparr>) u e = Some (r, e1)"
      by (auto simp: Option.bind_eq_Some_conv Let_def)
    with True Suc show ?thesis by (auto simp: case_prod_beta Let_def split: option.splits)
  qed (use Suc.prems in auto)
qed simp

lemma explore_loop_metadata: "explore_loop net avail m k p e = Some (p', e') \<Longrightarrow> metadata p' = metadata p"
proof (induction k arbitrary: p e)
  case (Suc k)
  show ?case
  proof (cases "os_size (peer_candidates p) > 0")
    case True
    with Suc.prems obtain u candidates r e1 where
      "os_pop (peer_candidates p) = Some (u, candidates)"
      "attempt net avail (p\<lparr>peer_candidates := candidates\<rparr>) u e = Some (r, e1)"
      by (auto simp: Option.bind_eq_Some_conv Let_def)
    with True Suc show ?thesis by (auto simp: case_prod_beta Let_def split: option.splits list.splits if_splits)
  qed (use Suc.prems in auto)
qed simp

lemma info_from_metadata: "info_from net u nid a p e = Some (p', e') \<Longrightarrow> metadata p' = metadata p"
  by (auto simp: info_from_def Option.bind_eq_Some_conv case_prod_beta simp del: push_strangers.simps)

lemma pex_from_metadata: "pex_from net nid incoming p e = Some (out, p', e') \<Longrightarrow> metadata p' = metadata p"
  by (auto simp: pex_from_def Option.bind_eq_Some_conv case_prod_beta simp del: push_strangers.simps)

lemma pool_step_metadata: "pool_step net x y \<Longrightarrow> metadata (fst y) = metadata (fst x)"
proof (induction rule: pool_step.induct)
  case (get_info avail p e p' e')
  then show ?case by (auto simp: worker_get_info_def Option.bind_eq_Some_conv case_prod_beta)
next
  case (get_pex p e p' e')
  then show ?case by (auto simp: worker_get_pex_def Option.bind_eq_Some_conv case_prod_beta)
next
  case (expand avail p e p' e')
  then show ?case by (simp add: worker_expand_def expand_loop_metadata)
next
  case (explore avail p e p' e')
  then show ?case by (auto simp: worker_explore_def explore_loop_metadata split: prod.splits if_splits)
qed (simp_all add: info_from_metadata pex_from_metadata)

lemma worker_metadata:
  assumes "worker net avail p e = Some (p', e')"
  shows "metadata p' = metadata p"
proof -
  obtain p1 e1 p2 e2 p3 e3 where w: "worker_get_info net avail p e = Some (p1, e1)" "worker_get_pex net p1 e1 = Some (p2, e2)"
      "worker_expand net avail p2 e2 = Some (p3, e3)" "worker_explore net avail p3 e3 = Some (p', e')"
    using assms by (auto simp: worker_def Option.bind_eq_Some_conv)
  show ?thesis
    using pool_step_metadata [OF pool_step.get_info [OF w(1)]] pool_step_metadata [OF pool_step.get_pex [OF w(2)]]
      pool_step_metadata [OF pool_step.expand [OF w(3)]] pool_step_metadata [OF pool_step.explore [OF w(4)]] by simp
qed

lemma serve_request_effect:
  assumes "serve_request net junk request n e = Some (Inr (reply, n', e'))"
  shows "metadata (n_pool n') = metadata (n_pool n) \<and>
    (n_store n' = n_store n \<or>
     (\<exists>i k status parts s. request = ChunkRequest i k \<and> reply = ChunkReply status parts \<and> n_store n' = s \<and>
        GetChunk store_read_chunk (take_part k) junk i [] (n_store n) = Some (status, parts, s)))"
proof (cases request)
  case (InfoRequest peer r)
  then show ?thesis
    using assms by (auto simp: InfoExchange_def Option.bind_eq_Some_conv map_option_case info_from_metadata split: if_splits option.splits)
next
  case (PeerRequest r)
  then show ?thesis using assms by (auto simp: PeerExchange_def Option.bind_eq_Some_conv pex_from_metadata)
qed (use assms in auto)

subsection \<open>Only verified chunks\<close>

text \<open>Every chunk in the store is one of the volume and has its published digest.\<close>

definition verified :: "(bytes \<Rightarrow> bytes) \<Rightarrow> string list \<Rightarrow> chunk_store \<Rightarrow> bool" where
  "verified sha hashes s \<longleftrightarrow>
     (\<forall>i d. store_lookup s i = Some d \<longrightarrow> i < length hashes \<and> hexsum sha d = hashes ! i)"

lemma verified_write:
  assumes "store_bounded s" and "verified sha hashes s" and "store_write_chunk i (d @ rest) (length d) s = Some (err, s')"
    and "length (d @ rest) = CHUNK_SIZE_BYTES" and "i < 2 ^ 32" and "i < length hashes" and "hexsum sha d = hashes ! i"
  shows "store_bounded s' \<and> verified sha hashes s'"
proof -
  obtain E where "store_bounded s'" "store_lookup s' = (store_lookup s |` (- E))(i \<mapsto> d)"
    using chunk_files.write_ok [OF assms(1,5), of "length d" "d @ rest"] assms(3,4) by auto
  then show ?thesis using assms(2,6,7) by (auto simp: verified_def restrict_map_def split: if_splits)
qed

lemma verified_read:
  assumes "store_bounded s" and "store_read_chunk i buffer sz s = Some (err, buffer', sz', s')"
    and "length buffer = CHUNK_SIZE_BYTES" and "i < 2 ^ 32"
  shows "store_bounded s' \<and> store_lookup s' = store_lookup s"
proof (cases "store_lookup s i")
  case None
  then show ?thesis using chunk_files.read_missing [OF assms(1,4) None, of buffer sz] assms(2) by auto
next
  case (Some d)
  then show ?thesis using chunk_files.read_ok [OF assms(1) Some, of buffer sz] assms(2,3) by auto
qed

lemma send_parts_taken:
  "send_parts (take_part k) buff offset sz parts = Some (StOK, parts') \<Longrightarrow> offset \<le> sz \<Longrightarrow> sz \<le> length buff \<Longrightarrow>
     concat parts' = concat parts @ take (sz - offset) (drop offset buff)"
proof (induction "sz - offset" arbitrary: offset parts rule: less_induct)
  case less
  show ?case
  proof (cases "offset < sz")
    case False
    then show ?thesis using less.prems by (simp add: send_parts.simps [of _ buff])
  next
    case True
    define n where "n = min WIRE_CHUNK_SIZE_BYTES (sz - offset)"
    have n: "0 < n" "n \<le> sz - offset" using True by (simp_all add: n_def WIRE_CHUNK_SIZE_BYTES_def)
    have sl: "slice buff offset n = Some (take n (drop offset buff))" using n(2) less.prems(2,3) True by (simp add: slice_Some)
    have "send_parts (take_part k) buff (offset + n) sz (parts @ [take n (drop offset buff)]) = Some (StOK, parts')"
      using less.prems(1) True sl
      by (simp add: send_parts.simps [of _ buff offset] n_def [symmetric] take_part_def split: if_splits)
    from less.hyps [OF _ this] have "concat parts' = concat parts @ take n (drop offset buff) @ take (sz - (offset + n)) (drop (offset + n) buff)"
      using n True less.prems(3) by simp
    moreover have "n + (sz - (offset + n)) = sz - offset" using n(2) True by simp
    ultimately show ?thesis using take_add [of n "sz - (offset + n)" "drop offset buff"] by (simp add: add.commute)
  qed
qed

lemma GetChunk_effect:
  assumes "store_bounded s" and "GetChunk store_read_chunk (take_part k) junk i [] s = Some (status, parts, s')" and "i < 2 ^ 32"
  shows "store_bounded s' \<and> store_lookup s' = store_lookup s \<and>
    (status = StOK \<longrightarrow> store_lookup s i = Some (concat parts))"
proof (cases "store_lookup s i")
  case None
  then show ?thesis
    using chunk_files.read_missing [OF assms(1,3) None, of new_buffer junk] assms(2) by (auto simp: GetChunk_def)
next
  case (Some d)
  obtain s1 where r: "store_read_chunk i new_buffer junk s = Some (OK, d @ drop (length d) new_buffer, length d, s1)"
      "store_bounded s1" "store_lookup s1 = store_lookup s"
    using chunk_files.read_ok [OF assms(1) Some, of new_buffer junk] by auto
  then have "s' = s1" "send_parts (take_part k) (d @ drop (length d) new_buffer) 0 (length d) [] = Some (status, parts)"
    using assms(2) by (auto simp: GetChunk_def Option.bind_eq_Some_conv)
  then show ?thesis using r(2,3) Some send_parts_taken [of k "d @ drop (length d) new_buffer" 0 "length d" "[]" parts] by auto
qed

definition node_ok :: "(bytes \<Rightarrow> bytes) \<Rightarrow> string list \<Rightarrow> 'stub node \<Rightarrow> bool" where
  "node_ok sha hashes n \<longleftrightarrow>
     md_hashes (metadata (n_pool n)) = hashes \<and> store_bounded (n_store n) \<and> verified sha hashes (n_store n)"

lemma node_step_ok:
  assumes "node_step net sha x y" and "node_ok sha hashes (fst x)"
  shows "node_ok sha hashes (fst y)"
  using assms
proof (induction rule: node_step.induct)
  case (serve junk request n e reply n' e')
  have inv: "store_bounded (n_store n)" "verified sha hashes (n_store n)" "md_hashes (metadata (n_pool n)) = hashes"
    using serve(3) by (simp_all add: node_ok_def)
  have "store_bounded (n_store n') \<and> store_lookup (n_store n') = store_lookup (n_store n)"
    using serve_request_effect [OF serve(1)] GetChunk_effect [OF inv(1)] inv(1) serve(2) by fastforce
  then show ?case using serve_request_effect [OF serve(1)] inv by (simp add: node_ok_def verified_def)
next
  case (work n e p' e')
  then show ?case using pool_step_metadata [OF work(1)] by (simp add: node_ok_def)
next
  case (fetch n i e err s' e')
  have "verified_result sha store_write_chunk (md_hashes (metadata (n_pool n))) i (n_store n) CHUNK_SIZE_BYTES err s'"
    using fetch_loop_sound [of net sha store_write_chunk "n_pool n" i new_buffer "n_store n" e "(err, s', e')"] fetch(1)
    by (simp add: fetch_chunk_def)
  then consider "s' = n_store n"
    | buff m err' where "i < length (md_hashes (metadata (n_pool n)))" "length buff = CHUNK_SIZE_BYTES"
      "checksum sha buff m = Some (md_hashes (metadata (n_pool n)) ! i)"
      "store_write_chunk i buff m (n_store n) = Some (err', s')"
    unfolding verified_result_def by blast
  then show ?case
  proof cases
    case 1
    then show ?thesis using fetch(3) by simp
  next
    case 2
    obtain d rest where d: "buff = d @ rest" "m = length d" "md_hashes (metadata (n_pool n)) ! i = hexsum sha d"
      using checksum_Some [OF 2(3)] .
    then have "store_bounded s' \<and> verified sha hashes s'"
      using fetch(2,3) 2 by (intro verified_write [of "n_store n" sha hashes i d rest err' s']) (simp_all add: node_ok_def)
    then show ?thesis using fetch(3) by (simp add: node_ok_def)
  qed
next
  case (look i buffer sz n err buffer' sz' s' e)
  then show ?case using verified_read [OF _ look(1-3)] by (auto simp: node_ok_def verified_def)
qed

lemma node_run_ok:
  assumes "(node_step net sha)\<^sup>*\<^sup>* x y" and "node_ok sha hashes (fst x)"
  shows "node_ok sha hashes (fst y)"
  using assms by (induction rule: rtranclp_induct) (auto dest: node_step_ok)

lemma node_ok_hands_out:
  assumes "node_ok sha hashes n" and "i < 2 ^ 32"
    and "serve_request net junk (ChunkRequest i k) n e = Some (Inr (ChunkReply StOK parts, n', e'))"
  shows "i < length hashes \<and> hexsum sha (concat parts) = hashes ! i"
proof -
  have inv: "store_bounded (n_store n)" "verified sha hashes (n_store n)" using assms(1) by (simp_all add: node_ok_def)
  obtain s' where "GetChunk store_read_chunk (take_part k) junk i [] (n_store n) = Some (StOK, parts, s')"
    using assms(3) by auto
  then have "store_lookup (n_store n) i = Some (concat parts)" using GetChunk_effect [OF inv(1) _ assms(2)] by blast
  then show ?thesis using inv(2) by (auto simp: verified_def)
qed

subsection \<open>Properties\<close>


lemma send_small:
  assumes "0 < length d" and "length d \<le> WIRE_CHUNK_SIZE_BYTES"
  shows "send_parts (take_part (Suc k)) (d @ rest) 0 (length d) [] = Some (StOK, [d])"
  using assms by (simp add: send_parts.simps [of _ "d @ rest"] take_part_def slice_def)


end
