(* ===== verification/Mounted_Node.thy ===== *)
theory Mounted_Node
  imports Fuse_Session Distfs_Node
begin

text \<open>
  What \<open>distfs mount\<close> (main.cc) runs after it has downloaded the image: FUSE hands over the
  requests of the kernel, the thread of the server answers the peers and the worker of the pool
  exchanges with them, all over one store and one pool. A step is one of these as a whole; they
  come in any order.
\<close>

subsection \<open>The steps of a mounted node\<close>

record ('stub, 'e) mount =
  m_pool :: "'stub pool"
  m_provider :: "(chunk_store \<times> 'e) provider"
  m_opened :: "nat \<rightharpoonup> tree"

text \<open>\<open>m_opened\<close> has the files of the handles that the kernel was given; the program does not keep it.\<close>

definition node_of :: "('stub, 'e) mount \<Rightarrow> 'stub node \<times> 'e" where
  "node_of m = (\<lparr>n_store = fst (p_store (m_provider m)), n_pool = m_pool m\<rparr>, snd (p_store (m_provider m)))"

definition with_node :: "'stub node \<times> 'e \<Rightarrow> ('stub, 'e) mount \<Rightarrow> ('stub, 'e) mount" where
  "with_node x m = m\<lparr>m_pool := n_pool (fst x), m_provider := (m_provider m)\<lparr>p_store := (n_store (fst x), snd x)\<rparr>\<rparr>"

abbreviation answer_of ::
    "('stub, 'e) net \<Rightarrow> (bytes \<Rightarrow> bytes) \<Rightarrow> codec \<Rightarrow> (nat \<Rightarrow> nat) \<Rightarrow> bytes \<Rightarrow> nat \<Rightarrow> fuse_request \<Rightarrow> ('stub, 'e) mount \<Rightarrow>
     (string + fuse_reply \<times> (chunk_store \<times> 'e) provider) option" where
  "answer_of net sha lz4 j img u q m \<equiv> fuse_call (remote_read net sha (m_pool m) lz4 j) img u q (m_provider m)"

text \<open>
  The network outside may change at any step; \<open>good\<close> says of its states that the peers go on to serve.
\<close>

inductive mount_step ::
    "('e \<Rightarrow> bool) \<Rightarrow> ('stub, 'e) net \<Rightarrow> (bytes \<Rightarrow> bytes) \<Rightarrow> codec \<Rightarrow> (nat \<Rightarrow> nat) \<Rightarrow> bytes \<Rightarrow> nat \<Rightarrow> tree \<Rightarrow>
     ('stub, 'e) mount \<Rightarrow> ('stub, 'e) mount \<Rightarrow> bool" for good net sha lz4 j img u t where
  kernel: "admissible (m_opened m) q \<Longrightarrow> answer_of net sha lz4 j img u q m = Some (Inr (r, P)) \<Longrightarrow>
    mount_step good net sha lz4 j img u t m (m\<lparr>m_provider := P, m_opened := opens t (m_opened m) q r\<rparr>)"
| node: "node_step net sha (node_of m) x \<Longrightarrow> good (snd x) \<Longrightarrow> mount_step good net sha lz4 j img u t m (with_node x m)"

subsection \<open>The invariant\<close>

lemma same_chunks_faithful:
  assumes "net_faithful lz4 R good (s, e)" and "store_bounded s' \<and> store_lookup s' = store_lookup s" and "good e'"
  shows "net_faithful lz4 R good (s', e')"
  using assms by (simp add: faithful_def cs_inv_def coded_inv_def cs_lookup_def coded_lookup_def map_le_def dom_def)

lemma serve_faithful:
  assumes n: "net_faithful lz4 R good (n_store n, e)"
    and q: "serve_request net junk request n e = Some (Inr (reply, n', e'))" "request_ok request" and e': "good e'"
  shows "net_faithful lz4 R good (n_store n', e')"
proof -
  have b: "store_bounded (n_store n)" using n by (simp add: faithful_def cs_inv_def coded_inv_def)
  have "store_bounded (n_store n') \<and> store_lookup (n_store n') = store_lookup (n_store n)"
    using serve_request_effect [OF q(1)] GetChunk_effect [OF b] b q(2) by fastforce
  then show ?thesis by (rule same_chunks_faithful [OF n _ e'])
qed

lemma fetch_faithful:
  assumes pub: "published lz4 sha (md_hashes (metadata (n_pool n))) R" and srv: "serving net sha (n_pool n) R good faults"
    and n: "net_faithful lz4 R good (n_store n, e)"
    and f: "fetch_chunk net sha store_write_chunk (n_pool n) i (n_store n) e = Some (err, s', e')" and e': "good e'"
  shows "net_faithful lz4 R good (s', e')"
proof -
  have net: "net_fetch net sha (n_pool n) i (n_store n, e) = Some (err, s', e')" using f by (simp add: net_fetch_def)
  consider "i < length (md_hashes (metadata (n_pool n)))" "chunk_peers (n_pool n) i \<noteq> []" | "chunk_peers (n_pool n) i = []"
    | "\<not> i < length (md_hashes (metadata (n_pool n)))" by blast
  then show ?thesis
  proof cases
    case 1
    then show ?thesis using net_fetch_stores [OF pub srv n 1] net by auto
  next
    case 2
    then have "s' = n_store n" using net unfolding net_fetch_no_peer [OF 2] by simp
    then show ?thesis using n e' by (simp add: faithful_def)
  next
    case 3
    have "verified_result sha store_write_chunk (md_hashes (metadata (n_pool n))) i (n_store n) CHUNK_SIZE_BYTES err s'"
      using fetch_loop_sound [of net sha store_write_chunk "n_pool n" i new_buffer "n_store n" e "(err, s', e')"] f
      by (simp add: fetch_chunk_def)
    then have "s' = n_store n" using 3 by (auto simp: verified_result_def)
    then show ?thesis using n e' by (simp add: faithful_def)
  qed
qed

lemma node_step_faithful:
  assumes "node_step net sha x y"
    and "published lz4 sha (md_hashes (metadata (n_pool (fst x)))) R" and "serving net sha (n_pool (fst x)) R good faults"
    and "net_faithful lz4 R good (n_store (fst x), snd x)" and "good (snd y)"
  shows "net_faithful lz4 R good (n_store (fst y), snd y) \<and> md_hashes (metadata (n_pool (fst y))) = md_hashes (metadata (n_pool (fst x)))"
  using assms
proof (induction rule: node_step.induct)
  case (serve junk request n e reply n' e')
  then show ?case using serve_faithful [OF _ serve(1,2)] serve_request_effect [OF serve(1)] by simp
next
  case (work n e p' e')
  then show ?case using pool_step_metadata [OF work(1)] by (simp add: faithful_def)
next
  case (fetch n i e err s' e')
  from fetch(3-6) show ?case using fetch_faithful [OF _ _ _ fetch(1)] by simp
next
  case (look i buffer sz n err buffer' sz' s' e)
  have "store_bounded (n_store n)" using look(6) by (simp add: faithful_def cs_inv_def coded_inv_def)
  from verified_read [OF this look(1-3)] show ?case using same_chunks_faithful look(6,7) by simp
qed

lemma serving_cong:
  "md_hashes (metadata p) = md_hashes (metadata p') \<Longrightarrow> serving net sha p R good faults = serving net sha p' R good faults"
  by (simp add: serving_def)

definition mount_ok ::
    "('stub, 'e) net \<Rightarrow> (bytes \<Rightarrow> bytes) \<Rightarrow> codec \<Rightarrow> (nat \<rightharpoonup> bytes) \<Rightarrow> ('e \<Rightarrow> bool) \<Rightarrow> ('e \<Rightarrow> nat) \<Rightarrow> string list \<Rightarrow>
     bytes \<Rightarrow> tree \<Rightarrow> ('stub, 'e) mount \<Rightarrow> bool" where
  "mount_ok net sha lz4 R good faults hashes img t m \<longleftrightarrow>
     md_hashes (metadata (m_pool m)) = hashes \<and> remote_ready net sha (m_pool m) lz4 R good faults (m_provider m) \<and>
     handles_ok img t (m_opened m)"

lemma mount_ok_node:
  assumes m: "mount_ok net sha lz4 R good faults hashes img t m" and s: "node_step net sha (node_of m) x" and good: "good (snd x)"
  shows "mount_ok net sha lz4 R good faults hashes img t (with_node x m)"
proof -
  let ?p = "m_pool m" and ?P = "m_provider m"
  have r: "net_provider_inv lz4 R good ?P" "published lz4 sha (md_hashes (metadata ?p)) R" "serving net sha ?p R good faults"
      "md_hashes (metadata ?p) = hashes"
    using m unfolding mount_ok_def remote_ready_def by blast+
  have "net_faithful lz4 R good (p_store ?P)" using r(1) by (simp add: provider_inv_def)
  then have f: "net_faithful lz4 R good (n_store (fst (node_of m)), snd (node_of m))" by (simp add: node_of_def)
  from node_step_faithful [OF s _ _ f good] have
    "net_faithful lz4 R good (n_store (fst x), snd x)" "md_hashes (metadata (n_pool (fst x))) = hashes"
    using r(2-4) by (simp_all add: node_of_def)
  then show ?thesis
    using m r serving_cong [of "n_pool (fst x)" ?p net sha R good faults]
    by (auto simp: mount_ok_def remote_ready_def with_node_def provider_inv_def)
qed

lemma mount_call:
  assumes m: "mount_ok net sha lz4 R good faults hashes img t m" and t: "represents img 8 t" "plain_dirs t" "files_within (length hashes) t"
    and full: "full_volume (decoded lz4 R)" and q: "admissible (m_opened m) q"
  shows "\<exists>r P. answer_of net sha lz4 j img u q m = Some (Inr (r, P)) \<and>
    mount_ok net sha lz4 R good faults hashes img t (m\<lparr>m_provider := P, m_opened := opens t (m_opened m) q r\<rparr>) \<and>
    (tree_answer t (volume_content (decoded lz4 R)) (m_opened m) q r \<or>
     io_error q r \<and> (\<exists>i < length hashes. chunk_peers (m_pool m) i = []))"
proof -
  have r: "md_hashes (metadata (m_pool m)) = hashes" "remote_ready net sha (m_pool m) lz4 R good faults (m_provider m)"
      "handles_ok img t (m_opened m)"
    using m by (simp_all add: mount_ok_def)
  have "length hashes \<le> 2 ^ 32" using r(1,2) by (auto simp: remote_ready_def published_def)
  then have c: "(if length (md_hashes (metadata (m_pool m))) \<le> 2 ^ 32 then length (md_hashes (metadata (m_pool m))) else 0) = length hashes"
    using r(1) by simp
  from remote_reader.call_answer [OF t(1,2) r(3) _ r(2) full q, unfolded c, OF t(3), of j u]
  show ?thesis using r(1) by (auto simp: mount_ok_def)
qed

lemma mount_step_ok:
  assumes "mount_step good net sha lz4 j img u t m m'" and "mount_ok net sha lz4 R good faults hashes img t m"
    and "represents img 8 t" and "plain_dirs t" and "files_within (length hashes) t" and "full_volume (decoded lz4 R)"
  shows "mount_ok net sha lz4 R good faults hashes img t m'"
  using assms(1,2)
proof (cases rule: mount_step.cases)
  case (kernel q r P)
  then show ?thesis using mount_call [OF assms(2-6) kernel(2), of j u] by auto
qed (use mount_ok_node assms(2) in blast)

subsection \<open>Mounting a volume\<close>

text \<open>
  A node with the pool \<open>p\<close> and the local store \<open>s\<close> mounts the volume: it downloads the image, and
  whatever the kernel, the peers and the worker have done since, it answers an admissible request
  as the tree does; only a read may fail, and only while no peer is known for some chunk.
\<close>

definition mounts_tree ::
    "('e \<Rightarrow> bool) \<Rightarrow> ('stub, 'e) net \<Rightarrow> (bytes \<Rightarrow> bytes) \<Rightarrow> 'stub pool \<Rightarrow> codec \<Rightarrow> (nat \<Rightarrow> nat) \<Rightarrow> nat \<Rightarrow> (nat \<Rightarrow> bytes) \<Rightarrow> nat \<Rightarrow>
     chunk_store \<Rightarrow> 'e \<Rightarrow> tree \<Rightarrow> (tree \<Rightarrow> bytes) \<Rightarrow> bool" where
  "mounts_tree good net sha p lz4 j u junk cache s e t content \<longleftrightarrow>
     (\<exists>img q0. mfs_download (remote_read net sha p lz4 j) junk (provider_new (s, e) cache) = Some (Inr img, q0) \<and>
       (\<forall>m q. (mount_step good net sha lz4 j img u t)\<^sup>*\<^sup>* \<lparr>m_pool = p, m_provider = q0, m_opened = Map.empty\<rparr> m \<longrightarrow>
         admissible (m_opened m) q \<longrightarrow>
         (\<exists>r P. answer_of net sha lz4 j img u q m = Some (Inr (r, P)) \<and>
           (tree_answer t content (m_opened m) q r \<or>
            io_error q r \<and> (\<exists>i < length (md_hashes (metadata p)). chunk_peers (m_pool m) i = [])))))"

lemma network_mount:
  assumes "published lz4 sha (md_hashes (metadata p)) R" and "serving net sha p R good faults"
    and "\<forall>i < length (md_hashes (metadata p)). chunk_peers p i \<noteq> []"
    and "cs_inv lz4 s" and "cs_lookup lz4 s \<subseteq>\<^sub>m decoded lz4 R" and "good e" and "0 < cache"
    and "full_volume (decoded lz4 R)"
    and "volume_bytes (decoded lz4 R) 0 (length img) = img" and "get_u64 img 0 = Some (length img)"
    and "length img \<le> length (md_hashes (metadata p)) * CHUNK_SIZE_BYTES"
    and "represents img 8 t" and "plain_dirs t" and "files_within (length (md_hashes (metadata p))) t"
    and "\<And>n. length (junk n) = n"
  shows "mounts_tree good net sha p lz4 j u junk cache s e t (volume_content (decoded lz4 R))"
proof -
  let ?m = "length (md_hashes (metadata p))"
  have "?m \<le> 2 ^ 32" using assms(1) by (simp add: published_def)
  then have c: "(if ?m \<le> 2 ^ 32 then ?m else 0) = ?m" by simp
  have ready: "remote_ready net sha p lz4 R good faults (provider_new (s, e) cache)"
    by (rule remote_new [OF assms(4-7,1,2)])
  have "chunk_peers p i \<noteq> []" if "i * CHUNK_SIZE_BYTES < length img" for i
  proof -
    have "i * CHUNK_SIZE_BYTES < ?m * CHUNK_SIZE_BYTES" using that assms(11) by linarith
    then show ?thesis using assms(3) by simp
  qed
  then obtain q0 where q0: "mfs_download (remote_read net sha p lz4 j) junk (provider_new (s, e) cache) = Some (Inr img, q0)"
      "remote_ready net sha p lz4 R good faults q0"
    using remote_reader.download_ok [OF ready assms(8,15,9,10), unfolded c, OF assms(11), of j] by blast
  have ok: "mount_ok net sha lz4 R good faults (md_hashes (metadata p)) img t m"
    if "(mount_step good net sha lz4 j img u t)\<^sup>*\<^sup>* \<lparr>m_pool = p, m_provider = q0, m_opened = Map.empty\<rparr> m" for m
    using that
  proof (induction rule: rtranclp_induct)
    case base
    then show ?case using q0(2) by (simp add: mount_ok_def handles_ok_def)
  next
    case (step m1 m2)
    show ?case by (rule mount_step_ok [OF step(2,3) assms(12-14,8)])
  qed
  show ?thesis unfolding mounts_tree_def using q0(1) mount_call [OF ok assms(12-14,8)] by blast
qed


text \<open>The example volume: the file is opened and read, the root is listed.\<close>

lemma example_files_within: "files_within 1 example_tree"
proof -
  have "tree_lookup example_tree ns = Some (Reg a xs fpos len) \<Longrightarrow> fpos = 300 \<and> len = 5" for ns a xs fpos len
    by (cases ns) (auto simp: example_tree_def split: if_splits list.splits, (case_tac list; simp)+)
  then show ?thesis by (fastforce simp: files_within_def CHUNK_SIZE_BYTES_def)
qed


end
