(* ===== verification/Distfs_Main.thy ===== *)
theory Distfs_Main
  imports Mounted_Node
begin

text \<open>
  main.cc: the command line, and what the commands build, serve, mirror and mount put together
  from the other components before they hand over to the server or to FUSE. A command that ends
  with an exception is \<open>Inl\<close>.
\<close>

subsection \<open>The command line\<close>

text \<open>
  \<^verbatim>\<open>std::stoi\<close>: leading white space, a sign, decimal digits; the rest is ignored. It throws when
  there is no digit and when the number does not fit an int.
\<close>

definition is_space :: "char \<Rightarrow> bool" where
  "is_space c \<longleftrightarrow> c = CHR '' '' \<or> (of_char c :: nat) \<in> {9..13}"

definition is_digit :: "char \<Rightarrow> bool" where
  "is_digit c \<longleftrightarrow> (of_char c :: nat) \<in> {48..57}"

definition digits_value :: "string \<Rightarrow> int" where
  "digits_value ds = foldl (\<lambda>v c. 10 * v + (of_char c - 48)) 0 ds"

definition stoi :: "string \<Rightarrow> string + int" where
  "stoi s =
     (let t = dropWhile is_space s;
          negative = (t \<noteq> [] \<and> hd t = CHR ''-'');
          u = (if t \<noteq> [] \<and> (hd t = CHR ''-'' \<or> hd t = CHR ''+'') then tl t else t);
          ds = takeWhile is_digit u;
          v = (if negative then - digits_value ds else digits_value ds)
      in if ds = [] then Inl ''invalid_argument''
         else if v < - (2 ^ 31) \<or> 2 ^ 31 \<le> v then Inl ''out_of_range'' else Inr v)"

text \<open>The ports that \<^verbatim>\<open>std::to_string\<close> prints are read back.\<close>

lemma digits_value_snoc: "digits_value (ds @ [c]) = 10 * digits_value ds + (of_char c - 48)"
  by (simp add: digits_value_def)

lemma digit_of: "d < 10 \<Longrightarrow> is_digit (char_of (48 + d)) \<and> (of_char (char_of (48 + d) :: char) :: int) = 48 + int d"
proof -
  assume "d < 10"
  then have d: "(of_char (char_of (48 + d) :: char) :: nat) = 48 + d" by (simp add: of_char_of)
  then have "(of_char (char_of (48 + d) :: char) :: int) = int (48 + d)" by (metis of_nat_of_char)
  then show ?thesis using d \<open>d < 10\<close> by (simp add: is_digit_def)
qed

lemma decimal_digits: "(\<forall>c \<in> set (decimal n). is_digit c) \<and> decimal n \<noteq> [] \<and> digits_value (decimal n) = int n"
proof (induction n rule: decimal.induct)
  case (1 n)
  show ?case
  proof (cases "n < 10")
    case True
    then show ?thesis using digit_of [of n] by (simp add: decimal.simps [of n] digits_value_def)
  next
    case False
    have "10 * int (n div 10) + int (n mod 10) = int n" by presburger
    then show ?thesis using False 1 digit_of [of "n mod 10"] by (auto simp: decimal.simps [of n] digits_value_snoc)
  qed
qed

lemma stoi_decimal:
  assumes "n < 2 ^ 31"
  shows "stoi (decimal n) = Inr (int n)"
proof -
  obtain c cs where c: "decimal n = c # cs" using decimal_digits [of n] by (cases "decimal n") auto
  then have "is_digit c" using decimal_digits [of n] by simp
  then have h: "\<not> is_space c" "c \<noteq> CHR ''-''" "c \<noteq> CHR ''+''" by (auto simp: is_digit_def is_space_def)
  have t: "dropWhile is_space (c # cs) = c # cs" using h by simp
  have w: "takeWhile is_digit (c # cs) = c # cs" using decimal_digits [of n] c by (simp add: takeWhile_eq_all_conv)
  have v: "digits_value (c # cs) = int n" using decimal_digits [of n] c by simp
  show ?thesis using assms h unfolding stoi_def Let_def c t by (simp add: w v del: takeWhile.simps)
qed

datatype command =
    Build string string
  | Serve string string
  | Mirror string string string
  | Mount string string string string string
  | Usage

text \<open>The tests of \<^verbatim>\<open>main\<close>; \<open>argv\<close> holds \<open>argc\<close> strings.\<close>

definition parse_command :: "string list \<Rightarrow> command" where
  "parse_command argv =
     (if length argv = 4 \<and> argv ! 1 = ''build'' then Build (argv ! 2) (argv ! 3)
      else if length argv = 4 \<and> argv ! 1 = ''serve'' then Serve (argv ! 2) (argv ! 3)
      else if length argv = 5 \<and> argv ! 1 = ''mirror'' then Mirror (argv ! 2) (argv ! 3) (argv ! 4)
      else if length argv = 7 \<and> argv ! 1 = ''mount'' then Mount (argv ! 2) (argv ! 3) (argv ! 4) (argv ! 5) (argv ! 6)
      else Usage)"

subsection \<open>The commands\<close>

text \<open>The default size of a ChunkStore, \<^verbatim>\<open>1 << 31\<close>, and the size of the cache of a mount.\<close>

definition STORE_SIZE :: nat where "STORE_SIZE = 2 ^ 31"
definition MOUNT_CACHE_SIZE :: nat where "MOUNT_CACHE_SIZE = 25"

text \<open>
  \<^verbatim>\<open>distfs build\<close>: the exit status and what is left of the store after the destructors. \<open>ls\<close> and
  \<open>sw\<close> are the listings and the world of the store's directory, \<open>h\<close> and \<open>w\<close> those of the tree;
  \<open>junk\<close> and \<open>junk'\<close> are the contents of the two new buffers.
\<close>

definition main_build ::
    "codec \<Rightarrow> (string \<Rightarrow> string list option) \<Rightarrow> world \<Rightarrow> host \<Rightarrow> (nat \<Rightarrow> bytes) \<Rightarrow> bytes \<Rightarrow> bytes \<Rightarrow> string \<Rightarrow> string \<Rightarrow> world \<Rightarrow>
     (int \<times> chunk_store \<times> world) option" where
  "main_build lz4 ls sw h fresh junk junk' path root w = do {
     s \<leftarrow> store_open ls path STORE_SIZE sw;
     (err, cb, w') \<leftarrow> build_fs (cs_ops lz4) h fresh root (cb_new s junk junk') w;
     Some (if err = OK then 0 else 1, cb_destroy (cs_ops lz4) cb, w')
   }"

text \<open>
  What serve, mirror and mount share: the pool of a node, whose constructor runs the worker once.
  The arguments are those of main, the parsed port converted to 32 bits.
\<close>

definition start_pool ::
    "('stub, 'e) net \<Rightarrow> DistfsMetadata \<Rightarrow> 'stub option \<Rightarrow> int \<Rightarrow> chunk_store \<Rightarrow> 'e \<Rightarrow> ('stub pool \<times> 'e) option" where
  "start_pool net md bootstrap port s e =
     (case pool_new net md bootstrap 20 200 (wrap 32 port) e of
        (p, e') \<Rightarrow> worker net (store_available s) p e')"

text \<open>\<^verbatim>\<open>distfs serve\<close>, up to the node the server runs on; \<open>sz\<close> and \<open>junk\<close> are as in \<open>metadata_of_store\<close>.\<close>

definition main_serve ::
    "('stub, 'e) net \<Rightarrow> (bytes \<Rightarrow> bytes) \<Rightarrow> nat \<Rightarrow> nat \<Rightarrow> (string \<Rightarrow> string list option) \<Rightarrow> world \<Rightarrow> string \<Rightarrow> string \<Rightarrow> 'e \<Rightarrow>
     (string + 'stub node \<times> 'e) option" where
  "main_serve net sha sz junk ls sw path port_arg e = do {
     s \<leftarrow> store_open ls path STORE_SIZE sw;
     (r, s') \<leftarrow> metadata_of_store store_read_chunk store_available sha sz junk s;
     case r of
       Inl i \<Rightarrow> Some (Inl (''Store missing data block '' @ decimal i))
     | Inr md \<Rightarrow>
         (case stoi port_arg of
            Inl ex \<Rightarrow> Some (Inl ex)
          | Inr port \<Rightarrow> do {
              (p, e') \<leftarrow> start_pool net md None port s' e;
              Some (Inr (\<lparr>n_store = s', n_pool = p\<rparr>, e'))
            })
   }"

text \<open>The address the server of serve, mirror and mount listens on, from the parsed port.\<close>

definition server_address :: "int \<Rightarrow> string" where
  "server_address port = ''0.0.0.0:'' @ decimal (wrap 32 port)"

text \<open>
  The loop of \<^verbatim>\<open>distfs mirror\<close> over the chunks. \<open>others i\<close> is what the worker of the pool does to it
  before chunk \<open>i\<close> is fetched. The results of fetch_chunk are ignored.
\<close>

fun mirror_loop ::
    "('stub, 'e) net \<Rightarrow> (bytes \<Rightarrow> bytes) \<Rightarrow> (nat \<Rightarrow> 'stub pool \<Rightarrow> 'e \<Rightarrow> 'stub pool \<times> 'e) \<Rightarrow> nat list \<Rightarrow>
     'stub node \<Rightarrow> 'e \<Rightarrow> ('stub node \<times> 'e) option" where
  "mirror_loop net sha others [] n e = Some (n, e)"
| "mirror_loop net sha others (i # is) n e =
     (case others i (n_pool n) e of (p, e1) \<Rightarrow> do {
        (err, s, e2) \<leftarrow> fetch_chunk net sha store_write_chunk p i (n_store n) e1;
        mirror_loop net sha others is \<lparr>n_store = s, n_pool = p\<rparr> e2
      })"

definition main_mirror ::
    "('stub, 'e) net \<Rightarrow> ('stub \<Rightarrow> 'e \<Rightarrow> Metadata option \<times> 'e) \<Rightarrow> (bytes \<Rightarrow> bytes) \<Rightarrow>
     (nat \<Rightarrow> 'stub pool \<Rightarrow> 'e \<Rightarrow> 'stub pool \<times> 'e) \<Rightarrow> (string \<Rightarrow> string list option) \<Rightarrow> world \<Rightarrow>
     string \<Rightarrow> string \<Rightarrow> string \<Rightarrow> 'e \<Rightarrow> (string + 'stub node \<times> 'e) option" where
  "main_mirror net call_metadata sha others ls sw path port_arg peer e = do {
     s \<leftarrow> store_open ls path STORE_SIZE sw;
     case fetch_metadata net call_metadata peer e of
       (Inl ex, e1) \<Rightarrow> Some (Inl ex)
     | (Inr (md, st), e1) \<Rightarrow>
         (case stoi port_arg of
            Inl ex \<Rightarrow> Some (Inl ex)
          | Inr port \<Rightarrow> do {
              (p, e2) \<leftarrow> start_pool net md (Some st) port s e1;
              (n, e3) \<leftarrow> mirror_loop net sha others [0..<length (md_hashes md)] \<lparr>n_store = s, n_pool = p\<rparr> e2;
              Some (Inr (n, e3))
            })
   }"

text \<open>
  \<^verbatim>\<open>distfs mount\<close>, up to the image of the file system and the provider that FUSE runs on; the
  size of the store is the third argument.
\<close>

definition main_mount ::
    "('stub, 'e) net \<Rightarrow> ('stub \<Rightarrow> 'e \<Rightarrow> Metadata option \<times> 'e) \<Rightarrow> (bytes \<Rightarrow> bytes) \<Rightarrow> codec \<Rightarrow> (nat \<Rightarrow> nat) \<Rightarrow> (nat \<Rightarrow> bytes) \<Rightarrow>
     (string \<Rightarrow> string list option) \<Rightarrow> world \<Rightarrow> string \<Rightarrow> string \<Rightarrow> string \<Rightarrow> string \<Rightarrow> 'e \<Rightarrow>
     (string + 'stub pool \<times> bytes \<times> (chunk_store \<times> 'e) provider) option" where
  "main_mount net call_metadata sha lz4 j junk ls sw path size_arg port_arg peer e =
     (case stoi size_arg of
        Inl ex \<Rightarrow> Some (Inl ex)
      | Inr sz \<Rightarrow> do {
          s \<leftarrow> store_open ls path (wrap 32 sz) sw;
          case fetch_metadata net call_metadata peer e of
            (Inl ex, e1) \<Rightarrow> Some (Inl ex)
          | (Inr (md, st), e1) \<Rightarrow>
              (case stoi port_arg of
                 Inl ex \<Rightarrow> Some (Inl ex)
               | Inr port \<Rightarrow> do {
                   (p, e2) \<leftarrow> start_pool net md (Some st) port s e1;
                   (r, q) \<leftarrow> mfs_download (remote_read net sha p lz4 j) junk (provider_new (s, e2) MOUNT_CACHE_SIZE);
                   Some (case r of Inl ex \<Rightarrow> Inl ex | Inr img \<Rightarrow> Inr (p, img, q))
                 })
        })"

subsection \<open>A mirror\<close>

text \<open>
  What the worker of the pool does keeps the pool \<open>ready\<close>: it has the description of the volume
  and a peer for every chunk.
\<close>

definition others_ok ::
    "string list \<Rightarrow> ('stub pool \<Rightarrow> bool) \<Rightarrow> ('e \<Rightarrow> bool) \<Rightarrow> (nat \<Rightarrow> 'stub pool \<Rightarrow> 'e \<Rightarrow> 'stub pool \<times> 'e) \<Rightarrow> bool" where
  "others_ok hashes ready good others \<longleftrightarrow>
     (\<forall>i p e. ready p \<and> good e \<longrightarrow> (case others i p e of (p', e') \<Rightarrow> ready p' \<and> good e')) \<and>
     (\<forall>p. ready p \<longrightarrow> md_hashes (metadata p) = hashes \<and> (\<forall>i < length hashes. chunk_peers p i \<noteq> []))"

definition digests_ok :: "(bytes \<Rightarrow> bytes) \<Rightarrow> string list \<Rightarrow> nat set \<Rightarrow> chunk_store \<Rightarrow> bool" where
  "digests_ok sha hashes A s \<longleftrightarrow> (\<forall>i \<in> A. \<exists>d. store_lookup s i = Some d \<and> hexsum sha d = hashes ! i)"

definition mirroring :: "(bytes \<Rightarrow> bytes) \<Rightarrow> string list \<Rightarrow> ('stub pool \<Rightarrow> bool) \<Rightarrow> nat set \<Rightarrow> 'stub node \<Rightarrow> bool" where
  "mirroring sha hashes ready A n \<longleftrightarrow>
     store_bounded (n_store n) \<and> store_room (n_store n) (length hashes) \<and> ready (n_pool n) \<and>
     digests_ok sha hashes A (n_store n)"

lemma mirror_loop_ok:
  assumes net: "finitely_faulty net sha hashes good faults" and small: "length hashes \<le> 2 ^ 32"
    and others: "others_ok hashes ready good others" and "set is \<subseteq> {..<length hashes}" and "mirroring sha hashes ready A n" and "good e"
  shows "\<exists>n' e'. mirror_loop net sha others is n e = Some (n', e') \<and> mirroring sha hashes ready (A \<union> set is) n'"
  using assms(4-)
proof (induction "is" arbitrary: A n e)
  case Nil
  then show ?case by simp
next
  case (Cons i "is")
  then have i: "i < length hashes" "i < 2 ^ 32" using small by auto
  obtain p e1 where o: "others i (n_pool n) e = (p, e1)" by fastforce
  have m: "store_bounded (n_store n)" "store_room (n_store n) (length hashes)" "ready (n_pool n)"
    "digests_ok sha hashes A (n_store n)"
    using Cons.prems(2) by (simp_all add: mirroring_def)
  have p: "md_hashes (metadata p) = hashes" "good e1" "chunk_peers p i \<noteq> []" "ready p"
    using others [unfolded others_ok_def, THEN conjunct1, rule_format, of "n_pool n" e i]
      others [unfolded others_ok_def, THEN conjunct2] i(1) m(3) Cons.prems(3) o by auto
  have net': "finitely_faulty net sha (md_hashes (metadata p)) good faults" "i < length (md_hashes (metadata p))"
    using net i(1) p(1) by simp_all
  obtain s e2 d E where f: "fetch_chunk net sha store_write_chunk p i (n_store n) e1 = Some (OK, s, e2)" "good e2" "store_bounded s"
      "store_lookup s = (store_lookup (n_store n) |` (- E))(i \<mapsto> d)" "hexsum sha d = md_hashes (metadata p) ! i"
      "\<forall>K. store_room (n_store n) K \<longrightarrow> i < K \<longrightarrow> E = {} \<and> store_room s K"
    using fetch_chunk_stores [OF net'(1) p(2) net'(2) p(3) m(1) i(2), of "\<lambda>d. True"] by blast
  have E: "E = {}" "store_room s (length hashes)" using f(6) m(2) i(1) by blast+
  have "mirroring sha hashes ready (insert i A) \<lparr>n_store = s, n_pool = p\<rparr>"
    using f(3-5) E m(4) p(1,4) by (auto simp: mirroring_def digests_ok_def)
  from Cons.IH [OF _ this f(2)] Cons.prems(1) show ?case using o f(1) by auto
qed

subsection \<open>A volume that was built, opened again\<close>

lemma store_open_nothing:
  assumes "ls path = None"
  shows "store_open ls path sz \<lparr>files = Map.empty, dirs = {}, choices = cs\<rparr> = Some (fresh_store path sz cs)"
  using assms by (simp add: store_open_def scan_store_def scan_dirs_def fresh_store_def)

text \<open>Every store has directory listings: the names below each of its directories.\<close>

lemma listing_exists:
  assumes "finite I"
  shows "\<exists>ls. listing_of ls base I"
proof -
  let ?a = "\<lambda>i. base @ ''/'' @ to_hex (i mod 256)"
  let ?b = "\<lambda>i. ?a i @ ''/'' @ to_hex (i div 256 mod 256)"
  define N where "N p = {to_hex (i mod 256) |i. i \<in> I \<and> p = base} \<union> {to_hex (i div 256 mod 256) |i. i \<in> I \<and> p = ?a i} \<union>
    {to_hex i |i. i \<in> I \<and> p = ?b i}" for p
  have "finite (N p)" for p using assms by (simp add: N_def)
  then have "\<forall>p. \<exists>xs. set xs = N p" using finite_list by blast
  then obtain f where f: "set (f p) = N p" for p by metis
  have dots: "no_dots (f p) = N p" for p unfolding no_dots_def f
    using to_hex_not_dots by (auto simp: N_def dest: sym)
  have a: "?a i = ?a j \<longleftrightarrow> i mod 256 = j mod 256" for i j by (auto dest: to_hex_inj)
  have ab: "?a i \<noteq> ?b j" for i j using to_hex_no_slash [of "i mod 256"] by auto
  have b: "?b i = ?b j \<longleftrightarrow> i mod 256 = j mod 256 \<and> i div 256 mod 256 = j div 256 mod 256" for i j
    using append_Cons_eq_iff [OF to_hex_no_slash to_hex_no_slash] by (auto dest: to_hex_inj)
  have n: "base \<noteq> ?a i" "base \<noteq> ?b i" for i by simp_all
  have "N base = {to_hex (i mod 256) |i. i \<in> I}" using n by (auto simp: N_def)
  moreover have "N (?a i) = {to_hex (j div 256 mod 256) |j. j \<in> I \<and> j mod 256 = i mod 256}" for i
    unfolding N_def using a ab n(1) by auto
  moreover have "N (?b i) = {to_hex j |j. j \<in> I \<and> j mod 256 = i mod 256 \<and> j div 256 mod 256 = i div 256 mod 256}" for i
    unfolding N_def using b ab [symmetric] n(2) by auto
  ultimately have "listing_of (\<lambda>p. Some (f p)) base I" by (simp add: listing_of_def dots)
  then show ?thesis by blast
qed

text \<open>What a store without gaps publishes.\<close>

lemma store_published:
  assumes "cs_inv lz4 s" and "dom (cs_lookup lz4 s) = {..<n}" and "n < 2 ^ 32"
  shows "\<exists>md s'. metadata_of_store store_read_chunk store_available sha sz junk s = Some (Inr md, s') \<and>
    published lz4 sha (md_hashes md) (store_lookup s) \<and> length (md_hashes md) = n"
proof -
  have inv: "codec_ok lz4" "store_bounded s"
    "\<forall>i z. store_lookup s i = Some z \<longrightarrow> 0 \<le> fst (lz4_decompress lz4 z CHUNK_SIZE_BYTES)"
    using assms(1) by (simp_all add: cs_inv_def coded_inv_def)
  have dom: "dom (store_lookup s) = {..<n}"
    using compressed_files.avail_dom [OF assms(1)] chunk_files.avail_dom [OF inv(2)] assms(2) by (simp add: cs_available_def)
  then have "in_store s = {..<n}" using chunk_files.avail_dom [OF inv(2)] by (simp add: store_available_def)
  then obtain md s' where m: "metadata_of_store store_read_chunk store_available sha sz junk s = Some (Inr md, s')"
      "md_hashes md = map (\<lambda>i. concat (map hex_byte (sha (the (store_lookup s i))))) [0..<n]"
    using metadata_of_store_ok [OF inv(2) assms(3), of sha sz junk] by blast
  have "md_hashes md ! i = hexsum sha z" if z: "store_lookup s i = Some z" for i z
  proof -
    have "i < n" using dom z by blast
    then show ?thesis using m(2) z by (simp add: hexsum_def)
  qed
  then show ?thesis using m dom inv assms(3) by (auto simp: published_def)
qed

text \<open>What a node needs to mount the volume \<open>R\<close> over the network, from an environment \<open>e\<close> on.\<close>

definition can_mount ::
    "('stub, 'e) net \<Rightarrow> (bytes \<Rightarrow> bytes) \<Rightarrow> 'stub pool \<Rightarrow> codec \<Rightarrow> (nat \<rightharpoonup> bytes) \<Rightarrow> ('e \<Rightarrow> bool) \<Rightarrow> ('e \<Rightarrow> nat) \<Rightarrow>
     chunk_store \<Rightarrow> 'e \<Rightarrow> bool" where
  "can_mount net sha p lz4 R good faults s e \<longleftrightarrow>
     serving net sha p R good faults \<and> (\<forall>i < length (md_hashes (metadata p)). chunk_peers p i \<noteq> []) \<and>
     cs_inv lz4 s \<and> cs_lookup lz4 s \<subseteq>\<^sub>m decoded lz4 R \<and> good e"

text \<open>\<^verbatim>\<open>distfs mount\<close> reaches FUSE with the image and the provider of such a mount.\<close>

lemma main_mount_serves:
  assumes "stoi size_arg = Inr sz" and "store_open ls path (wrap 32 sz) sw = Some s"
    and "fetch_metadata net call_metadata peer e = (Inr (md, st), e1)" and "stoi port_arg = Inr port"
    and "start_pool net md (Some st) port s e1 = Some (p, e2)"
    and mount: "mounts_tree good net sha p lz4 j u junk MOUNT_CACHE_SIZE s e2 t content"
  shows "\<exists>img q0. main_mount net call_metadata sha lz4 j junk ls sw path size_arg port_arg peer e = Some (Inr (p, img, q0)) \<and>
    (\<forall>m q. (mount_step good net sha lz4 j img u t)\<^sup>*\<^sup>* \<lparr>m_pool = p, m_provider = q0, m_opened = Map.empty\<rparr> m \<longrightarrow>
        admissible (m_opened m) q \<longrightarrow> (\<exists>r P. answer_of net sha lz4 j img u q m = Some (Inr (r, P)) \<and>
          (tree_answer t content (m_opened m) q r \<or>
           io_error q r \<and> (\<exists>i < length (md_hashes (metadata p)). chunk_peers (m_pool m) i = []))))"
proof -
  obtain img q0 where d: "mfs_download (remote_read net sha p lz4 j) junk (provider_new (s, e2) MOUNT_CACHE_SIZE) = Some (Inr img, q0)"
    and answers: "\<forall>m q. (mount_step good net sha lz4 j img u t)\<^sup>*\<^sup>* \<lparr>m_pool = p, m_provider = q0, m_opened = Map.empty\<rparr> m \<longrightarrow>
        admissible (m_opened m) q \<longrightarrow> (\<exists>r P. answer_of net sha lz4 j img u q m = Some (Inr (r, P)) \<and>
          (tree_answer t content (m_opened m) q r \<or>
           io_error q r \<and> (\<exists>i < length (md_hashes (metadata p)). chunk_peers (m_pool m) i = [])))"
    using mount unfolding mounts_tree_def by blast
  have "main_mount net call_metadata sha lz4 j junk ls sw path size_arg port_arg peer e = Some (Inr (p, img, q0))"
    using assms(1-5) d by (simp add: main_mount_def)
  then show ?thesis using answers by blast
qed

text \<open>
  No other command gets that far: an argument that is not a number ends \<^verbatim>\<open>distfs mount\<close> with an
  exception before the store is opened, a peer without a description before the pool is started.
\<close>

lemma main_mount_error:
  "stoi size_arg = Inl ex \<Longrightarrow> main_mount net call_metadata sha lz4 j junk ls sw path size_arg port_arg peer e = Some (Inl ex)"
  "stoi size_arg = Inr sz \<Longrightarrow> store_open ls path (wrap 32 sz) sw = Some s \<Longrightarrow>
     fetch_metadata net call_metadata peer e = (Inl ex, e1) \<Longrightarrow>
     main_mount net call_metadata sha lz4 j junk ls sw path size_arg port_arg peer e = Some (Inl ex)"
  by (simp_all add: main_mount_def)

text \<open>The volume in the store after a build, and the store opened again by the process that serves it.\<close>

lemma build_and_open:
  assumes all: "\<forall>c. length c = CHUNK_SIZE_BYTES \<longrightarrow> cs_storable lz4 c" and lz4: "codec_ok lz4"
    and path: "short_base path" "ls path = None" "Fault \<notin> set cs"
    and bufs: "length b1 = CHUNK_SIZE_BYTES" "length b2 = CHUNK_SIZE_BYTES" and w: "no_fault w"
    and h: "scanned h root t\<^sub>0" "host_ok h" "\<And>n. length (fresh n) = n"
    and room: "8 + packed_size t\<^sub>0 + file_bytes (files w) root t\<^sub>0 < STORE_SIZE * CHUNK_SIZE_BYTES"
  shows "\<exists>s w' img t n. main_build lz4 ls \<lparr>files = Map.empty, dirs = {}, choices = cs\<rparr> h fresh b1 b2 path root w = Some (0, s, w') \<and>
    cs_inv lz4 s \<and> dom (cs_lookup lz4 s) = {..<n} \<and> n \<le> STORE_SIZE \<and> full_volume (cs_lookup lz4 s) \<and>
    get_u64 img 0 = Some (length img) \<and> length img \<le> n * CHUNK_SIZE_BYTES \<and> represents img 8 t \<and> scanned h root t \<and>
    volume_bytes (cs_lookup lz4 s) 0 (length img) = img \<and>
    placed (stored_byte (cs_lookup lz4 s)) (files w) (length img) (n * CHUNK_SIZE_BYTES) root t"
proof -
  let ?cb = "cb_new (fresh_store path STORE_SIZE cs) b1 b2"
  have b: "builder_inv lz4 STORE_SIZE ?cb" "pos ?cb = 0" "held (cs_lookup lz4) ?cb = {0}"
    using new_builder_inv [OF lz4 path(1) _ path(3) _ bufs, of STORE_SIZE]
    by (simp_all add: STORE_SIZE_def cb_new_def held_def)
  obtain cb w' img t n where p: "build_fs (cs_ops lz4) h fresh root ?cb w = Some (OK, cb, w')" "built cb"
      "builder_inv lz4 STORE_SIZE cb" "get_u64 img 0 = Some (length img)" "represents img 8 t" "scanned h root t"
      "\<forall>a < length img. stored_byte (cs_lookup lz4 (store cb)) a = Some (img ! a)"
      "dom (cs_lookup lz4 (store cb)) = {..<n}" "n \<le> STORE_SIZE"
      "placed (stored_byte (cs_lookup lz4 (store cb))) (files w) (length img) (n * CHUNK_SIZE_BYTES) root t"
    using packed_volume [OF all b(1,2) w h room] b(3) by blast
  have "length img \<le> n * CHUNK_SIZE_BYTES"
  proof (cases "length img")
    case (Suc k)
    then have "stored_byte (cs_lookup lz4 (store cb)) k = Some (img ! k)" using p(7) by simp
    then have "k div CHUNK_SIZE_BYTES \<in> dom (cs_lookup lz4 (store cb))" by (auto simp: stored_byte_def)
    then have "k div CHUNK_SIZE_BYTES < n" unfolding p(8) by simp
    then have "k < n * CHUNK_SIZE_BYTES" by (simp add: div_less_iff_less_mult)
    then show ?thesis using Suc by simp
  qed simp
  moreover have "volume_bytes (cs_lookup lz4 (store cb)) 0 (length img) = img" using p(7) by (intro stored_bytes) simp_all
  moreover have "main_build lz4 ls \<lparr>files = Map.empty, dirs = {}, choices = cs\<rparr> h fresh b1 b2 path root w = Some (0, store cb, w')"
    using p(1,2) by (simp add: main_build_def store_open_nothing [of ls, OF path(2)] cb_destroy_def)
  moreover have "cs_inv lz4 (store cb)" "full_volume (cs_lookup lz4 (store cb))"
    using p(3) by (auto simp: full_volume_def cb_inv_def cb_shape_def)
  ultimately show ?thesis using p by blast
qed

lemma reopened_store:
  assumes "cs_inv lz4 s" and "listing_of ls (base_path s) (in_store s)" and "card (in_store s) \<le> STORE_SIZE"
  shows "\<exists>s1. store_open ls (base_path s) STORE_SIZE (os s) = Some s1 \<and> cs_inv lz4 s1 \<and> store_lookup s1 = store_lookup s"
proof -
  have inv: "store_inv s" using assms(1) by (simp add: cs_inv_def coded_inv_def store_bounded_def)
  have "0 < STORE_SIZE" by (simp add: STORE_SIZE_def)
  then obtain c where c: "store_open ls (base_path s) STORE_SIZE (os s) = Some (s\<lparr>collector := c\<rparr>)"
      "store_inv (s\<lparr>collector := c\<rparr>)"
    using store_reopen [OF inv assms(2) _ assms(3)] by blast
  have "store_lookup (s\<lparr>collector := c\<rparr>) = store_lookup s" by (simp add: store_lookup_def fun_eq_iff)
  then show ?thesis using c assms(1) by (auto simp: cs_inv_def coded_inv_def store_bounded_def)
qed

lemma served_again:
  assumes "cs_inv lz4 s" and "dom (cs_lookup lz4 s) = {..<n}" and "n \<le> STORE_SIZE" and "listing_of ls (base_path s) (in_store s)"
  shows "\<exists>s1 md s2. store_open ls (base_path s) STORE_SIZE (os s) = Some s1 \<and>
    metadata_of_store store_read_chunk store_available sha sz jn s1 = Some (Inr md, s2) \<and>
    published lz4 sha (md_hashes md) (store_lookup s1) \<and> length (md_hashes md) = n \<and>
    decoded lz4 (store_lookup s1) = cs_lookup lz4 s \<and> cs_inv lz4 s1"
proof -
  have "in_store s = {..<n}"
    using compressed_files.avail_dom [OF assms(1)] assms(2) by (simp add: cs_available_def store_available_def)
  then have n: "card (in_store s) \<le> STORE_SIZE" "n < 2 ^ 32" using assms(3) by (simp_all add: STORE_SIZE_def)
  obtain s1 where s1: "store_open ls (base_path s) STORE_SIZE (os s) = Some s1" "cs_inv lz4 s1" "store_lookup s1 = store_lookup s"
    using reopened_store [OF assms(1,4) n(1)] by blast
  have same: "cs_lookup lz4 s1 = cs_lookup lz4 s" "decoded lz4 (store_lookup s1) = cs_lookup lz4 s"
    by (simp_all add: cs_lookup_def coded_lookup_def decoded_def s1(3) fun_eq_iff)
  then have "dom (cs_lookup lz4 s1) = {..<n}" using assms(2) by simp
  from store_published [OF s1(2) this n(2), of sha sz jn] show ?thesis using s1(1,2) same(2) by blast
qed

subsection \<open>Properties\<close>



text \<open>
  The tree that was packed: what the system shows below \<open>root\<close>, and in the volume every regular
  file has the content it had, or none if it could not be opened.
\<close>

definition packed_tree :: "host \<Rightarrow> world \<Rightarrow> string \<Rightarrow> (nat \<rightharpoonup> bytes) \<Rightarrow> tree \<Rightarrow> bool" where
  "packed_tree h w root V t \<longleftrightarrow> scanned h root t \<and>
     (\<forall>ns a xs fpos len. tree_lookup t ns = Some (Reg a xs fpos len) \<longrightarrow>
        volume_content V (Reg a xs fpos len) = (case files w (root @ below ns) of None \<Rightarrow> [] | Some d \<Rightarrow> d))"

lemma placed_tree:
  assumes "placed (stored_byte V) (files w) lo (n * CHUNK_SIZE_BYTES) root t" and "scanned h root t"
  shows "packed_tree h w root V t" and "files_within n t"
proof -
  have leaf: "case files w (root @ below ns) of None \<Rightarrow> fpos = 2 ^ 64 - 1 \<and> len = 0
      | Some d \<Rightarrow> fpos + len \<le> n * CHUNK_SIZE_BYTES \<and> volume_bytes V fpos len = d"
    if "tree_lookup t ns = Some (Reg a xs fpos len)" for ns a xs fpos len
    using placed_lookup [OF assms(1) that] stored_bytes [of len V fpos] by (auto split: option.splits)
  show "packed_tree h w root V t"
    unfolding packed_tree_def using assms(2) leaf by (fastforce simp: volume_bytes_def split: option.splits)
  show "files_within n t"
    unfolding files_within_def using leaf by (fastforce split: option.splits)
qed


text \<open>The example tree, built, opened again and mounted by a node with room for one chunk.\<close>

lemma example_build:
  "\<exists>s w' ls' s1 md s2. main_build copy_codec (\<lambda>_. None) \<lparr>files = Map.empty, dirs = {}, choices = []\<rparr> example_host
       (\<lambda>n. replicate n CHR 0x00) new_buffer new_buffer ''/s'' ''/r'' example_world = Some (0, s, w') \<and>
     listing_of ls' (base_path s) (in_store s) \<and> store_open ls' (base_path s) STORE_SIZE (os s) = Some s1 \<and>
     metadata_of_store store_read_chunk store_available (\<lambda>d. d) 9 5 s1 = Some (Inr md, s2) \<and>
     can_mount (peer_net (store_lookup s1)) (\<lambda>d. d) (peer_pool (md_hashes md)) copy_codec (store_lookup s1) (\<lambda>e. True) (\<lambda>e. e)
       (fresh_store ''/t'' 1 []) 3"
proof -
  have all: "\<forall>c. length c = CHUNK_SIZE_BYTES \<longrightarrow> cs_storable copy_codec c" by (simp add: copy_codec_storable)
  have p: "short_base ''/s''" "Fault \<notin> set []" "length new_buffer = CHUNK_SIZE_BYTES" by (simp_all add: short_base_def)
  have f: "length (replicate n CHR 0x00) = n" for n by simp
  have room: "8 + packed_size example_tree + file_bytes (files example_world) ''/r'' example_tree < STORE_SIZE * CHUNK_SIZE_BYTES"
    using example_packing(4) by (simp add: STORE_SIZE_def)
  obtain s w' n where s: "main_build copy_codec (\<lambda>_. None) \<lparr>files = Map.empty, dirs = {}, choices = []\<rparr> example_host
       (\<lambda>n. replicate n CHR 0x00) new_buffer new_buffer ''/s'' ''/r'' example_world = Some (0, s, w')"
      "cs_inv copy_codec s" "dom (cs_lookup copy_codec s) = {..<n}" "n \<le> STORE_SIZE"
    using build_and_open [where ls = "\<lambda>_. None", OF all copy_codec_ok p(1) refl p(2,3,3) example_packing(3) example_scanned
        example_host_ok f room] by blast
  have "in_store s = {..<n}" using compressed_files.avail_dom [OF s(2)] s(3) by (simp add: cs_available_def store_available_def)
  then obtain ls' where ls': "listing_of ls' (base_path s) (in_store s)" using listing_exists by (metis finite_lessThan)
  obtain s1 md s2 where o: "store_open ls' (base_path s) STORE_SIZE (os s) = Some s1"
      "metadata_of_store store_read_chunk store_available (\<lambda>d. d) 9 5 s1 = Some (Inr md, s2)"
      "published copy_codec (\<lambda>d. d) (md_hashes md) (store_lookup s1)" "cs_inv copy_codec s1"
    using served_again [OF s(2-4) ls', of "\<lambda>d. d" 9 5] by blast
  have "serving (peer_net (store_lookup s1)) (\<lambda>d. d) (peer_pool (md_hashes md)) (store_lookup s1) (\<lambda>e. True) (\<lambda>e. e)"
    using o(3,4) by (intro peer_serves) (auto simp: published_def cs_inv_def coded_inv_def store_bounded_def)
  moreover have "cs_inv copy_codec (fresh_store ''/t'' 1 [])"
    by (rule fresh_cs_inv [OF copy_codec_ok]) (simp_all add: short_base_def)
  ultimately show ?thesis using s(1) ls' o(1,2) by (fastforce simp: can_mount_def)
qed


lemma start_pool_metadata:
  assumes "start_pool net md bootstrap port s e = Some (p, e')"
  shows "metadata p = md"
proof -
  obtain p0 e0 where n: "pool_new net md bootstrap 20 200 (wrap 32 port) e = (p0, e0)" by fastforce
  then have "worker net (store_available s) p0 e0 = Some (p, e')" using assms by (simp add: start_pool_def)
  then have "metadata p = metadata p0" by (rule worker_metadata)
  moreover have "metadata p0 = md" using n by (auto simp: pool_new_def split: prod.splits)
  ultimately show ?thesis by simp
qed

lemma main_serve_node:
  assumes "store_open ls path STORE_SIZE sw = Some s" and "store_bounded s" and "in_store s = {..<n}" and "n < 2 ^ 32"
    and "main_serve net sha sz junk ls sw path port_arg e = Some (Inr (node, e'))"
  shows "node_ok sha (map (\<lambda>i. hexsum sha (the (store_lookup s i))) [0..<n]) node"
proof -
  obtain md s' where m: "metadata_of_store store_read_chunk store_available sha sz junk s = Some (Inr md, s')"
      "store_bounded s'" "store_lookup s' = store_lookup s"
      "md_hashes md = map (\<lambda>i. hexsum sha (the (store_lookup s i))) [0..<n]"
    using metadata_of_store_ok [OF assms(2,4,3), of sha sz junk] by (auto simp: hexsum_def)
  obtain port p where p: "start_pool net md None port s' e = Some (p, e')" "node = \<lparr>n_store = s', n_pool = p\<rparr>"
    using assms(1,5) m(1) by (auto simp: main_serve_def Option.bind_eq_Some_conv split: sum.splits)
  have dom: "dom (store_lookup s) = {..<n}"
    using chunk_files.avail_dom [OF assms(2)] assms(3) by (simp add: store_available_def)
  have "verified sha (md_hashes md) s'" unfolding verified_def m(3)
  proof (intro allI impI)
    fix i d
    assume d: "store_lookup s i = Some d"
    then have "i < n" using dom by blast
    then show "i < length (md_hashes md) \<and> hexsum sha d = md_hashes md ! i" using d by (simp add: m(4))
  qed
  then show ?thesis using start_pool_metadata [OF p(1)] p(2) m(2,4) by (simp add: node_ok_def)
qed

text \<open>A pool without peers and candidates starts unless the mask of its own chunks is undefined.\<close>

lemma lonely_pool_starts:
  assumes "md_peer md = []"
  shows "start_pool net md None port s e = None \<longleftrightarrow> bitmask (ChunkAvailability (store_available s)) = None"
proof -
  have "os_size (os_new k) = 0" for k by (simp add: os_new_def os_size_def wrap_def)
  then show ?thesis
    by (cases "bitmask (ChunkAvailability (store_available s))")
      (simp_all add: start_pool_def pool_new_def assms worker_def worker_get_info_def worker_get_pex_def worker_expand_def
        worker_explore_def info_request_def sort_connections_def expand_loop.simps(2) [of _ _ 4, simplified]
        explore_loop.simps(2) [of _ _ _ 9, simplified] case_prod_beta split: prod.splits)
qed

lemma mask_undefined_iff: "bitmask (ChunkAvailability {..<n}) = None \<longleftrightarrow> n mod 8 = 1"
proof (cases n)
  case 0
  then show ?thesis by (simp add: bitmask_def)
next
  case (Suc k)
  then have ne: "{..<n} \<noteq> {}" by (simp add: lessThan_empty_iff)
  have "Max {..<n} = k" using Suc by (intro Max_eqI) auto
  moreover have "k mod 8 = 0 \<longleftrightarrow> n mod 8 = 1" unfolding Suc by presburger
  ultimately show ?thesis using bitmask_cases [of "ChunkAvailability {..<n}"] ne by (auto split: if_splits)
qed

lemma main_serve_starts:
  assumes "store_open ls path STORE_SIZE sw = Some s" and "store_bounded s"
    and "in_store s = {..<n}" and "n < 2 ^ 32" and "stoi port_arg = Inr port"
  shows "main_serve net sha sz junk ls sw path port_arg e = None \<longleftrightarrow> n mod 8 = 1"
    and "n mod 8 \<noteq> 1 \<Longrightarrow> \<exists>node e'. main_serve net sha sz junk ls sw path port_arg e = Some (Inr (node, e'))"
proof -
  obtain md s' where m: "metadata_of_store store_read_chunk store_available sha sz junk s = Some (Inr md, s')"
      "store_bounded s'" "store_lookup s' = store_lookup s" "md_peer md = []"
    using metadata_of_store_ok [OF assms(2,4,3), of sha sz junk] by auto
  have "store_available s' = {..<n}"
    using chunk_files.avail_dom [OF m(2)] chunk_files.avail_dom [OF assms(2)] assms(3) m(3) by (simp add: store_available_def)
  then have "start_pool net md None port s' e = None \<longleftrightarrow> n mod 8 = 1"
    using lonely_pool_starts [OF m(4)] mask_undefined_iff by metis
  then show "main_serve net sha sz junk ls sw path port_arg e = None \<longleftrightarrow> n mod 8 = 1"
    "n mod 8 \<noteq> 1 \<Longrightarrow> \<exists>node e'. main_serve net sha sz junk ls sw path port_arg e = Some (Inr (node, e'))"
    using assms(1,5) m(1) by (auto simp: main_serve_def)
qed

text \<open>
  C6: \<open>distfs serve\<close> hands out the volume that its store held when it was started: whatever it is
  asked and whatever its peers send while the server runs, it describes this volume, by the digests of
  its chunks, and a chunk it hands out completely has the digest of that chunk.
\<close>

theorem serve_hands_out_its_volume:
  assumes "store_open ls path STORE_SIZE sw = Some s" and "store_bounded s" and "in_store s = {..<n}" and "n < 2 ^ 32"
    and "main_serve net sha sz junk ls sw path port_arg e = Some (Inr (node, e1))"
    and "run_server_blocking net sha start listen_on (node, e1) (Some (node', e'))"
    and "i < 2 ^ 32" and "serve_request net g (ChunkRequest i k) node' e' = Some (Inr (ChunkReply StOK parts, node'', e''))"
  shows "m_block_hash (GetMetadata (n_pool node')) = map (\<lambda>i. hexsum sha (the (store_lookup s i))) [0..<n] \<and>
    i < n \<and> hexsum sha (concat parts) = hexsum sha (the (store_lookup s i))"
proof -
  let ?h = "map (\<lambda>i. hexsum sha (the (store_lookup s i))) [0..<n]"
  obtain e2 where "(node_step net sha)\<^sup>*\<^sup>* (node, e2) (node', e')"
    using assms(6) by (auto elim: run_server_blockingE)
  then have ok: "node_ok sha ?h node'" using node_run_ok main_serve_node [OF assms(1-5)] by fastforce
  then show ?thesis using node_ok_hands_out [OF ok assms(7,8)] by (auto simp: node_ok_def GetMetadata_def)
qed

text \<open>A store of two chunks that is opened again.\<close>

lemma two_chunk_store:
  "\<exists>w base ls s. store_open ls base STORE_SIZE w = Some s \<and> store_bounded s \<and> in_store s = {..<2} \<and>
     store_lookup s = [0 \<mapsto> ''abc'', 1 \<mapsto> ''de'']"
proof -
  have f: "store_bounded (fresh_store ''/s'' 4 [])" "store_room (fresh_store ''/s'' 4 []) 2"
    by (rule fresh_store_bounded) (simp_all add: short_base_def store_room_def fresh_store_def lru_new_def lru_ids_def)
  obtain s0 where s0: "store_bounded s0" "store_room s0 2" "store_lookup s0 = [0 \<mapsto> ''abc'']"
    using chunk_files.write_room [OF f, of 0 3 "''abc''"] by (auto simp: CHUNK_SIZE_BYTES_def)
  obtain s where s: "store_bounded s" "store_lookup s = (store_lookup s0)(1 \<mapsto> ''de'')"
    using chunk_files.write_room [OF s0(1,2), of 1 2 "''de''"] by (auto simp: CHUNK_SIZE_BYTES_def)
  have look: "store_lookup s = [0 \<mapsto> ''abc'', 1 \<mapsto> ''de'']" using s(2) s0(3) by simp
  have inv: "store_inv s" using s(1) by (simp add: store_bounded_def)
  have "{..<2::nat} = {0, 1}" by (auto simp: less_2_cases_iff)
  then have two: "in_store s = {..<2}" using chunk_files.avail_dom [OF s(1)] unfolding look by (simp add: store_available_def insert_commute)
  obtain ls where ls: "listing_of ls (base_path s) (in_store s)" using listing_exists two by (metis finite_lessThan)
  obtain c where c: "store_open ls (base_path s) STORE_SIZE (os s) = Some (s\<lparr>collector := c\<rparr>)" "store_inv (s\<lparr>collector := c\<rparr>)"
    using store_reopen [OF inv ls, of STORE_SIZE] by (auto simp: two STORE_SIZE_def)
  have same: "store_lookup (s\<lparr>collector := c\<rparr>) = store_lookup s" by (simp add: store_lookup_def fun_eq_iff)
  then have "store_bounded (s\<lparr>collector := c\<rparr>)" using c(2) s(1) by (simp add: store_bounded_def)
  then have "store_open ls (base_path s) STORE_SIZE (os s) = Some (s\<lparr>collector := c\<rparr>) \<and> store_bounded (s\<lparr>collector := c\<rparr>) \<and>
      in_store (s\<lparr>collector := c\<rparr>) = {..<2} \<and> store_lookup (s\<lparr>collector := c\<rparr>) = [0 \<mapsto> ''abc'', 1 \<mapsto> ''de'']"
    using c(1) two unfolding same look by simp
  then show ?thesis
    by (rule exI [of _ "os s", OF exI [of _ "base_path s", OF exI [of _ ls, OF exI [of _ "s\<lparr>collector := c\<rparr>"]]]])
qed

theorem serve_hands_out_its_volume_witness:
  "\<exists>w base ls s node e parts node'. store_open ls base STORE_SIZE w = Some s \<and> store_lookup s = [0 \<mapsto> ''abc'', 1 \<mapsto> ''de''] \<and>
     main_serve example_net (\<lambda>d. d) 9 5 ls w base '' 80'' 100 = Some (Inr (node, e)) \<and>
     run_server_blocking example_net (\<lambda>d. d) (\<lambda>a e. (True, e)) (server_address 80) (node, e) (Some (node, e)) \<and>
     serve_request example_net 7 (ChunkRequest 1 1) node e = Some (Inr (ChunkReply StOK parts, node', e)) \<and>
     hexsum (\<lambda>d. d) (concat parts) = hexsum (\<lambda>d. d) ''de''"
proof -
  obtain w base ls s where s: "store_open ls base STORE_SIZE w = Some s" "store_bounded s" "in_store s = {..<2}"
      "store_lookup s = [0 \<mapsto> ''abc'', 1 \<mapsto> ''de'']"
    using two_chunk_store by blast
  have n: "2 < (2::nat) ^ 32" "stoi '' 80'' = Inr 80" "1 < (2::nat) ^ 32" "(2::nat) mod 8 \<noteq> 1"
    by (simp_all add: stoi_def is_space_def is_digit_def digits_value_def)
  obtain node e where main: "main_serve example_net (\<lambda>d. d) 9 5 ls w base '' 80'' 100 = Some (Inr (node, e))"
    using main_serve_starts(2) [OF s(1-3) n(1,2,4), of example_net "\<lambda>d. d" 9 5 100] by blast
  have run: "run_server_blocking example_net (\<lambda>d. d) (\<lambda>a e. (True, e)) (server_address 80) (node, e) (Some (node, e))"
    by (rule run_server_blocking.waits [where e' = e]) auto
  have bounded: "store_bounded (n_store node)" using main_serve_node [OF s(1-3) n(1) main] by (simp add: node_ok_def)
  have "store_lookup (n_store node) = store_lookup s"
    using metadata_of_store_ok [OF s(2) n(1) s(3), of "\<lambda>d. d" 9 5] main s(1) n(2)
    by (auto simp: main_serve_def Option.bind_eq_Some_conv)
  then have look: "store_lookup (n_store node) 1 = Some ''de''" by (simp add: s(4))
  obtain s1 where r: "store_read_chunk 1 new_buffer 7 (n_store node) = Some (OK, ''de'' @ drop 2 new_buffer, 2, s1)"
    using chunk_files.read_ok [OF bounded look, of new_buffer 7] by (auto simp: numeral_2_eq_2)
  have "send_parts (take_part 1) (''de'' @ drop 2 new_buffer) 0 2 [] = Some (StOK, [''de''])"
    using send_small [of "''de''" 0 "drop 2 new_buffer"] by (simp add: WIRE_CHUNK_SIZE_BYTES_def numeral_2_eq_2)
  then have served: "serve_request example_net 7 (ChunkRequest 1 1) node e = Some (Inr (ChunkReply StOK [''de''], node\<lparr>n_store := s1\<rparr>, e))"
    using r by (simp add: GetChunk_def)
  have "hexsum (\<lambda>d. d) (concat [''de'']) = hexsum (\<lambda>d. d) ''de''"
    using serve_hands_out_its_volume [OF s(1-3) n(1) main run n(3) served] by (simp add: s(4))
  then show ?thesis using s(1,4) main run served by blast
qed

text \<open>
  C40: Whether a volume can be served depends on the number of its chunks: with 8 k + 1 of them (one
  chunk, say) \<open>distfs serve\<close> is undefined, since the constructor of the pool runs the worker, which
  writes behind the string it makes for the mask of available chunks; otherwise the pool starts.
\<close>

theorem serve_undefined_chunk_count:
  assumes "store_open ls path STORE_SIZE sw = Some s" and "store_bounded s"
    and "in_store s = {..<n}" and "n < 2 ^ 32" and "stoi port_arg = Inr port"
  shows "main_serve net sha sz junk ls sw path port_arg e = None \<longleftrightarrow> n mod 8 = 1"
  by (rule main_serve_starts(1) [OF assms])

theorem serve_undefined_chunk_count_witness:
  "\<exists>s ls s1. store_write_chunk 0 ''abc'' 3 (fresh_store ''/s'' 4 []) = Some (OK, s) \<and>
     store_open ls (base_path s) STORE_SIZE (os s) = Some s1 \<and>
     main_serve example_net (\<lambda>d. d) 9 5 ls (os s) (base_path s) '' +80'' 100 = None"
proof -
  have f: "store_bounded (fresh_store ''/s'' 4 [])" by (rule fresh_store_bounded) (simp_all add: short_base_def)
  obtain s E where s: "store_write_chunk 0 ''abc'' 3 (fresh_store ''/s'' 4 []) = Some (OK, s)" "store_bounded s"
      "store_lookup s = (Map.empty |` (- E))(0 \<mapsto> take 3 ''abc'')"
    using chunk_files.write_ok [OF f, of 0 3 "''abc''"] by (auto simp: CHUNK_SIZE_BYTES_def)
  have inv: "store_inv s" using s(2) by (simp add: store_bounded_def)
  have one: "in_store s = {..<1}" using chunk_files.avail_dom [OF s(2)] s(3) by (auto simp: store_available_def restrict_map_def)
  obtain ls where ls: "listing_of ls (base_path s) (in_store s)" using listing_exists one by (metis finite_lessThan)
  obtain c where c: "store_open ls (base_path s) STORE_SIZE (os s) = Some (s\<lparr>collector := c\<rparr>)" "store_inv (s\<lparr>collector := c\<rparr>)"
    using store_reopen [OF inv ls, of STORE_SIZE] by (auto simp: one STORE_SIZE_def)
  have "store_lookup (s\<lparr>collector := c\<rparr>) = store_lookup s" by (simp add: store_lookup_def fun_eq_iff)
  then have b: "store_bounded (s\<lparr>collector := c\<rparr>)" "in_store (s\<lparr>collector := c\<rparr>) = {..<1}"
    using c(2) s(2) one by (simp_all add: store_bounded_def)
  have p: "stoi '' +80'' = Inr 80" by (simp add: stoi_def is_space_def is_digit_def digits_value_def)
  have n: "(1::nat) mod 8 = 1" "(1::nat) < 2 ^ 32" by simp_all
  show ?thesis
    using serve_undefined_chunk_count [OF c(1) b n(2) p, of example_net "\<lambda>d. d" 9 5 100] n(1) s(1) c(1) by blast
qed

end
