(* ===== verification/Provider_Threads.thy ===== *)
theory Provider_Threads
  imports Chunk_Provider
begin

text \<open>
  data/chunk_provider.cc with its mutexes: any number of threads inside \<open>read_chunk\<close> at the same
  time, as a call of FUSE from its worker threads makes them. A call is a program counter over the
  atomic pieces of the function: what runs under \<open>entries_mutex\<close>, one lock or unlock of a cache
  entry, one call of the collector, of the store or of the external provider (each locks its own
  mutex), one copy. The cache maps ids to references to shared entries. Other users of the store
  change it between the steps.
\<close>

subsection \<open>The state that the threads share\<close>

text \<open>
  \<open>cells r\<close> is the entry that the shared pointer \<open>r\<close> refers to and \<open>owner r\<close> the thread that has
  locked its mutex; the references below \<open>next_ref\<close> are in use. Entries are not freed: a thread
  keeps the one it works on alive by its shared pointer.
\<close>

record 's shared =
  sh_store :: 's
  refs :: "nat \<rightharpoonup> nat"
  cells :: "nat \<Rightarrow> CacheEntry"
  owner :: "nat \<Rightarrow> nat option"
  next_ref :: nat
  sh_collector :: LruCollector

definition shared_new :: "'s \<Rightarrow> nat \<Rightarrow> 's shared" where
  "shared_new st cache_size =
     \<lparr>sh_store = st, refs = Map.empty, cells = (\<lambda>_. new_entry), owner = (\<lambda>_. None), next_ref = 0,
      sh_collector = lru_new cache_size\<rparr>"

text \<open>
  Where a thread is in \<open>read_chunk\<close>; the reference is the variable \<open>ent\<close>. \<open>Wait\<close> is line 26,
  \<open>Held\<close> line 27 with the entry locked, \<open>HitTouch\<close> and \<open>HitCopy\<close> the lines 29 and 30, \<open>Load\<close>,
  \<open>Fetch\<close> and \<open>Reload\<close> the lines 43 to 47, \<open>Unlock\<close>, \<open>Copy\<close> and \<open>Touch\<close> the lines 52 to 55 and
  \<open>Fail\<close> the lines 58 to 61.
\<close>

datatype pc =
    Enter | Wait nat | Held nat | HitTouch nat | HitCopy nat | Load nat | Fetch nat | Reload nat
  | Unlock nat | Copy nat | Touch nat | Fail ErrorCode nat | Return ErrorCode

record read_call =
  at :: pc
  c_id :: nat
  c_offset :: nat
  c_len :: nat
  c_buffer :: bytes
  c_size :: nat

text \<open>A new entry, locked by the thread \<open>t\<close> and put into the cache.\<close>

definition insert_new :: "nat \<Rightarrow> nat \<Rightarrow> 's shared \<Rightarrow> 's shared" where
  "insert_new t i sh =
     sh\<lparr>refs := (refs sh)(i \<mapsto> next_ref sh), cells := (cells sh)(next_ref sh := new_entry),
       owner := (owner sh)(next_ref sh := Some t), next_ref := Suc (next_ref sh)\<rparr>"

text \<open>Unlocking a mutex that the thread does not own is undefined.\<close>

definition unlock :: "nat \<Rightarrow> nat \<Rightarrow> 's shared \<Rightarrow> 's shared option" where
  "unlock t r sh = (if owner sh r = Some t then Some (sh\<lparr>owner := (owner sh)(r := None)\<rparr>) else None)"

definition sh_remove :: "nat \<Rightarrow> 's shared \<Rightarrow> 's shared" where
  "sh_remove i sh = sh\<lparr>refs := (refs sh)(i := None)\<rparr>"

definition sh_touch :: "nat \<Rightarrow> 's shared \<Rightarrow> 's shared option" where
  "sh_touch i sh =
     (case lru_update sh_remove i (sh_collector sh) sh of
        None \<Rightarrow> None
      | Some (c, sh') \<Rightarrow> Some (sh'\<lparr>sh_collector := c\<rparr>))"

text \<open>A thread that waits for the mutex of an entry cannot run while another one has it.\<close>

fun can_run :: "'s shared \<Rightarrow> pc \<Rightarrow> bool" where
  "can_run sh (Wait r) = (owner sh r = None)"
| "can_run sh (Return err) = False"
| "can_run sh _ = True"

text \<open>The next piece of the call of thread \<open>t\<close>; \<open>None\<close> is undefined behaviour.\<close>

definition read_into ::
    "(nat \<Rightarrow> bytes \<Rightarrow> nat \<Rightarrow> 's \<Rightarrow> (ErrorCode \<times> bytes \<times> nat \<times> 's) option) \<Rightarrow> nat \<Rightarrow> nat \<Rightarrow> 's shared \<Rightarrow>
     (ErrorCode \<times> 's shared) option" where
  "read_into rd i r sh = do {
     (err, d, l, st) \<leftarrow> rd i (entry_data (cells sh r)) (entry_len (cells sh r)) (sh_store sh);
     Some (err, sh\<lparr>sh_store := st, cells := (cells sh)(r := \<lparr>entry_data = d, entry_len = l\<rparr>)\<rparr>)
   }"

definition copy_from :: "nat \<Rightarrow> pc \<Rightarrow> 's shared \<Rightarrow> read_call \<Rightarrow> (read_call \<times> 's shared) option" where
  "copy_from r next_pc sh c = do {
     (buffer, n) \<leftarrow> copy_out (cells sh r) (c_offset c) (c_len c) (c_buffer c);
     Some (c\<lparr>at := next_pc, c_buffer := buffer, c_size := n\<rparr>, sh)
   }"

definition advance ::
    "(nat \<Rightarrow> bytes \<Rightarrow> nat \<Rightarrow> 's \<Rightarrow> (ErrorCode \<times> bytes \<times> nat \<times> 's) option) \<Rightarrow>
     (nat \<Rightarrow> 's \<Rightarrow> (ErrorCode \<times> 's) option) \<Rightarrow> nat \<Rightarrow> read_call \<Rightarrow> 's shared \<Rightarrow> (read_call \<times> 's shared) option" where
  "advance rd fetch t c sh =
     (case at c of
        Enter \<Rightarrow>
          if wrap 32 (int (c_offset c) + int (c_len c)) > CHUNK_SIZE_BYTES then Some (c\<lparr>at := Return INTERNAL_ERROR\<rparr>, sh)
          else (case refs sh (c_id c) of
                  Some r \<Rightarrow> Some (c\<lparr>at := Wait r\<rparr>, sh)
                | None \<Rightarrow> Some (c\<lparr>at := Load (next_ref sh)\<rparr>, insert_new t (c_id c) sh))
      | Wait r \<Rightarrow> Some (c\<lparr>at := Held r\<rparr>, sh\<lparr>owner := (owner sh)(r := Some t)\<rparr>)
      | Held r \<Rightarrow> do {
          sh1 \<leftarrow> unlock t r sh;
          if entry_len (cells sh r) > 0 then Some (c\<lparr>at := HitTouch r\<rparr>, sh1)
          else Some (c\<lparr>at := Load (next_ref sh1)\<rparr>, insert_new t (c_id c) sh1)
        }
      | HitTouch r \<Rightarrow> do { sh1 \<leftarrow> sh_touch (c_id c) sh; Some (c\<lparr>at := HitCopy r\<rparr>, sh1) }
      | HitCopy r \<Rightarrow> copy_from r (Return OK) sh c
      | Load r \<Rightarrow> do {
          (err, sh1) \<leftarrow> read_into rd (c_id c) r sh;
          Some (c\<lparr>at := (if err = OK then Unlock r else if err = NOT_FOUND then Fetch r else Fail err r)\<rparr>, sh1)
        }
      | Fetch r \<Rightarrow> do {
          (err, st) \<leftarrow> fetch (c_id c) (sh_store sh);
          Some (c\<lparr>at := (if err = OK then Reload r else Fail err r)\<rparr>, sh\<lparr>sh_store := st\<rparr>)
        }
      | Reload r \<Rightarrow> do {
          (err, sh1) \<leftarrow> read_into rd (c_id c) r sh;
          Some (c\<lparr>at := (if err = OK then Unlock r else Fail err r)\<rparr>, sh1)
        }
      | Unlock r \<Rightarrow> do { sh1 \<leftarrow> unlock t r sh; Some (c\<lparr>at := Copy r\<rparr>, sh1) }
      | Copy r \<Rightarrow> copy_from r (Touch r) sh c
      | Touch r \<Rightarrow> do { sh1 \<leftarrow> sh_touch (c_id c) sh; Some (c\<lparr>at := Return OK\<rparr>, sh1) }
      | Fail err r \<Rightarrow> do {
          sh1 \<leftarrow> unlock t r (sh\<lparr>refs := (refs sh)(c_id c := None), cells := (cells sh)(r := (cells sh r)\<lparr>entry_len := 0\<rparr>)\<rparr>);
          Some (c\<lparr>at := Return err\<rparr>, sh1)
        }
      | Return err \<Rightarrow> None)"

text \<open>
  The threads and their calls; a finished call stays until the thread makes the next one. \<open>others\<close>
  is what the rest of the program does to the store.
\<close>

inductive provider_step ::
    "(nat \<Rightarrow> bytes \<Rightarrow> nat \<Rightarrow> 's \<Rightarrow> (ErrorCode \<times> bytes \<times> nat \<times> 's) option) \<Rightarrow>
     (nat \<Rightarrow> 's \<Rightarrow> (ErrorCode \<times> 's) option) \<Rightarrow> ('s \<Rightarrow> 's \<Rightarrow> bool) \<Rightarrow>
     's shared \<times> (nat \<rightharpoonup> read_call) \<Rightarrow> 's shared \<times> (nat \<rightharpoonup> read_call) \<Rightarrow> bool" for rd fetch others where
  invoke: "calls t = None \<or> (\<exists>c0 err. calls t = Some c0 \<and> at c0 = Return err) \<Longrightarrow> at c = Enter \<Longrightarrow>
    c_id c < 2 ^ 32 \<Longrightarrow> c_offset c + c_len c < 2 ^ 32 \<Longrightarrow> c_len c \<le> length (c_buffer c) \<Longrightarrow>
    provider_step rd fetch others (sh, calls) (sh, calls(t \<mapsto> c))"
| run: "calls t = Some c \<Longrightarrow> can_run sh (at c) \<Longrightarrow> advance rd fetch t c sh = Some (c', sh') \<Longrightarrow>
    provider_step rd fetch others (sh, calls) (sh', calls(t \<mapsto> c'))"
| interfere: "others (sh_store sh) st \<Longrightarrow> provider_step rd fetch others (sh, calls) (sh\<lparr>sh_store := st\<rparr>, calls)"

subsection \<open>A call that runs alone\<close>

text \<open>How far a call is from its return; no step of any call goes back.\<close>

fun rank :: "pc \<Rightarrow> nat" where
  "rank Enter = 9"
| "rank (Wait r) = 8"
| "rank (Held r) = 7"
| "rank (HitTouch r) = 2"
| "rank (HitCopy r) = 1"
| "rank (Load r) = 6"
| "rank (Fetch r) = 5"
| "rank (Reload r) = 4"
| "rank (Unlock r) = 3"
| "rank (Copy r) = 2"
| "rank (Touch r) = 1"
| "rank (Fail err r) = 1"
| "rank (Return err) = 0"

lemma advance_rank: "advance rd fetch t c sh = Some (c', sh') \<Longrightarrow> rank (at c') < rank (at c)"
  by (cases "at c")
    (auto simp: advance_def copy_from_def case_prod_beta Let_def Option.bind_eq_Some_conv split: if_splits option.splits)

text \<open>Nine steps are enough for a call that nobody disturbs.\<close>

fun run_alone ::
    "(nat \<Rightarrow> bytes \<Rightarrow> nat \<Rightarrow> 's \<Rightarrow> (ErrorCode \<times> bytes \<times> nat \<times> 's) option) \<Rightarrow>
     (nat \<Rightarrow> 's \<Rightarrow> (ErrorCode \<times> 's) option) \<Rightarrow> nat \<Rightarrow> nat \<Rightarrow> read_call \<Rightarrow> 's shared \<Rightarrow>
     (ErrorCode \<times> bytes \<times> nat \<times> 's shared) option" where
  "run_alone rd fetch t k c sh =
     (case (at c, k) of
        (Return err, _) \<Rightarrow> Some (err, c_buffer c, c_size c, sh)
      | (_, 0) \<Rightarrow> None
      | (_, Suc k) \<Rightarrow>
          if can_run sh (at c) then do { (c', sh') \<leftarrow> advance rd fetch t c sh; run_alone rd fetch t k c' sh' } else None)"

declare run_alone.simps [simp del]

lemma run_alone_simps:
  "at c = Return err \<Longrightarrow> run_alone rd fetch t k c sh = Some (err, c_buffer c, c_size c, sh)"
  "rank (at c) \<noteq> 0 \<Longrightarrow> can_run sh (at c) \<Longrightarrow>
     run_alone rd fetch t (Suc k) c sh = do { (c', sh') \<leftarrow> advance rd fetch t c sh; run_alone rd fetch t k c' sh' }"
  by (cases "at c"; simp add: run_alone.simps [of _ _ _ _ c])+

text \<open>The provider of the sequential model: the references resolved.\<close>

definition provider_of :: "'s shared \<Rightarrow> 's provider" where
  "provider_of sh =
     \<lparr>p_store = sh_store sh, entries = (\<lambda>i. map_option (cells sh) (refs sh i)), p_collector = sh_collector sh\<rparr>"

lemma provider_of_simps [simp]:
  "p_store (provider_of sh) = sh_store sh" "p_collector (provider_of sh) = sh_collector sh"
  "entries (provider_of sh) i = map_option (cells sh) (refs sh i)"
  by (simp_all add: provider_of_def)

lemma lru_update_commutes:
  assumes "\<And>l w. rem2 l (f w) = f (rem1 l w)"
  shows "lru_update rem2 i c (f w) = map_option (map_prod id f) (lru_update rem1 i c w)"
  by (auto simp: lru_update_def assms Let_def split: option.splits)

lemma provider_touch_of: "provider_touch i (provider_of sh) = map_option provider_of (sh_touch i sh)"
proof -
  have rem: "provider_remove_chunk l (provider_of w) = provider_of (sh_remove l w)" for l and w :: "'a shared"
    by (simp add: provider_remove_chunk_def sh_remove_def provider_of_def fun_eq_iff)
  have col: "(provider_of w)\<lparr>p_collector := c\<rparr> = provider_of (w\<lparr>sh_collector := c\<rparr>)" for c and w :: "'a shared"
    by (simp add: provider_of_def)
  show ?thesis
    using lru_update_commutes [of provider_remove_chunk provider_of sh_remove i "sh_collector sh" sh, OF rem]
    by (auto simp: provider_touch_def sh_touch_def col split: option.splits)
qed

text \<open>The outcome of a call as the sequential model gives it.\<close>

definition outcome :: "(ErrorCode \<times> bytes \<times> nat \<times> 's shared) option \<Rightarrow> (ErrorCode \<times> bytes \<times> nat \<times> 's provider) option" where
  "outcome = map_option (\<lambda>(err, buffer, n, sh). (err, buffer, n, provider_of sh))"

lemma outcome_bind: "outcome (x \<bind> f) = x \<bind> (\<lambda>y. outcome (f y))"
  by (cases x) (simp_all add: outcome_def)

lemma outcome_Some [simp]: "outcome (Some (err, buffer, n, sh)) = Some (err, buffer, n, provider_of sh)"
  by (simp add: outcome_def)

lemma provider_of_owner [simp]: "provider_of (sh\<lparr>owner := w\<rparr>) = provider_of sh"
  by (simp add: provider_of_def)

lemma outcome_touch: "outcome (sh_touch i sh \<bind> (\<lambda>sh1. Some (err, buffer, n, sh1))) =
    provider_touch i (provider_of sh) \<bind> (\<lambda>p. Some (err, buffer, n, p))"
  by (cases "sh_touch i sh") (simp_all add: provider_touch_of outcome_def)

lemma alone_unlock:
  assumes "at c = Unlock r" and "owner sh r = Some t"
  shows "outcome (run_alone rd fetch t (Suc (Suc (Suc k))) c sh) = do {
     (buffer, n) \<leftarrow> copy_out (cells sh r) (c_offset c) (c_len c) (c_buffer c);
     p \<leftarrow> provider_touch (c_id c) (provider_of sh);
     Some (OK, buffer, n, p)
   }"
proof (cases "copy_out (cells sh r) (c_offset c) (c_len c) (c_buffer c)")
  case None
  then show ?thesis using assms by (simp add: run_alone_simps advance_def unlock_def copy_from_def outcome_def)
next
  case (Some x)
  then show ?thesis
    using assms outcome_touch [of "c_id c" "sh\<lparr>owner := (owner sh)(r := None)\<rparr>" OK "fst x" "snd x"]
    by (simp add: run_alone_simps advance_def unlock_def copy_from_def case_prod_beta)
qed

lemma alone_fail:
  assumes "at c = Fail err r" and "owner sh r = Some t" and "\<And>j. refs sh j = Some r \<Longrightarrow> j = c_id c"
  shows "outcome (run_alone rd fetch t (Suc k) c sh) =
    Some (err, c_buffer c, c_size c, (provider_of sh)\<lparr>entries := (entries (provider_of sh))(c_id c := None)\<rparr>)"
proof -
  have "map_option ((cells sh)(r := e)) (refs sh j) = map_option (cells sh) (refs sh j)" if "j \<noteq> c_id c" for j e
    using assms(3) [of j] that by (cases "refs sh j") auto
  then show ?thesis using assms(1,2) by (simp add: run_alone_simps advance_def unlock_def provider_of_def fun_eq_iff)
qed

lemma sh_touch_frame:
  assumes "sh_touch i sh = Some sh'"
  shows "cells sh' = cells sh \<and> owner sh' = owner sh \<and> next_ref sh' = next_ref sh \<and> sh_store sh' = sh_store sh"
  using assms by (auto simp: sh_touch_def lru_update_def sh_remove_def Let_def split: option.splits if_splits)

lemma alone_hit:
  assumes "at c = HitTouch r"
  shows "outcome (run_alone rd fetch t (Suc (Suc k)) c sh) = do {
     p \<leftarrow> provider_touch (c_id c) (provider_of sh);
     (buffer, n) \<leftarrow> copy_out (cells sh r) (c_offset c) (c_len c) (c_buffer c);
     Some (OK, buffer, n, p)
   }"
proof (cases "sh_touch (c_id c) sh")
  case None
  then show ?thesis using assms by (simp add: run_alone_simps advance_def provider_touch_of outcome_def)
next
  case (Some sh1)
  then have "cells sh1 = cells sh" using sh_touch_frame by blast
  then show ?thesis using Some assms
    by (cases "copy_out (cells sh r) (c_offset c) (c_len c) (c_buffer c)")
      (simp_all add: run_alone_simps advance_def copy_from_def provider_touch_of outcome_def case_prod_beta)
qed

text \<open>Loading a new entry, which only the cache refers to.\<close>

definition load_new ::
    "(nat \<Rightarrow> bytes \<Rightarrow> nat \<Rightarrow> 's \<Rightarrow> (ErrorCode \<times> bytes \<times> nat \<times> 's) option) \<Rightarrow>
     (nat \<Rightarrow> 's \<Rightarrow> (ErrorCode \<times> 's) option) \<Rightarrow> read_call \<Rightarrow> 's provider \<Rightarrow> (ErrorCode \<times> bytes \<times> nat \<times> 's provider) option" where
  "load_new rd fetch c p = do {
     (err, e, st) \<leftarrow> load_entry rd fetch (c_id c) (p_store p);
     if err = OK then do {
       (buffer, n) \<leftarrow> copy_out e (c_offset c) (c_len c) (c_buffer c);
       p' \<leftarrow> provider_touch (c_id c) (p\<lparr>p_store := st, entries := (entries p)(c_id c \<mapsto> e)\<rparr>);
       Some (OK, buffer, n, p')
     }
     else Some (err, c_buffer c, c_size c, p\<lparr>p_store := st, entries := (entries p)(c_id c := None)\<rparr>)
   }"

lemma provider_of_loaded:
  assumes "refs sh i = Some r" and "\<And>j. refs sh j = Some r \<Longrightarrow> j = i"
  shows "provider_of (sh\<lparr>sh_store := st, cells := (cells sh)(r := e)\<rparr>) =
    (provider_of sh)\<lparr>p_store := st, entries := (entries (provider_of sh))(i \<mapsto> e)\<rparr>"
proof -
  have "map_option ((cells sh)(r := e)) (refs sh j) = map_option (cells sh) (refs sh j)" if "j \<noteq> i" for j
    using assms(2) [of j] that by (cases "refs sh j") auto
  then show ?thesis using assms(1) by (simp add: provider_of_def fun_eq_iff)
qed

lemma alone_load:
  assumes c: "at c = Load r" and own: "owner sh r = Some t" and new: "cells sh r = new_entry"
    and ref: "refs sh (c_id c) = Some r" and only: "\<And>j. refs sh j = Some r \<Longrightarrow> j = c_id c"
  shows "outcome (run_alone rd fetch t (Suc (Suc (Suc (Suc (Suc (Suc k)))))) c sh) = load_new rd fetch c (provider_of sh)"
proof -
  define S where "S st d l = sh\<lparr>sh_store := st, cells := (cells sh)(r := \<lparr>entry_data = d, entry_len = l\<rparr>)\<rparr>" for st d l
  have S: "provider_of (S st d l) = (provider_of sh)\<lparr>p_store := st, entries := (entries (provider_of sh))(c_id c \<mapsto> \<lparr>entry_data = d, entry_len = l\<rparr>)\<rparr>"
    "owner (S st d l) = owner sh" "refs (S st d l) = refs sh" "cells (S st d l) r = \<lparr>entry_data = d, entry_len = l\<rparr>" "sh_store (S st d l) = st" for st d l
    using provider_of_loaded [OF ref only] by (simp_all add: S_def)
  have fails: "outcome (run_alone rd fetch t (Suc k) (c\<lparr>at := Fail err r\<rparr>) (S st d l)) =
      Some (err, c_buffer c, c_size c, (provider_of sh)\<lparr>p_store := st, entries := (entries (provider_of sh))(c_id c := None)\<rparr>)"
    for k err st d l
    using alone_fail [of "c\<lparr>at := Fail err r\<rparr>" err r "S st d l" t rd fetch k] own only by (simp add: S)
  have swap: "(S st d l)\<lparr>sh_store := st'\<rparr> = S st' d l" for st d l st' by (simp add: S_def)
  have reload: "outcome (run_alone rd fetch t (Suc (Suc (Suc (Suc k)))) (c\<lparr>at := Reload r\<rparr>) (S st d l)) =
      (case rd (c_id c) d l st of
         None \<Rightarrow> None
       | Some (err, d', l', st') \<Rightarrow>
           if err = OK then do {
             (buffer, n) \<leftarrow> copy_out \<lparr>entry_data = d', entry_len = l'\<rparr> (c_offset c) (c_len c) (c_buffer c);
             p \<leftarrow> provider_touch (c_id c) (provider_of (S st' d' l'));
             Some (OK, buffer, n, p)
           }
           else Some (err, c_buffer c, c_size c, (provider_of sh)\<lparr>p_store := st', entries := (entries (provider_of sh))(c_id c := None)\<rparr>))"
    for st d l
  proof (cases "rd (c_id c) d l st")
    case None
    then show ?thesis by (simp add: run_alone_simps advance_def read_into_def S outcome_def)
  next
    case (Some x)
    obtain err d' l' st' where x: "x = (err, d', l', st')" by (cases x)
    have "run_alone rd fetch t (Suc (Suc (Suc (Suc k)))) (c\<lparr>at := Reload r\<rparr>) (S st d l) =
        run_alone rd fetch t (Suc (Suc (Suc k))) (c\<lparr>at := (if err = OK then Unlock r else Fail err r)\<rparr>) (S st' d' l')"
      using run_alone_simps(2) [of "c\<lparr>at := Reload r\<rparr>" "S st d l" rd fetch t "Suc (Suc (Suc k))"] Some x
      by (simp add: advance_def read_into_def S_def)
    then show ?thesis using Some x own by (simp add: fails alone_unlock S)
  qed
  show ?thesis
  proof (cases "rd (c_id c) (entry_data new_entry) (entry_len new_entry) (sh_store sh)")
    case None
    then show ?thesis using c new
      by (simp add: run_alone_simps advance_def read_into_def load_new_def load_entry_def outcome_def)
  next
    case (Some x)
    obtain err d l st where x: "x = (err, d, l, st)" by (cases x)
    have step: "run_alone rd fetch t (Suc (Suc (Suc (Suc (Suc (Suc k)))))) c sh = run_alone rd fetch t (Suc (Suc (Suc (Suc (Suc k)))))
        (c\<lparr>at := (if err = OK then Unlock r else if err = NOT_FOUND then Fetch r else Fail err r)\<rparr>) (S st d l)"
      using c new Some x by (simp add: run_alone_simps advance_def read_into_def S_def)
    consider "err = OK" | "err = NOT_FOUND" | "err \<noteq> OK" "err \<noteq> NOT_FOUND" by blast
    then show ?thesis
    proof cases
      case 1
      then show ?thesis unfolding step using Some x own
        by (simp add: alone_unlock S load_new_def load_entry_def)
    next
      case 3
      then show ?thesis unfolding step using Some x
        by (simp add: fails load_new_def load_entry_def)
    next
      case 2
      show ?thesis
      proof (cases "fetch (c_id c) st")
        case None
        then show ?thesis unfolding step using Some x 2
          by (simp add: run_alone_simps advance_def S outcome_def load_new_def load_entry_def)
      next
        case fetched: (Some y)
        obtain err' st' where y: "y = (err', st')" by (cases y)
        have next_step: "run_alone rd fetch t (Suc (Suc (Suc (Suc (Suc k))))) (c\<lparr>at := Fetch r\<rparr>) (S st d l) =
            run_alone rd fetch t (Suc (Suc (Suc (Suc k)))) (c\<lparr>at := (if err' = OK then Reload r else Fail err' r)\<rparr>) (S st' d l)"
          using run_alone_simps(2) [of "c\<lparr>at := Fetch r\<rparr>" "S st d l" rd fetch t "Suc (Suc (Suc (Suc k)))"] fetched y
          by (simp add: advance_def S swap)
        show ?thesis using Some x 2 fetched y unfolding step
          by (cases "rd (c_id c) d l st'") (auto simp: next_step fails reload S(1) load_new_def load_entry_def)
      qed
    qed
  qed
qed

text \<open>A call that runs alone, from a state in which no entry is locked, is the call of the sequential model.\<close>

lemma provider_read_load_new:
  assumes "\<not> wrap 32 (int (c_offset c) + int (c_len c)) > CHUNK_SIZE_BYTES"
    and "case entries p (c_id c) of None \<Rightarrow> True | Some e \<Rightarrow> entry_len e = 0"
  shows "provider_read_chunk rd fetch (c_id c) (c_buffer c) (c_offset c) (c_len c) (c_size c) p = load_new rd fetch c p"
  using assms by (cases "entries p (c_id c)") (simp_all add: provider_read_chunk_def load_new_def)

lemma alone_new:
  assumes c: "at c = Load (next_ref sh)" and used: "\<And>j r. refs sh j = Some r \<Longrightarrow> r < next_ref sh"
    and p: "case refs sh (c_id c) of None \<Rightarrow> True | Some r \<Rightarrow> entry_len (cells sh r) = 0"
    and guard: "\<not> wrap 32 (int (c_offset c) + int (c_len c)) > CHUNK_SIZE_BYTES"
  shows "outcome (run_alone rd fetch t (Suc (Suc (Suc (Suc (Suc (Suc k)))))) c (insert_new t (c_id c) sh)) =
    provider_read_chunk rd fetch (c_id c) (c_buffer c) (c_offset c) (c_len c) (c_size c) (provider_of sh)"
proof -
  let ?sh = "insert_new t (c_id c) sh"
  have only: "refs ?sh j = Some (next_ref sh) \<Longrightarrow> j = c_id c" for j
    using used [of j "next_ref sh"] by (auto simp: insert_new_def split: if_splits)
  have "outcome (run_alone rd fetch t (Suc (Suc (Suc (Suc (Suc (Suc k)))))) c ?sh) = load_new rd fetch c (provider_of ?sh)"
    by (rule alone_load [OF c _ _ _ only]) (simp_all add: insert_new_def)
  moreover have "provider_of ?sh = (provider_of sh)\<lparr>entries := (entries (provider_of sh))(c_id c \<mapsto> new_entry)\<rparr>"
  proof -
    have "map_option ((cells sh)(next_ref sh := new_entry)) (refs sh j) = map_option (cells sh) (refs sh j)" for j
      using used [of j] by (cases "refs sh j") auto
    then show ?thesis by (simp add: provider_of_def insert_new_def fun_eq_iff)
  qed
  moreover have "load_new rd fetch c ((provider_of sh)\<lparr>entries := (entries (provider_of sh))(c_id c \<mapsto> new_entry)\<rparr>) =
      load_new rd fetch c (provider_of sh)"
    by (cases "load_entry rd fetch (c_id c) (sh_store sh)") (simp_all add: load_new_def split: prod.splits)
  ultimately show ?thesis
    using p guard by (subst provider_read_load_new) (auto split: option.splits)
qed

lemma call_alone:
  assumes c: "at c = Enter" and free: "\<And>r. owner sh r = None" and used: "\<And>j r. refs sh j = Some r \<Longrightarrow> r < next_ref sh"
  shows "outcome (run_alone rd fetch t 9 c sh) =
    provider_read_chunk rd fetch (c_id c) (c_buffer c) (c_offset c) (c_len c) (c_size c) (provider_of sh)"
proof (cases "wrap 32 (int (c_offset c) + int (c_len c)) > CHUNK_SIZE_BYTES")
  case True
  then show ?thesis using c by (simp add: eval_nat_numeral run_alone_simps advance_def provider_read_chunk_def)
next
  case guard: False
  have nine: "9 = Suc (Suc (Suc (Suc (Suc (Suc (Suc (Suc (Suc 0))))))))" by simp
  show ?thesis
  proof (cases "refs sh (c_id c)")
    case None
    then have "run_alone rd fetch t 9 c sh =
        run_alone rd fetch t (Suc (Suc (Suc (Suc (Suc (Suc (Suc (Suc 0)))))))) (c\<lparr>at := Load (next_ref sh)\<rparr>) (insert_new t (c_id c) sh)"
      unfolding nine using run_alone_simps(2) [of c sh] c guard by (simp add: advance_def)
    then show ?thesis using alone_new [of "c\<lparr>at := Load (next_ref sh)\<rparr>" sh, OF _ used] None guard by simp
  next
    case (Some r)
    have same: "sh\<lparr>owner := (owner sh)(r := None)\<rparr> = sh" using free by (simp add: fun_upd_idem)
    have wait: "run_alone rd fetch t 9 c sh =
        run_alone rd fetch t (Suc (Suc (Suc (Suc (Suc (Suc (Suc 0))))))) (c\<lparr>at := Held r\<rparr>) (sh\<lparr>owner := (owner sh)(r := Some t)\<rparr>)"
      unfolding nine
      using run_alone_simps(2) [of c sh rd fetch t] run_alone_simps(2) [of "c\<lparr>at := Wait r\<rparr>" sh rd fetch t] c guard Some free
      by (simp add: advance_def)
    have held: "advance rd fetch t (c\<lparr>at := Held r\<rparr>) (sh\<lparr>owner := (owner sh)(r := Some t)\<rparr>) =
        (if 0 < entry_len (cells sh r) then Some (c\<lparr>at := HitTouch r\<rparr>, sh)
         else Some (c\<lparr>at := Load (next_ref sh)\<rparr>, insert_new t (c_id c) sh))"
      by (simp add: advance_def unlock_def same)
    show ?thesis
    proof (cases "entry_len (cells sh r) > 0")
      case True
      have "outcome (run_alone rd fetch t (Suc (Suc k)) (c\<lparr>at := HitTouch r\<rparr>) sh) =
          provider_read_chunk rd fetch (c_id c) (c_buffer c) (c_offset c) (c_len c) (c_size c) (provider_of sh)" for k
        using alone_hit [of "c\<lparr>at := HitTouch r\<rparr>" r rd fetch t k sh] Some True guard by (simp add: provider_read_chunk_def)
      then show ?thesis using run_alone_simps(2) [of "c\<lparr>at := Held r\<rparr>" "sh\<lparr>owner := (owner sh)(r := Some t)\<rparr>" rd fetch t] True
        by (simp add: wait held)
    next
      case False
      then have "outcome (run_alone rd fetch t 9 c sh) = outcome (run_alone rd fetch t (Suc (Suc (Suc (Suc (Suc (Suc 0))))))
          (c\<lparr>at := Load (next_ref sh)\<rparr>) (insert_new t (c_id c) sh))"
        using run_alone_simps(2) [of "c\<lparr>at := Held r\<rparr>" "sh\<lparr>owner := (owner sh)(r := Some t)\<rparr>" rd fetch t] by (simp add: wait held)
      then show ?thesis using alone_new [of "c\<lparr>at := Load (next_ref sh)\<rparr>" sh, OF _ used] Some False guard by simp
    qed
  qed
qed

subsection \<open>What holds at every program counter\<close>

text \<open>The entry whose mutex a call holds, that it loads, that it copies from without the mutex, that it refers to.\<close>

fun holds :: "pc \<Rightarrow> nat option" where
  "holds (Held r) = Some r"
| "holds (Load r) = Some r"
| "holds (Fetch r) = Some r"
| "holds (Reload r) = Some r"
| "holds (Unlock r) = Some r"
| "holds (Fail err r) = Some r"
| "holds _ = None"

fun loading :: "pc \<Rightarrow> nat option" where
  "loading (Load r) = Some r"
| "loading (Fetch r) = Some r"
| "loading (Reload r) = Some r"
| "loading (Fail err r) = Some r"
| "loading _ = None"

fun copying :: "pc \<Rightarrow> nat option" where
  "copying (HitTouch r) = Some r"
| "copying (HitCopy r) = Some r"
| "copying (Copy r) = Some r"
| "copying _ = None"

fun ref_of :: "pc \<Rightarrow> nat option" where
  "ref_of (Wait r) = Some r"
| "ref_of p = (case holds p of None \<Rightarrow> copying p | Some r \<Rightarrow> Some r)"

text \<open>A call that has put an entry into the cache and not yet entered it into the collector.\<close>

fun pending :: "pc \<Rightarrow> bool" where
  "pending (Load r) = True"
| "pending (Fetch r) = True"
| "pending (Reload r) = True"
| "pending (Unlock r) = True"
| "pending (Copy r) = True"
| "pending (Touch r) = True"
| "pending (Fail err r) = True"
| "pending _ = False"

text \<open>What a call gives that returns OK: the bytes of the chunk at the beginning of its buffer.\<close>

definition result_ok :: "(nat \<rightharpoonup> bytes) \<Rightarrow> read_call \<Rightarrow> bool" where
  "result_ok T c \<longleftrightarrow> (\<exists>d. T (c_id c) = Some d \<and>
     c_size c = (if c_offset c \<le> length d then min (c_len c) (length d - c_offset c) else c_len c) \<and>
     (c_offset c \<le> length d \<longrightarrow> take (c_size c) (c_buffer c) = take (c_size c) (drop (c_offset c) d)))"

fun pc_ok :: "(nat \<rightharpoonup> bytes) \<Rightarrow> (nat \<Rightarrow> CacheEntry) \<Rightarrow> read_call \<Rightarrow> pc \<Rightarrow> bool" where
  "pc_ok T e c Enter = True"
| "pc_ok T e c (Wait r) = (c_offset c + c_len c \<le> CHUNK_SIZE_BYTES)"
| "pc_ok T e c (Held r) = (c_offset c + c_len c \<le> CHUNK_SIZE_BYTES)"
| "pc_ok T e c (HitTouch r) = (c_offset c + c_len c \<le> CHUNK_SIZE_BYTES \<and> entry_ok T (c_id c) (e r))"
| "pc_ok T e c (HitCopy r) = (c_offset c + c_len c \<le> CHUNK_SIZE_BYTES \<and> entry_ok T (c_id c) (e r))"
| "pc_ok T e c (Unlock r) = (c_offset c + c_len c \<le> CHUNK_SIZE_BYTES \<and> entry_ok T (c_id c) (e r))"
| "pc_ok T e c (Copy r) = (c_offset c + c_len c \<le> CHUNK_SIZE_BYTES \<and> entry_ok T (c_id c) (e r))"
| "pc_ok T e c (Load r) = (c_offset c + c_len c \<le> CHUNK_SIZE_BYTES \<and> e r = new_entry)"
| "pc_ok T e c (Fetch r) = (c_offset c + c_len c \<le> CHUNK_SIZE_BYTES \<and> e r = new_entry)"
| "pc_ok T e c (Reload r) = (c_offset c + c_len c \<le> CHUNK_SIZE_BYTES \<and> e r = new_entry)"
| "pc_ok T e c (Touch r) = result_ok T c"
| "pc_ok T e c (Fail err r) = (err \<noteq> OK)"
| "pc_ok T e c (Return err) = (err = OK \<longrightarrow> result_ok T c)"

definition call_ok :: "(nat \<rightharpoonup> bytes) \<Rightarrow> (nat \<Rightarrow> nat) \<Rightarrow> 's shared \<Rightarrow> read_call \<Rightarrow> bool" where
  "call_ok T idof sh c \<longleftrightarrow> c_id c < 2 ^ 32 \<and> c_offset c + c_len c < 2 ^ 32 \<and> c_len c \<le> length (c_buffer c) \<and>
     (\<forall>r. ref_of (at c) = Some r \<longrightarrow> r < next_ref sh \<and> idof r = c_id c) \<and> pc_ok T (cells sh) c (at c)"

text \<open>What holds of the cache; \<open>idof r\<close> is the chunk that the entry \<open>r\<close> was made for.\<close>

definition shared_ok :: "(nat \<rightharpoonup> bytes) \<Rightarrow> (nat \<Rightarrow> nat) \<Rightarrow> 's shared \<Rightarrow> bool" where
  "shared_ok T idof sh \<longleftrightarrow> lru_inv (sh_collector sh) \<and> 0 < lru_size (sh_collector sh) \<and>
     (\<forall>i r. refs sh i = Some r \<longrightarrow> r < next_ref sh \<and> idof r = i) \<and>
     (\<forall>r. length (entry_data (cells sh r)) = CHUNK_SIZE_BYTES \<and>
        (0 < entry_len (cells sh r) \<longrightarrow> entry_ok T (idof r) (cells sh r)))"

text \<open>
  What a step of a call guarantees to the others: it writes only to the entry that it loads, takes
  and gives back only its own locks, and starts to load only new entries.
\<close>

definition guarantee ::
    "nat \<Rightarrow> (nat \<Rightarrow> nat) \<Rightarrow> 's shared \<Rightarrow> pc \<Rightarrow> (nat \<Rightarrow> nat) \<Rightarrow> 's shared \<Rightarrow> pc \<Rightarrow> bool" where
  "guarantee t idof sh p idof' sh' p' \<longleftrightarrow> next_ref sh \<le> next_ref sh' \<and>
     lru_size (sh_collector sh') = lru_size (sh_collector sh) \<and>
     (\<forall>r < next_ref sh. idof' r = idof r \<and> (cells sh' r = cells sh r \<or> loading p = Some r)) \<and>
     (\<forall>r u. u \<noteq> t \<longrightarrow> (owner sh' r = Some u \<longrightarrow> owner sh r = Some u) \<and>
        (r < next_ref sh \<longrightarrow> owner sh r = Some u \<longrightarrow> owner sh' r = Some u)) \<and>
     (\<forall>r. loading p' = Some r \<longrightarrow> loading p = Some r \<or> next_ref sh \<le> r) \<and>
     (\<forall>r. copying p' = Some r \<longrightarrow> copying p = Some r \<or> holds p = Some r) \<and>
     (\<forall>r. owner sh' r = Some t \<longleftrightarrow> holds p' = Some r)"

text \<open>The ids in the cache are those in the collector and those that are pending.\<close>

definition cached :: "nat set \<Rightarrow> 's shared \<Rightarrow> bool" where
  "cached P sh \<longleftrightarrow> dom (refs sh) \<subseteq> set (lru_ids (sh_collector sh)) \<union> P"

definition own_pending :: "read_call \<Rightarrow> nat set" where
  "own_pending c = (if pending (at c) then {c_id c} else {})"

text \<open>What is shown of each step of a call.\<close>

definition good_step ::
    "(nat \<rightharpoonup> bytes) \<Rightarrow> ('s \<Rightarrow> nat \<rightharpoonup> bytes) \<Rightarrow> ('s \<Rightarrow> bool) \<Rightarrow> nat \<Rightarrow> (nat \<Rightarrow> nat) \<Rightarrow> 's shared \<Rightarrow> read_call \<Rightarrow>
     read_call \<times> 's shared \<Rightarrow> bool" where
  "good_step T lk good t idof sh c x \<longleftrightarrow> (case x of (c', sh') \<Rightarrow> \<exists>idof'.
     faithful T lk good (sh_store sh') \<and> shared_ok T idof' sh' \<and> call_ok T idof' sh' c' \<and> c_id c' = c_id c \<and>
     guarantee t idof sh (at c) idof' sh' (at c') \<and>
     (\<forall>P. cached (P \<union> own_pending c) sh \<longrightarrow> cached (P \<union> own_pending c') sh'))"

subsection \<open>Every step keeps it\<close>

lemma guarantee_quiet:
  assumes "owner sh' = owner sh" and "next_ref sh' = next_ref sh" and "lru_size (sh_collector sh') = lru_size (sh_collector sh)"
    and "\<And>r. cells sh' r = cells sh r \<or> loading p = Some r"
    and "holds p' = holds p" and "loading p' = None \<or> loading p' = loading p" and "copying p' = None \<or> copying p' = copying p"
    and "\<And>r. owner sh r = Some t \<longleftrightarrow> holds p = Some r"
  shows "guarantee t idof sh p idof sh' p'"
  using assms by (auto simp: guarantee_def)

lemma guarantee_unlock:
  assumes "next_ref sh' = next_ref sh" and "owner sh' = (owner sh)(r := None)" and "lru_size (sh_collector sh') = lru_size (sh_collector sh)"
    and "\<And>j. cells sh' j = cells sh j \<or> loading p = Some j"
    and "holds p = Some r" and "holds p' = None" and "copying p' = None \<or> copying p' = Some r" and "loading p' = None"
    and "\<And>r. owner sh r = Some t \<longleftrightarrow> holds p = Some r"
  shows "guarantee t idof sh p idof sh' p'"
proof -
  have "u = t" if "owner sh r = Some u" for u using assms(5) assms(9) [of r] that by simp
  then show ?thesis using assms by (auto simp: guarantee_def)
qed

text \<open>A new entry, put into the cache by a thread that has just unlocked what it held.\<close>

lemma insert_new_ok:
  assumes sh: "shared_ok T idof sh" and c: "call_ok T idof sh c" "c_offset c + c_len c \<le> CHUNK_SIZE_BYTES"
    and own: "\<And>r. owner sh r = Some t \<longleftrightarrow> holds (at c) = Some r"
    and sh1: "sh1 = sh\<lparr>owner := w\<rparr>" "\<And>r. w r = (if holds (at c) = Some r then None else owner sh r)"
  shows "shared_ok T (idof(next_ref sh := c_id c)) (insert_new t (c_id c) sh1) \<and>
    call_ok T (idof(next_ref sh := c_id c)) (insert_new t (c_id c) sh1) (c\<lparr>at := Load (next_ref sh)\<rparr>) \<and>
    guarantee t idof sh (at c) (idof(next_ref sh := c_id c)) (insert_new t (c_id c) sh1) (Load (next_ref sh)) \<and>
    (cached (P \<union> own_pending c) sh \<longrightarrow> cached (P \<union> own_pending (c\<lparr>at := Load (next_ref sh)\<rparr>)) (insert_new t (c_id c) sh1))"
proof (intro conjI)
  have fresh: "length (entry_data new_entry) = CHUNK_SIZE_BYTES" "entry_len new_entry = 0" by (simp_all add: new_entry_def)
  show "shared_ok T (idof(next_ref sh := c_id c)) (insert_new t (c_id c) sh1)"
    using sh fresh unfolding shared_ok_def sh1(1) insert_new_def by (auto split: if_splits) (metis less_irrefl less_SucI)+
  show "call_ok T (idof(next_ref sh := c_id c)) (insert_new t (c_id c) sh1) (c\<lparr>at := Load (next_ref sh)\<rparr>)"
    using c by (simp add: call_ok_def sh1(1) insert_new_def)
  show "guarantee t idof sh (at c) (idof(next_ref sh := c_id c)) (insert_new t (c_id c) sh1) (Load (next_ref sh))"
  proof -
    have "u = t" if "holds (at c) = Some r" "owner sh r = Some u" for r u using own [of r] that by simp
    then show ?thesis using own sh1 unfolding guarantee_def by (auto simp: insert_new_def split: if_splits)
  qed
  show "cached (P \<union> own_pending c) sh \<longrightarrow> cached (P \<union> own_pending (c\<lparr>at := Load (next_ref sh)\<rparr>)) (insert_new t (c_id c) sh1)"
    by (auto simp: cached_def own_pending_def insert_new_def sh1(1) split: if_splits)
qed

lemma sh_touch_ok:
  assumes "lru_inv (sh_collector sh)" and "0 < lru_size (sh_collector sh)"
  shows "\<exists>sh'. sh_touch i sh = Some sh' \<and> refs sh' \<subseteq>\<^sub>m refs sh \<and> lru_inv (sh_collector sh') \<and>
    lru_size (sh_collector sh') = lru_size (sh_collector sh) \<and>
    (\<forall>P. cached (P \<union> {i}) sh \<longrightarrow> cached P sh') \<and> (\<forall>P. cached P sh \<longrightarrow> cached P sh')"
proof -
  obtain c w where u: "lru_update sh_remove i (sh_collector sh) sh = Some (c, w)" "lru_inv c" "lru_size c = lru_size (sh_collector sh)"
      "w = sh \<and> set (lru_ids c) = insert i (set (lru_ids (sh_collector sh))) \<or>
       (\<exists>l. w = sh_remove l sh \<and> set (lru_ids c) = insert i (set (lru_ids (sh_collector sh))) - {l})"
    using lru.update_client [OF assms, where keys = "\<lambda>_. {}" and w = sh and i = i and remover = sh_remove] by auto
  have both: "cached P (w\<lparr>sh_collector := c\<rparr>)" if "cached (P \<union> {i}) sh" for P
  proof -
    have "j = i \<or> j \<in> set (lru_ids (sh_collector sh)) \<or> j \<in> P" if "refs sh j = Some y" for j y
      using \<open>cached (P \<union> {i}) sh\<close> that by (auto simp: cached_def)
    then show ?thesis using u(4) by (fastforce simp: cached_def sh_remove_def split: if_splits)
  qed
  have "cached P (w\<lparr>sh_collector := c\<rparr>)" if "cached P sh" for P
    using that by (intro both) (auto simp: cached_def)
  moreover have "refs (sh_remove l sh) \<subseteq>\<^sub>m refs sh" for l by (auto simp: sh_remove_def map_le_def)
  then have "refs w \<subseteq>\<^sub>m refs sh" using u(4) map_le_refl by metis
  ultimately show ?thesis using u(1-3) both
    by (intro exI [of _ "w\<lparr>sh_collector := c\<rparr>"] conjI allI impI) (simp_all add: sh_touch_def)
qed

lemma touched_ok:
  assumes sh: "shared_ok T idof sh" and "faithful T lk good (sh_store sh)"
  shows "\<exists>sh'. sh_touch i sh = Some sh' \<and> faithful T lk good (sh_store sh') \<and> shared_ok T idof sh' \<and>
    cells sh' = cells sh \<and> owner sh' = owner sh \<and> next_ref sh' = next_ref sh \<and>
    lru_size (sh_collector sh') = lru_size (sh_collector sh) \<and>
    (\<forall>P. cached (P \<union> {i}) sh \<longrightarrow> cached P sh') \<and> (\<forall>P. cached P sh \<longrightarrow> cached P sh')"
proof -
  have l: "lru_inv (sh_collector sh)" "0 < lru_size (sh_collector sh)" using sh by (simp_all add: shared_ok_def)
  obtain sh' where t: "sh_touch i sh = Some sh'" "refs sh' \<subseteq>\<^sub>m refs sh" "lru_inv (sh_collector sh')"
      "lru_size (sh_collector sh') = lru_size (sh_collector sh)"
      "(\<forall>P. cached (P \<union> {i}) sh \<longrightarrow> cached P sh') \<and> (\<forall>P. cached P sh \<longrightarrow> cached P sh')"
    using sh_touch_ok [OF l, of i] by blast
  note f = sh_touch_frame [OF t(1)]
  have "refs sh j = Some r" if "refs sh' j = Some r" for j r using t(2) that by (metis domI map_le_def)
  then have "\<forall>i r. refs sh' i = Some r \<longrightarrow> r < next_ref sh \<and> idof r = i" using sh unfolding shared_ok_def by blast
  then have "shared_ok T idof sh'" using sh t(3,4) f unfolding shared_ok_def by simp
  then show ?thesis using t f assms(2) by auto
qed

lemma copied_ok:
  assumes c: "call_ok T idof sh c" "entry_ok T (c_id c) (cells sh r)" "c_offset c + c_len c \<le> CHUNK_SIZE_BYTES"
  shows "\<exists>c'. copy_from r p sh c = Some (c', sh) \<and> at c' = p \<and> c_id c' = c_id c \<and> c_offset c' = c_offset c \<and> c_len c' = c_len c \<and>
    length (c_buffer c') = length (c_buffer c) \<and> result_ok T c'"
proof -
  obtain d where d: "T (c_id c) = Some d" using c(2) by (auto simp: entry_ok_def)
  obtain buffer n where "copy_out (cells sh r) (c_offset c) (c_len c) (c_buffer c) = Some (buffer, n)"
      "length buffer = length (c_buffer c)" "n = (if c_offset c \<le> length d then min (c_len c) (length d - c_offset c) else c_len c)"
      "c_offset c \<le> length d \<longrightarrow> buffer = take n (drop (c_offset c) d) @ drop n (c_buffer c)"
    using copy_out_ok [OF c(2) d c(3)] c(1) by (auto simp: call_ok_def)
  then show ?thesis using d by (auto simp: copy_from_def result_ok_def)
qed

text \<open>Steps that leave the shared state alone but for the store, the entry that is loaded, or the collector.\<close>

lemma good_stepI:
  assumes "faithful T lk good (sh_store sh')" and "shared_ok T idof sh'" and "next_ref sh' = next_ref sh"
    and "call_ok T idof sh c" and "c_id c' = c_id c" and "c_offset c' = c_offset c" and "c_len c' = c_len c"
    and "length (c_buffer c') = length (c_buffer c)"
    and "ref_of (at c') = None \<or> ref_of (at c') = ref_of (at c)" and "pc_ok T (cells sh') c' (at c')"
    and "guarantee t idof sh (at c) idof sh' (at c')"
    and "\<And>P. cached (P \<union> own_pending c) sh \<Longrightarrow> cached (P \<union> own_pending c') sh'"
  shows "good_step T lk good t idof sh c (c', sh')"
  using assms unfolding good_step_def call_ok_def by (intro case_prodI exI [of _ idof]) auto

context chunk_map
begin

lemma step_local:
  assumes st: "faithful T lookup inv (sh_store sh)" "shared_ok T idof sh" "call_ok T idof sh c"
    and own: "\<And>r. owner sh r = Some t \<longleftrightarrow> holds (at c) = Some r" and run: "can_run sh (at c)"
    and p: "at c = Enter \<or> (\<exists>r. at c = Wait r) \<or> (\<exists>r. at c = Held r) \<or> (\<exists>r. at c = Unlock r)"
  shows "\<exists>x. advance rd fetch t c sh = Some x \<and> good_step T lookup inv t idof sh c x"
proof -
  have wrap: "wrap 32 (int (c_offset c) + int (c_len c)) = c_offset c + c_len c"
    using st(3) by (intro wrap_add) (simp add: call_ok_def)
  consider "at c = Enter" | r where "at c = Wait r" | r where "at c = Held r" | r where "at c = Unlock r" using p by blast
  then show ?thesis
  proof cases
    case 1
    consider "CHUNK_SIZE_BYTES < c_offset c + c_len c" | r where "c_offset c + c_len c \<le> CHUNK_SIZE_BYTES" "refs sh (c_id c) = Some r"
      | "c_offset c + c_len c \<le> CHUNK_SIZE_BYTES" "refs sh (c_id c) = None" by fastforce
    then show ?thesis
    proof cases
      case a: 1
      then have "good_step T lookup inv t idof sh c (c\<lparr>at := Return INTERNAL_ERROR\<rparr>, sh)"
        using st own 1 by (intro good_stepI guarantee_quiet) (auto simp: own_pending_def)
      then show ?thesis using a 1 by (simp add: advance_def wrap)
    next
      case a: 2
      have "r < next_ref sh" "idof r = c_id c" using st(2) a(2) by (auto simp: shared_ok_def)
      moreover have "guarantee t idof sh (at c) idof sh (Wait r)" using own 1 by (intro guarantee_quiet) auto
      ultimately have "good_step T lookup inv t idof sh c (c\<lparr>at := Wait r\<rparr>, sh)"
        using st a 1 by (auto simp: good_step_def call_ok_def own_pending_def)
      then show ?thesis using a 1 by (simp add: advance_def wrap)
    next
      case a: 3
      note new = insert_new_ok [OF st(2,3) a(1) own, of sh "owner sh"]
      have "good_step T lookup inv t idof sh c (c\<lparr>at := Load (next_ref sh)\<rparr>, insert_new t (c_id c) sh)"
        unfolding good_step_def using new 1 st(1) by (intro case_prodI exI [of _ "idof(next_ref sh := c_id c)"]) (simp add: insert_new_def)
      then show ?thesis using a 1 by (simp add: advance_def wrap)
    qed
  next
    case (2 r)
    then have free: "owner sh r = None" using run by simp
    have "guarantee t idof sh (at c) idof (sh\<lparr>owner := (owner sh)(r := Some t)\<rparr>) (Held r)"
      using own 2 free by (auto simp: guarantee_def)
    moreover have "shared_ok T idof (sh\<lparr>owner := (owner sh)(r := Some t)\<rparr>)" using st(2) by (simp add: shared_ok_def)
    ultimately have "good_step T lookup inv t idof sh c (c\<lparr>at := Held r\<rparr>, sh\<lparr>owner := (owner sh)(r := Some t)\<rparr>)"
      using st 2 by (auto simp: good_step_def call_ok_def own_pending_def cached_def)
    then show ?thesis using 2 by (simp add: advance_def)
  next
    case (3 r)
    let ?sh = "sh\<lparr>owner := (owner sh)(r := None)\<rparr>"
    have own_r: "owner sh r = Some t" using own 3 by simp
    have sh: "shared_ok T idof ?sh" using st(2) by (simp add: shared_ok_def)
    have i: "idof r = c_id c" using st(3) 3 by (simp add: call_ok_def)
    have b: "c_offset c + c_len c \<le> CHUNK_SIZE_BYTES" using st(3) 3 by (simp add: call_ok_def)
    show ?thesis
    proof (cases "entry_len (cells sh r) > 0")
      case True
      then have e: "entry_ok T (c_id c) (cells sh r)" using st(2) i unfolding shared_ok_def by metis
      have "guarantee t idof sh (at c) idof ?sh (HitTouch r)" using own 3 by (intro guarantee_unlock [where r = r]) auto
      then have "good_step T lookup inv t idof sh c (c\<lparr>at := HitTouch r\<rparr>, ?sh)"
        using st sh 3 b e by (intro good_stepI) (auto simp: own_pending_def cached_def)
      then show ?thesis using 3 True own_r by (simp add: advance_def unlock_def)
    next
      case False
      have "((owner sh)(r := None)) j = (if holds (at c) = Some j then None else owner sh j)" for j using 3 by simp
      note new = insert_new_ok [OF st(2,3) b own, of ?sh "(owner sh)(r := None)", OF refl this]
      have "good_step T lookup inv t idof sh c (c\<lparr>at := Load (next_ref sh)\<rparr>, insert_new t (c_id c) ?sh)"
        unfolding good_step_def using new 3 st(1) by (intro case_prodI exI [of _ "idof(next_ref sh := c_id c)"]) (simp add: insert_new_def)
      then show ?thesis using 3 False own_r by (simp add: advance_def unlock_def)
    qed
  next
    case (4 r)
    let ?sh = "sh\<lparr>owner := (owner sh)(r := None)\<rparr>"
    have own_r: "owner sh r = Some t" using own 4 by simp
    have "guarantee t idof sh (at c) idof ?sh (Copy r)" using own 4 by (intro guarantee_unlock [where r = r]) auto
    moreover have "shared_ok T idof ?sh" using st(2) by (simp add: shared_ok_def)
    ultimately have "good_step T lookup inv t idof sh c (c\<lparr>at := Copy r\<rparr>, ?sh)"
      using st 4 by (intro good_stepI) (auto simp: own_pending_def cached_def call_ok_def)
    then show ?thesis using 4 own_r by (simp add: advance_def unlock_def)
  qed
qed

text \<open>Reading a chunk from the store into the entry that a call loads.\<close>

lemma read_into_ok:
  assumes st: "faithful T lookup inv (sh_store sh)" "shared_ok T idof sh" "cells sh r = new_entry" "idof r = i" "i < 2 ^ 32"
  shows "\<exists>err sh'. read_into rd i r sh = Some (err, sh') \<and> faithful T lookup inv (sh_store sh') \<and> shared_ok T idof sh' \<and>
    owner sh' = owner sh \<and> refs sh' = refs sh \<and> next_ref sh' = next_ref sh \<and> sh_collector sh' = sh_collector sh \<and>
    (\<forall>j. j \<noteq> r \<longrightarrow> cells sh' j = cells sh j) \<and>
    (err = OK \<and> entry_ok T i (cells sh' r) \<or> err = NOT_FOUND \<and> cells sh' r = new_entry)"
proof (cases "lookup (sh_store sh) i")
  case None
  have "inv (sh_store sh)" using st(1) by (simp add: faithful_def)
  from read_missing [OF this st(5) None, of new_buffer 0] obtain st1 where
    r: "rd i new_buffer 0 (sh_store sh) = Some (NOT_FOUND, new_buffer, 0, st1)" "inv st1" "lookup st1 = lookup (sh_store sh)" by auto
  have "(cells sh)(r := new_entry) = cells sh" using st(3) by (simp add: fun_upd_idem)
  then have "read_into rd i r sh = Some (NOT_FOUND, sh\<lparr>sh_store := st1\<rparr>)"
    using r(1) st(3) by (simp add: read_into_def new_entry_def)
  moreover have "faithful T lookup inv st1" using st(1) r(2,3) by (simp add: faithful_def)
  moreover have "shared_ok T idof (sh\<lparr>sh_store := st1\<rparr>)" using st(2) by (simp add: shared_ok_def)
  ultimately show ?thesis using st(3) by auto
next
  case (Some d)
  from entry_after_read [OF st(1) this, of new_buffer 0] obtain st1 where
    r: "rd i new_buffer 0 (sh_store sh) = Some (OK, d @ drop (length d) new_buffer, length d, st1)" "faithful T lookup inv st1"
      "entry_ok T i \<lparr>entry_data = d @ drop (length d) new_buffer, entry_len = length d\<rparr>" by auto
  let ?e = "\<lparr>entry_data = d @ drop (length d) new_buffer, entry_len = length d\<rparr>"
  have "length (entry_data ?e) = CHUNK_SIZE_BYTES" using r(3) by (simp add: entry_ok_def)
  then have "shared_ok T idof (sh\<lparr>sh_store := st1, cells := (cells sh)(r := ?e)\<rparr>)"
    using st(2,4) r(3) by (simp add: shared_ok_def)
  moreover have "read_into rd i r sh = Some (OK, sh\<lparr>sh_store := st1, cells := (cells sh)(r := ?e)\<rparr>)"
    using r(1) st(3) by (simp add: read_into_def new_entry_def)
  ultimately show ?thesis using r(2,3) by auto
qed

lemma step_load:
  assumes st: "faithful T lookup inv (sh_store sh)" "shared_ok T idof sh" "call_ok T idof sh c"
    and own: "\<And>r. owner sh r = Some t \<longleftrightarrow> holds (at c) = Some r" and p: "at c = Load r \<or> at c = Reload r"
  shows "\<exists>x. advance rd fetch t c sh = Some x \<and> good_step T lookup inv t idof sh c x"
proof -
  have c: "cells sh r = new_entry" "idof r = c_id c" "c_id c < 2 ^ 32" "c_offset c + c_len c \<le> CHUNK_SIZE_BYTES"
    using st(3) p by (auto simp: call_ok_def)
  obtain err sh' where r: "read_into rd (c_id c) r sh = Some (err, sh')" "faithful T lookup inv (sh_store sh')" "shared_ok T idof sh'"
      "owner sh' = owner sh" "refs sh' = refs sh" "next_ref sh' = next_ref sh" "sh_collector sh' = sh_collector sh"
      "\<forall>j. j \<noteq> r \<longrightarrow> cells sh' j = cells sh j"
      "err = OK \<and> entry_ok T (c_id c) (cells sh' r) \<or> err = NOT_FOUND \<and> cells sh' r = new_entry"
    using read_into_ok [OF st(1,2) c(1-3)] by blast
  have cell: "cells sh' j = cells sh j \<or> loading (at c) = Some j" for j using r(8) p by auto
  define q where "q = (if err = OK then Unlock r else if at c = Load r \<and> err = NOT_FOUND then Fetch r else Fail err r)"
  have "guarantee t idof sh (at c) idof sh' q"
    using cell own p r(4,6,7) by (intro guarantee_quiet) (auto simp: q_def)
  then have "good_step T lookup inv t idof sh c (c\<lparr>at := q\<rparr>, sh')"
    using st r p c(4) by (intro good_stepI) (auto simp: q_def own_pending_def cached_def)
  moreover have "advance rd fetch t c sh = Some (c\<lparr>at := q\<rparr>, sh')"
    using p r(1) by (auto simp: advance_def q_def)
  ultimately show ?thesis by blast
qed

lemma step_rest:
  assumes st: "faithful T lookup inv (sh_store sh)" "shared_ok T idof sh" "call_ok T idof sh c"
    and own: "\<And>r. owner sh r = Some t \<longleftrightarrow> holds (at c) = Some r" and f: "fetch_ok T lookup inv fetch"
    and p: "at c = HitTouch r \<or> at c = HitCopy r \<or> at c = Fetch r \<or> at c = Copy r \<or> at c = Touch r \<or> at c = Fail err r"
  shows "\<exists>x. advance rd fetch t c sh = Some x \<and> good_step T lookup inv t idof sh c x"
proof -
  consider "at c = HitTouch r" | "at c = HitCopy r" | "at c = Fetch r" | "at c = Copy r" | "at c = Touch r" | "at c = Fail err r"
    using p by blast
  then show ?thesis
  proof cases
    case 1
    obtain sh' where t: "sh_touch (c_id c) sh = Some sh'" "faithful T lookup inv (sh_store sh')" "shared_ok T idof sh'"
        "cells sh' = cells sh" "owner sh' = owner sh" "next_ref sh' = next_ref sh" "lru_size (sh_collector sh') = lru_size (sh_collector sh)"
        "\<forall>P. cached P sh \<longrightarrow> cached P sh'"
      using touched_ok [OF st(2,1)] by blast
    have "guarantee t idof sh (at c) idof sh' (HitCopy r)" using own 1 t by (intro guarantee_quiet) auto
    then have "good_step T lookup inv t idof sh c (c\<lparr>at := HitCopy r\<rparr>, sh')"
      using st 1 t by (intro good_stepI) (auto simp: own_pending_def call_ok_def)
    then show ?thesis using 1 t(1) by (simp add: advance_def)
  next
    case 2
    then have e: "entry_ok T (c_id c) (cells sh r)" "c_offset c + c_len c \<le> CHUNK_SIZE_BYTES" using st(3) by (simp_all add: call_ok_def)
    obtain c' where c: "copy_from r (Return OK) sh c = Some (c', sh)" "at c' = Return OK" "c_id c' = c_id c" "c_offset c' = c_offset c"
        "c_len c' = c_len c" "length (c_buffer c') = length (c_buffer c)" "result_ok T c'"
      using copied_ok [OF st(3) e] by blast
    have "guarantee t idof sh (at c) idof sh (Return OK)" using own 2 by (intro guarantee_quiet) auto
    then have "good_step T lookup inv t idof sh c (c', sh)"
      using st 2 c by (intro good_stepI) (auto simp: own_pending_def)
    then show ?thesis using 2 c(1) by (simp add: advance_def)
  next
    case 3
    have i: "c_id c < 2 ^ 32" using st(3) by (simp add: call_ok_def)
    obtain err' st' where ft: "fetch (c_id c) (sh_store sh) = Some (err', st')" "faithful T lookup inv st'"
      using f st(1) i unfolding fetch_ok_def by blast
    have sh: "shared_ok T idof (sh\<lparr>sh_store := st'\<rparr>)" using st(2) by (simp add: shared_ok_def)
    let ?q = "if err' = OK then Reload r else Fail err' r"
    have "guarantee t idof sh (at c) idof (sh\<lparr>sh_store := st'\<rparr>) ?q" using own 3 by (intro guarantee_quiet) auto
    then have "good_step T lookup inv t idof sh c (c\<lparr>at := ?q\<rparr>, sh\<lparr>sh_store := st'\<rparr>)"
      using st sh ft(2) 3 by (intro good_stepI) (auto simp: own_pending_def cached_def call_ok_def)
    then show ?thesis using 3 ft(1) by (simp add: advance_def)
  next
    case 4
    then have e: "entry_ok T (c_id c) (cells sh r)" "c_offset c + c_len c \<le> CHUNK_SIZE_BYTES" using st(3) by (simp_all add: call_ok_def)
    obtain c' where c: "copy_from r (Touch r) sh c = Some (c', sh)" "at c' = Touch r" "c_id c' = c_id c" "c_offset c' = c_offset c"
        "c_len c' = c_len c" "length (c_buffer c') = length (c_buffer c)" "result_ok T c'"
      using copied_ok [OF st(3) e] by blast
    have "guarantee t idof sh (at c) idof sh (Touch r)" using own 4 by (intro guarantee_quiet) auto
    then have "good_step T lookup inv t idof sh c (c', sh)"
      using st 4 c by (intro good_stepI) (auto simp: own_pending_def)
    then show ?thesis using 4 c(1) by (simp add: advance_def)
  next
    case 5
    obtain sh' where t: "sh_touch (c_id c) sh = Some sh'" "faithful T lookup inv (sh_store sh')" "shared_ok T idof sh'"
        "cells sh' = cells sh" "owner sh' = owner sh" "next_ref sh' = next_ref sh" "lru_size (sh_collector sh') = lru_size (sh_collector sh)"
        "\<forall>P. cached (P \<union> {c_id c}) sh \<longrightarrow> cached P sh'"
      using touched_ok [OF st(2,1)] by blast
    have "guarantee t idof sh (at c) idof sh' (Return OK)" using own 5 t by (intro guarantee_quiet) auto
    then have "good_step T lookup inv t idof sh c (c\<lparr>at := Return OK\<rparr>, sh')"
      using st 5 t by (intro good_stepI) (auto simp: own_pending_def call_ok_def result_ok_def)
    then show ?thesis using 5 t(1) by (simp add: advance_def)
  next
    case 6
    let ?sh = "sh\<lparr>refs := (refs sh)(c_id c := None), cells := (cells sh)(r := (cells sh r)\<lparr>entry_len := 0\<rparr>), owner := (owner sh)(r := None)\<rparr>"
    have own_r: "owner sh r = Some t" using own 6 by simp
    have "guarantee t idof sh (at c) idof ?sh (Return err)" using own 6 by (intro guarantee_unlock [where r = r]) auto
    moreover have "shared_ok T idof ?sh" using st(2) by (simp add: shared_ok_def)
    ultimately have "good_step T lookup inv t idof sh c (c\<lparr>at := Return err\<rparr>, ?sh)"
      using st 6 by (intro good_stepI) (auto simp: own_pending_def cached_def call_ok_def)
    then show ?thesis using 6 own_r by (simp add: advance_def unlock_def)
  qed
qed

lemma step_ok:
  assumes st: "faithful T lookup inv (sh_store sh)" "shared_ok T idof sh" "call_ok T idof sh c"
    and own: "\<And>r. owner sh r = Some t \<longleftrightarrow> holds (at c) = Some r" and f: "fetch_ok T lookup inv fetch" and run: "can_run sh (at c)"
  shows "\<exists>x. advance rd fetch t c sh = Some x \<and> good_step T lookup inv t idof sh c x"
  using step_local [OF st own run] step_load [OF st own] step_rest [OF st own f] run by (cases "at c") simp_all

end

subsection \<open>All threads\<close>

definition pending_ids :: "(nat \<rightharpoonup> read_call) \<Rightarrow> nat set" where
  "pending_ids calls = {c_id c |t c. calls t = Some c \<and> pending (at c)}"

text \<open>
  The locks are where the calls say; what one thread copies without a lock no other one loads; the
  cache holds what the collector knows and what is pending.
\<close>

definition threads_ok ::
    "(nat \<rightharpoonup> bytes) \<Rightarrow> ('s \<Rightarrow> nat \<rightharpoonup> bytes) \<Rightarrow> ('s \<Rightarrow> bool) \<Rightarrow> nat \<Rightarrow> (nat \<Rightarrow> nat) \<Rightarrow> 's shared \<times> (nat \<rightharpoonup> read_call) \<Rightarrow> bool" where
  "threads_ok T lk good sz idof x \<longleftrightarrow> (case x of (sh, calls) \<Rightarrow>
     faithful T lk good (sh_store sh) \<and> shared_ok T idof sh \<and> lru_size (sh_collector sh) = sz \<and>
     (\<forall>t c. calls t = Some c \<longrightarrow> call_ok T idof sh c) \<and>
     (\<forall>r t. owner sh r = Some t \<longleftrightarrow> (\<exists>c. calls t = Some c \<and> holds (at c) = Some r)) \<and>
     (\<forall>t u c d r. calls t = Some c \<longrightarrow> calls u = Some d \<longrightarrow> copying (at c) = Some r \<longrightarrow> loading (at d) \<noteq> Some r) \<and>
     cached (pending_ids calls) sh \<and> finite (dom calls))"

lemma threads_okD:
  assumes "threads_ok T lk good sz idof (sh, calls)"
  shows "faithful T lk good (sh_store sh)" and "shared_ok T idof sh" and "lru_size (sh_collector sh) = sz"
    and "calls t = Some c \<Longrightarrow> call_ok T idof sh c"
    and "owner sh r = Some t \<longleftrightarrow> (\<exists>c. calls t = Some c \<and> holds (at c) = Some r)"
    and "calls t = Some c \<Longrightarrow> calls u = Some d \<Longrightarrow> copying (at c) = Some r \<Longrightarrow> loading (at d) \<noteq> Some r"
    and "cached (pending_ids calls) sh" and "finite (dom calls)"
  using assms unfolding threads_ok_def case_prod_conv by blast+

lemma threads_okI:
  assumes "faithful T lk good (sh_store sh)" and "shared_ok T idof sh" and "lru_size (sh_collector sh) = sz"
    and "\<And>t c. calls t = Some c \<Longrightarrow> call_ok T idof sh c"
    and "\<And>r t. owner sh r = Some t \<longleftrightarrow> (\<exists>c. calls t = Some c \<and> holds (at c) = Some r)"
    and "\<And>t u c d r. calls t = Some c \<Longrightarrow> calls u = Some d \<Longrightarrow> copying (at c) = Some r \<Longrightarrow> loading (at d) \<noteq> Some r"
    and "cached (pending_ids calls) sh" and "finite (dom calls)"
  shows "threads_ok T lk good sz idof (sh, calls)"
  using assms unfolding threads_ok_def by simp

lemma loading_holds: "loading p = Some r \<Longrightarrow> holds p = Some r"
  by (cases p) simp_all

lemma ref_of_holds: "holds p = Some r \<Longrightarrow> ref_of p = Some r" and ref_of_copying: "copying p = Some r \<Longrightarrow> ref_of p = Some r"
  by (cases p; simp)+

lemma pc_ok_cong:
  assumes "\<And>r. copying p = Some r \<or> holds p = Some r \<Longrightarrow> e' r = e r"
  shows "pc_ok T e' c p = pc_ok T e c p"
  using assms by (cases p) simp_all

lemma pending_ids_upd:
  assumes "calls t = Some c"
  shows "\<exists>P. pending_ids calls = P \<union> own_pending c \<and> (\<forall>c'. pending_ids (calls(t \<mapsto> c')) = P \<union> own_pending c')"
proof (intro exI conjI allI)
  let ?P = "{c_id d |u d. u \<noteq> t \<and> calls u = Some d \<and> pending (at d)}"
  show "pending_ids calls = ?P \<union> own_pending c" using assms by (force simp: pending_ids_def own_pending_def)
  show "pending_ids (calls(t \<mapsto> c')) = ?P \<union> own_pending c'" for c' by (force simp: pending_ids_def own_pending_def split: if_splits)
qed

text \<open>A step of one call keeps what holds for the others.\<close>

lemma run_keeps:
  assumes ok: "threads_ok T lk good sz idof (sh, calls)" and c: "calls t = Some c" and step: "good_step T lk good t idof sh c (c', sh')"
  shows "\<exists>idof'. threads_ok T lk good sz idof' (sh', calls(t \<mapsto> c'))"
proof -
  obtain idof' where s: "faithful T lk good (sh_store sh')" "shared_ok T idof' sh'" "call_ok T idof' sh' c'"
      "guarantee t idof sh (at c) idof' sh' (at c')"
      "\<And>P. cached (P \<union> own_pending c) sh \<Longrightarrow> cached (P \<union> own_pending c') sh'"
    using step unfolding good_step_def by blast
  note D = threads_okD [OF ok]
  have g: "next_ref sh \<le> next_ref sh'" "lru_size (sh_collector sh') = lru_size (sh_collector sh)"
    "\<And>r. r < next_ref sh \<Longrightarrow> idof' r = idof r" "\<And>r. r < next_ref sh \<Longrightarrow> cells sh' r = cells sh r \<or> loading (at c) = Some r"
    "\<And>r u. u \<noteq> t \<Longrightarrow> owner sh' r = Some u \<Longrightarrow> owner sh r = Some u"
    "\<And>r u. u \<noteq> t \<Longrightarrow> r < next_ref sh \<Longrightarrow> owner sh r = Some u \<Longrightarrow> owner sh' r = Some u"
    "\<And>r. loading (at c') = Some r \<Longrightarrow> loading (at c) = Some r \<or> next_ref sh \<le> r"
    "\<And>r. copying (at c') = Some r \<Longrightarrow> copying (at c) = Some r \<or> holds (at c) = Some r"
    "\<And>r. owner sh' r = Some t \<longleftrightarrow> holds (at c') = Some r"
    using s(4) unfolding guarantee_def by blast+
  have apart: "u = t" if "calls u = Some d" "holds (at d) = Some r" "holds (at c) = Some r" for u d r
    using D(5) [of r] that c by (metis option.inject)
  have below: "r < next_ref sh" if "calls u = Some d" "ref_of (at d) = Some r" for u d r
    using D(4) [OF that(1)] that(2) by (simp add: call_ok_def)
  have others: "call_ok T idof' sh' d" if u: "calls u = Some d" "u \<noteq> t" for u d
  proof -
    have "cells sh' r = cells sh r" if "copying (at d) = Some r \<or> holds (at d) = Some r" for r
    proof -
      have "r < next_ref sh" using below [OF u(1)] that ref_of_holds ref_of_copying by blast
      moreover have "loading (at c) \<noteq> Some r" using D(6) [OF u(1) c, of r] apart [OF u(1)] that u(2) loading_holds by blast
      ultimately show ?thesis using g(4) by blast
    qed
    then have "pc_ok T (cells sh') d (at d) = pc_ok T (cells sh) d (at d)" by (rule pc_ok_cong)
    then show ?thesis using D(4) [OF u(1)] g(1,3) unfolding call_ok_def by (metis less_le_trans)
  qed
  have "threads_ok T lk good sz idof' (sh', calls(t \<mapsto> c'))"
  proof (rule threads_okI)
    show "call_ok T idof' sh' d" if "(calls(t \<mapsto> c')) u = Some d" for u d
      using that others s(3) by (auto split: if_splits)
    show "owner sh' r = Some u \<longleftrightarrow> (\<exists>d. (calls(t \<mapsto> c')) u = Some d \<and> holds (at d) = Some r)" for r u
    proof (cases "u = t")
      case True
      then show ?thesis using g(9) by simp
    next
      case False
      have "owner sh' r = Some u \<longleftrightarrow> owner sh r = Some u"
        using g(5,6) [OF False] D(5) [of r u] below ref_of_holds by blast
      then show ?thesis using False D(5) by simp
    qed
    show "loading (at e) \<noteq> Some r"
      if "(calls(t \<mapsto> c')) u = Some d" "(calls(t \<mapsto> c')) v = Some e" "copying (at d) = Some r" for u v d e r
    proof
      assume l: "loading (at e) = Some r"
      note asm = that
      have "copying (at c') = Some r \<Longrightarrow> loading (at c') \<noteq> Some r" by (cases "at c'") simp_all
      then consider "u \<noteq> t" "v \<noteq> t" | "u = t" "v \<noteq> t" "d = c'" | "u \<noteq> t" "v = t" "e = c'" using asm l by (auto split: if_splits)
      then show False
      proof cases
        case 1
        then show False using that l D(6) [of u d v e r] by simp
      next
        case 2
        then have "calls v = Some e" using that(2) by simp
        then show False using g(8) [of r] that(3) 2 D(6) [OF c] apart loading_holds l by blast
      next
        case 3
        then have "calls u = Some d" using that(1) by simp
        moreover from this have "r < next_ref sh" using below ref_of_copying that(3) by blast
        ultimately show False using g(7) [of r] that(3) 3 D(6) [OF _ c] l by fastforce
      qed
    qed
    obtain P where P: "pending_ids calls = P \<union> own_pending c" "pending_ids (calls(t \<mapsto> c')) = P \<union> own_pending c'"
      using pending_ids_upd [where calls = calls and t = t and c = c, OF c] by blast
    show "cached (pending_ids (calls(t \<mapsto> c'))) sh'" unfolding P(2) using s(5) D(7) P(1) by simp
  qed (use s(1,2) g(2) D(3,8) in auto)
  then show ?thesis by blast
qed

context chunk_map
begin

lemma provider_step_ok:
  assumes "provider_step rd fetch others x y" and "threads_ok T lookup inv sz idof x" and "fetch_ok T lookup inv fetch"
    and "\<And>st st'. faithful T lookup inv st \<Longrightarrow> others st st' \<Longrightarrow> faithful T lookup inv st'"
  shows "\<exists>idof'. threads_ok T lookup inv sz idof' y"
  using assms
proof (induction rule: provider_step.induct)
  case (invoke calls t c sh)
  note D = threads_okD [OF invoke(6)]
  have old: "holds (at d) = None \<and> pending (at d) = False \<and> copying (at d) = None" if "calls t = Some d" for d using invoke(1) that by auto
  have "threads_ok T lookup inv sz idof (sh, calls(t \<mapsto> c))"
  proof (rule threads_okI)
    show "call_ok T idof sh d" if "(calls(t \<mapsto> c)) u = Some d" for u d
      using that D(4) invoke(2-5) by (auto simp: call_ok_def split: if_splits)
    show "owner sh r = Some u \<longleftrightarrow> (\<exists>d. (calls(t \<mapsto> c)) u = Some d \<and> holds (at d) = Some r)" for r u
      using D(5) [of r u] old invoke(2) by auto
    show "loading (at e) \<noteq> Some r"
      if "(calls(t \<mapsto> c)) u = Some d" "(calls(t \<mapsto> c)) v = Some e" "copying (at d) = Some r" for u v d e r
      using that D(6) invoke(2) by (auto split: if_splits)
    have "pending_ids calls \<subseteq> pending_ids (calls(t \<mapsto> c))" using old by (force simp: pending_ids_def)
    then show "cached (pending_ids (calls(t \<mapsto> c))) sh" using D(7) by (auto simp: cached_def)
  qed (use D(1,2,3,8) in auto)
  then show ?case by blast
next
  case (run calls t c sh c' sh')
  note D = threads_okD [OF run(4)]
  have "owner sh r = Some t \<longleftrightarrow> holds (at c) = Some r" for r using D(5) [of r t] run(1) by simp
  from step_ok [OF D(1,2) D(4) [OF run(1)] this run(5,2)] have "good_step T lookup inv t idof sh c (c', sh')" using run(3) by auto
  from run_keeps [OF run(4,1) this] show ?case .
next
  case (interfere sh st calls)
  note D = threads_okD [OF interfere(2)]
  have "threads_ok T lookup inv sz idof (sh\<lparr>sh_store := st\<rparr>, calls)"
  proof (rule threads_okI)
    show "call_ok T idof (sh\<lparr>sh_store := st\<rparr>) d" if "calls u = Some d" for u d using D(4) [OF that] by (simp add: call_ok_def)
    show "shared_ok T idof (sh\<lparr>sh_store := st\<rparr>)" using D(2) by (simp add: shared_ok_def)
    show "cached (pending_ids calls) (sh\<lparr>sh_store := st\<rparr>)" using D(7) by (simp add: cached_def)
    show "faithful T lookup inv (sh_store (sh\<lparr>sh_store := st\<rparr>))" using interfere(1,4) D(1) by auto
    show "loading (at e) \<noteq> Some r" if "calls u = Some d" "calls v = Some e" "copying (at d) = Some r" for u v d e r
      using D(6) that by blast
  qed (use D(3,5,8) in auto)
  then show ?case by blast
qed

lemma reachable_threads_ok:
  assumes "(provider_step rd fetch others)\<^sup>*\<^sup>* (shared_new st sz, Map.empty) y" and "faithful T lookup inv st" and "0 < sz"
    and "fetch_ok T lookup inv fetch" and "\<And>st st'. faithful T lookup inv st \<Longrightarrow> others st st' \<Longrightarrow> faithful T lookup inv st'"
  shows "\<exists>idof. threads_ok T lookup inv sz idof y"
  using assms(1)
proof (induction rule: rtranclp_induct)
  case base
  have "threads_ok T lookup inv sz (\<lambda>_. 0) (shared_new st sz, Map.empty)"
    using assms(2,3) by (intro threads_okI)
      (auto simp: shared_ok_def shared_new_def new_entry_def cached_def pending_ids_def)
  then show ?case by blast
next
  case (step y z)
  then show ?case using provider_step_ok [OF step(2)] assms(4,5) by blast
qed

end

subsection \<open>Consequences\<close>

lemma threads_cache_bound:
  assumes "threads_ok T lk good sz idof (sh, calls)"
  shows "card (dom (refs sh)) \<le> sz + card {t. \<exists>c. calls t = Some c \<and> pending (at c)}"
proof -
  note D = threads_okD [OF assms]
  let ?busy = "{t. \<exists>c. calls t = Some c \<and> pending (at c)}"
  have fin: "finite ?busy" using D(8) by (rule finite_subset [rotated]) auto
  have sub: "pending_ids calls \<subseteq> (\<lambda>t. c_id (the (calls t))) ` ?busy" by (force simp: pending_ids_def)
  have p: "finite (pending_ids calls)" by (rule finite_subset [OF sub]) (rule finite_imageI [OF fin])
  have q: "card (pending_ids calls) \<le> card ?busy" by (rule surj_card_le [OF fin sub])
  have "lru_inv (sh_collector sh)" using D(2) by (simp add: shared_ok_def)
  then have ids: "card (set (lru_ids (sh_collector sh))) \<le> sz"
    using lru.keys_bounded(2) [of "sh_collector sh" "set (lru_ids (sh_collector sh))"] D(3) by simp
  have "card (dom (refs sh)) \<le> card (set (lru_ids (sh_collector sh)) \<union> pending_ids calls)"
    using D(7) p by (intro card_mono) (simp_all add: cached_def)
  also have "\<dots> \<le> card (set (lru_ids (sh_collector sh))) + card (pending_ids calls)" by (rule card_Un_le)
  finally show ?thesis using ids q by linarith
qed

lemma threads_race_free:
  assumes "threads_ok T lk good sz idof (sh, calls)"
  shows "\<not> (\<exists>t u c d r. t \<noteq> u \<and> calls t = Some c \<and> calls u = Some d \<and> loading (at d) = Some r \<and>
    (copying (at c) = Some r \<or> holds (at c) = Some r))"
proof
  assume "\<exists>t u c d r. t \<noteq> u \<and> calls t = Some c \<and> calls u = Some d \<and> loading (at d) = Some r \<and>
    (copying (at c) = Some r \<or> holds (at c) = Some r)"
  then obtain t u c d r where a: "t \<noteq> u" "calls t = Some c" "calls u = Some d" "loading (at d) = Some r"
    "copying (at c) = Some r \<or> holds (at c) = Some r" by blast
  have "owner sh r = Some u" using threads_okD(5) [OF assms, of r u] a(3,4) loading_holds by blast
  moreover have "owner sh r = Some t" if "holds (at c) = Some r" using threads_okD(5) [OF assms, of r t] a(2) that by blast
  ultimately show False using threads_okD(6) [OF assms a(2,3)] a(1,4,5) by auto
qed

lemma can_run_cases: "can_run sh p \<or> (\<exists>r u. p = Wait r \<and> owner sh r = Some u) \<or> (\<exists>err. p = Return err)"
  by (cases p) auto

lemma holds_can_run: "holds p = Some r \<Longrightarrow> can_run sh p"
  by (cases p) simp_all

context chunk_map
begin

lemma threads_progress:
  assumes ok: "threads_ok T lookup inv sz idof (sh, calls)" and f: "fetch_ok T lookup inv fetch"
    and c: "calls t = Some c" and busy: "\<not> (\<exists>err. at c = Return err)"
  shows "(\<exists>r u d. at c = Wait r \<and> u \<noteq> t \<and> calls u = Some d \<and> holds (at d) = Some r \<and> can_run sh (at d)) \<or>
    (can_run sh (at c) \<and> (\<exists>c' sh'. advance rd fetch t c sh = Some (c', sh') \<and> rank (at c') < rank (at c)))"
proof -
  note D = threads_okD [OF ok]
  consider "can_run sh (at c)" | r u where "at c = Wait r" "owner sh r = Some u" using can_run_cases [of sh "at c"] busy by blast
  then show ?thesis
  proof cases
    case 1
    have "owner sh r = Some t \<longleftrightarrow> holds (at c) = Some r" for r using D(5) [of r t] c by simp
    from step_ok [OF D(1,2) D(4) [OF c] this f 1] obtain c' sh' where "advance rd fetch t c sh = Some (c', sh')" by auto
    then show ?thesis using 1 advance_rank by blast
  next
    case 2
    obtain d where d: "calls u = Some d" "holds (at d) = Some r" using D(5) [of r u] 2(2) by blast
    moreover have "u \<noteq> t" using d c 2(1) by auto
    ultimately show ?thesis using 2(1) holds_can_run by blast
  qed
qed

end

text \<open>A call that runs alone is a run of the step relation.\<close>

lemma run_alone_steps:
  "run_alone rd fetch t k c sh = Some (err, buffer, n, sh') \<Longrightarrow> calls t = Some c \<Longrightarrow>
     \<exists>c'. (provider_step rd fetch others)\<^sup>*\<^sup>* (sh, calls) (sh', calls(t \<mapsto> c')) \<and> at c' = Return err \<and>
       c_buffer c' = buffer \<and> c_size c' = n \<and> c_id c' = c_id c \<and> c_offset c' = c_offset c \<and> c_len c' = c_len c"
proof (induction k arbitrary: c sh calls)
  case 0
  moreover have "calls(t \<mapsto> c) = calls" using 0(2) by (simp add: fun_upd_idem)
  ultimately show ?case by (intro exI [of _ c]) (cases "at c"; simp add: run_alone.simps [of _ _ _ 0])
next
  case (Suc k)
  show ?case
  proof (cases "\<exists>err. at c = Return err")
    case True
    then obtain e where e: "at c = Return e" ..
    have "calls(t \<mapsto> c) = calls" using Suc.prems(2) by (simp add: fun_upd_idem)
    then show ?thesis using Suc.prems(1) e by (intro exI [of _ c]) (simp add: run_alone_simps)
  next
    case False
    then have "rank (at c) \<noteq> 0" by (cases "at c") simp_all
    moreover have run: "can_run sh (at c)" using Suc.prems(1) False by (cases "at c") (auto simp: run_alone.simps [of _ _ _ "Suc k"] split: if_splits)
    ultimately obtain c1 sh1 where s: "advance rd fetch t c sh = Some (c1, sh1)" "run_alone rd fetch t k c1 sh1 = Some (err, buffer, n, sh')"
      using Suc.prems(1) by (auto simp: run_alone_simps Option.bind_eq_Some_conv)
    have same: "c_id c1 = c_id c" "c_offset c1 = c_offset c" "c_len c1 = c_len c"
      using s(1) by (cases "at c"; auto simp: advance_def copy_from_def Option.bind_eq_Some_conv Let_def split: if_splits option.splits)+
    have first: "provider_step rd fetch others (sh, calls) (sh1, calls(t \<mapsto> c1))" using Suc.prems(2) run s(1) by (rule provider_step.run)
    have "\<exists>c'. (provider_step rd fetch others)\<^sup>*\<^sup>* (sh1, calls(t \<mapsto> c1)) (sh', (calls(t \<mapsto> c1))(t \<mapsto> c')) \<and>
        at c' = Return err \<and> c_buffer c' = buffer \<and> c_size c' = n \<and> c_id c' = c_id c1 \<and> c_offset c' = c_offset c1 \<and> c_len c' = c_len c1"
      by (rule Suc.IH [OF s(2)]) simp
    then obtain c' where c': "(provider_step rd fetch others)\<^sup>*\<^sup>* (sh1, calls(t \<mapsto> c1)) (sh', calls(t \<mapsto> c'))"
        "at c' = Return err" "c_buffer c' = buffer" "c_size c' = n" "c_id c' = c_id c1" "c_offset c' = c_offset c1" "c_len c' = c_len c1"
      unfolding fun_upd_upd by blast
    from converse_rtranclp_into_rtranclp [OF first c'(1)] show ?thesis using c'(2-) same by (intro exI [of _ c']) (simp del: fun_upd_apply)
  qed
qed

subsection \<open>Properties\<close>

text \<open>The states in which the threads of a mount can be, over the compressed store.\<close>

definition cs_reachable ::
    "codec \<Rightarrow> (nat \<Rightarrow> chunk_store \<Rightarrow> (ErrorCode \<times> chunk_store) option) \<Rightarrow> (chunk_store \<Rightarrow> chunk_store \<Rightarrow> bool) \<Rightarrow>
     chunk_store \<Rightarrow> nat \<Rightarrow> chunk_store shared \<times> (nat \<rightharpoonup> read_call) \<Rightarrow> bool" where
  "cs_reachable lz4 fetch others st sz = (provider_step (cs_read_chunk lz4) fetch others)\<^sup>*\<^sup>* (shared_new st sz, Map.empty)"

text \<open>What the rest of the program may do to the store: it stays faithful to the volume.\<close>

definition cs_others_ok :: "codec \<Rightarrow> (nat \<rightharpoonup> bytes) \<Rightarrow> (chunk_store \<Rightarrow> chunk_store \<Rightarrow> bool) \<Rightarrow> bool" where
  "cs_others_ok lz4 T others \<longleftrightarrow>
     (\<forall>s s'. faithful T (cs_lookup lz4) (cs_inv lz4) s \<longrightarrow> others s s' \<longrightarrow> faithful T (cs_lookup lz4) (cs_inv lz4) s')"

lemma cs_reachable_ok:
  assumes "cs_reachable lz4 fetch others st sz y" and "cs_inv lz4 st" and "cs_lookup lz4 st \<subseteq>\<^sub>m T" and "0 < sz"
    and "cs_fetch_ok lz4 T fetch" and "cs_others_ok lz4 T others"
  shows "\<exists>idof. threads_ok T (cs_lookup lz4) (cs_inv lz4) sz idof y"
proof (rule compressed_files.reachable_threads_ok)
  show "(provider_step (cs_read_chunk lz4) fetch others)\<^sup>*\<^sup>* (shared_new st sz, Map.empty) y" using assms(1) by (simp add: cs_reachable_def)
  show "faithful T (cs_lookup lz4) (cs_inv lz4) s'" if "faithful T (cs_lookup lz4) (cs_inv lz4) s" "others s s'" for s s'
    using assms(6) that unfolding cs_others_ok_def by blast
qed (use assms(2-5) in \<open>simp_all add: faithful_def\<close>)


text \<open>
  C9: No call gets stuck: each call that has not returned either can make its next step, which is
  defined (no unlocking of a mutex of somebody else, no access outside a buffer) and brings it
  nearer to its end, or it waits for an entry whose mutex another thread has that can run.
\<close>

theorem concurrent_reads_progress:
  assumes "cs_reachable lz4 fetch others st sz (sh, calls)" and "cs_inv lz4 st" and "cs_lookup lz4 st \<subseteq>\<^sub>m T" and "0 < sz"
    and "cs_fetch_ok lz4 T fetch" and "cs_others_ok lz4 T others" and "calls t = Some c" and "\<not> (\<exists>err. at c = Return err)"
  shows "(\<exists>r u d. at c = Wait r \<and> u \<noteq> t \<and> calls u = Some d \<and> holds (at d) = Some r \<and> can_run sh (at d)) \<or>
    (can_run sh (at c) \<and> (\<exists>c' sh'. advance (cs_read_chunk lz4) fetch t c sh = Some (c', sh') \<and> rank (at c') < rank (at c)))"
proof -
  obtain idof where "threads_ok T (cs_lookup lz4) (cs_inv lz4) sz idof (sh, calls)" using cs_reachable_ok [OF assms(1-6)] by blast
  from compressed_files.threads_progress [OF this assms(5,7,8)] show ?thesis .
qed



text \<open>
  Two threads that ask for the same chunk of a store that has it: the first one loads, the second
  one waits for it.
\<close>

definition example_call :: read_call where
  "example_call = \<lparr>at = Enter, c_id = 3, c_offset = 1, c_len = 2, c_buffer = ''......'', c_size = 99\<rparr>"

lemma example_call_fields [simp]:
  "at example_call = Enter" "c_id example_call = 3" "c_offset example_call = 1" "c_len example_call = 2"
  "c_buffer example_call = ''......''" "c_size example_call = 99"
  by (simp_all add: example_call_def)

abbreviation example_others :: "chunk_store \<Rightarrow> chunk_store \<Rightarrow> bool" where
  "example_others \<equiv> (\<lambda>s s'. s' = s)"

lemma example_invoked:
  "cs_reachable zero_codec example_fetch example_others st 2 (shared_new st 2, [1 \<mapsto> example_call])"
  unfolding cs_reachable_def by (intro r_into_rtranclp provider_step.invoke) simp_all

lemma example_waiting:
  "cs_reachable zero_codec example_fetch example_others st 2
     (insert_new 1 3 (shared_new st 2), [1 \<mapsto> example_call\<lparr>at := Load 0\<rparr>, 2 \<mapsto> example_call\<lparr>at := Wait 0\<rparr>])"
proof -
  let ?step = "provider_step (cs_read_chunk zero_codec) example_fetch example_others"
  let ?sh = "insert_new 1 3 (shared_new st 2)"
  have w: "\<not> wrap 32 3 > CHUNK_SIZE_BYTES" by (simp add: wrap_def CHUNK_SIZE_BYTES_def)
  have f: "refs (shared_new st 2) 3 = None" "next_ref (shared_new st 2) = 0" "refs (insert_new t 3 (shared_new st 2)) 3 = Some 0" for t
    by (simp_all add: shared_new_def insert_new_def)
  define a b c d where "a = [1 :: nat \<mapsto> example_call]" and "b = a(1 \<mapsto> example_call\<lparr>at := Load 0\<rparr>)"
    and "c = b(2 \<mapsto> example_call)" and "d = c(2 \<mapsto> example_call\<lparr>at := Wait 0\<rparr>)"
  note def = a_def b_def c_def d_def
  have 1: "?step (shared_new st 2, a) (?sh, b)"
    unfolding b_def by (rule provider_step.run [where t = 1 and c = example_call]) (simp_all add: advance_def f w a_def)
  have 2: "?step (?sh, b) (?sh, c)" unfolding c_def by (rule provider_step.invoke) (simp_all add: a_def b_def)
  have 3: "?step (?sh, c) (?sh, d)"
    unfolding d_def by (rule provider_step.run [where t = 2 and c = example_call]) (simp_all add: advance_def f w c_def)
  have "?step\<^sup>*\<^sup>* (shared_new st 2, Map.empty) (shared_new st 2, a)"
    using example_invoked [of st] by (simp add: cs_reachable_def a_def)
  from rtranclp.rtrancl_into_rtrancl [OF rtranclp.rtrancl_into_rtrancl [OF rtranclp.rtrancl_into_rtrancl [OF this 1] 2] 3]
  have "cs_reachable zero_codec example_fetch example_others st 2 (?sh, d)" by (simp add: cs_reachable_def)
  moreover have "d = [1 \<mapsto> example_call\<lparr>at := Load 0\<rparr>, 2 \<mapsto> example_call\<lparr>at := Wait 0\<rparr>]" by (simp add: def)
  ultimately show ?thesis by (simp only:)
qed

lemma example_store:
  "\<exists>s. cs_inv zero_codec s \<and> cs_lookup zero_codec s = [3 \<mapsto> ''abc''] \<and> cs_lookup zero_codec s \<subseteq>\<^sub>m example_volume"
proof -
  have inv: "cs_inv zero_codec (fresh_store ''/s'' 4 [])"
    by (rule fresh_store_cs_inv) (simp_all add: short_base_def)
  have st: "cs_storable zero_codec (take 3 ''abc'')"
    by (simp add: cs_storable_def coded_storable_def zero_codec_def zero_compress_def strip_zeros_def
        CHUNK_SIZE_BYTES_def)
  obtain s E where s: "cs_inv zero_codec s" "cs_lookup zero_codec s = (Map.empty |` (- E))(3 \<mapsto> take 3 ''abc'')"
    using compressed_files.write_ok [OF inv _ _ st, of 3] by auto
  then have "cs_lookup zero_codec s = [3 \<mapsto> ''abc'']" by (auto simp: restrict_map_def fun_eq_iff)
  then show ?thesis using s(1) by (auto simp: example_volume_def)
qed


theorem concurrent_reads_progress_witness:
  "\<exists>st. cs_reachable zero_codec example_fetch example_others st 2
       (insert_new 1 3 (shared_new st 2), [1 \<mapsto> example_call\<lparr>at := Load 0\<rparr>, 2 \<mapsto> example_call\<lparr>at := Wait 0\<rparr>]) \<and>
     (\<exists>d. [1 :: nat \<mapsto> example_call\<lparr>at := Load 0\<rparr>, 2 \<mapsto> example_call\<lparr>at := Wait 0\<rparr>] 1 = Some d \<and> holds (at d) = Some 0 \<and>
        can_run (insert_new 1 3 (shared_new st 2)) (at d))"
proof -
  obtain st where st: "cs_inv zero_codec st" "cs_lookup zero_codec st \<subseteq>\<^sub>m example_volume" using example_store by blast
  have o: "cs_others_ok zero_codec example_volume example_others" by (simp add: cs_others_ok_def)
  have "\<not> can_run (insert_new 1 3 (shared_new st 2)) (Wait 0)" by (simp add: insert_new_def shared_new_def)
  then show ?thesis
    using concurrent_reads_progress [OF example_waiting [of st] st _ example_fetch_ok o, of 2 "example_call\<lparr>at := Wait 0\<rparr>"]
      example_waiting [of st] by (intro exI [of _ st]) (auto split: if_splits)
qed

end
