(* ===== verification/Spec2Isabelle.thy ===== *)
theory Spec2Isabelle
  imports Chunk_Store_Runs Store_Alone Fuse_Callbacks Distfs_Main Provider_Threads
begin

text \<open>
  A verification library for distfs, a distributed read-only file system in C++ (src/).

  \<^bold>\<open>The program.\<close> \<open>distfs build\<close> packs a directory tree into a volume: MetaFSBuilder writes a
  block of meta data (a node for every file, tables of names and extended attributes) and
  appends the contents of the files through ChunkBuilder, which cuts the volume into chunks of
  4 MiB; CompressedStore compresses each chunk and ChunkStore keeps it as a file of a directory,
  with an LruCollector that bounds their number. \<open>distfs serve\<close> describes such a store by the
  checksums of its chunks (DistfsMetadata) and answers its peers (DistfsService behind
  DistfsServer). \<open>distfs mirror\<close> and \<open>distfs mount\<close> get the description from a known node
  (DistfsBootstrap) and fetch chunks by their checksums through the ConnectionPool, which keeps
  the peers, the chunks they hold (ChunkAvailability) and the strangers it heard of (OrderedSet)
  and explores them in a worker. A mount reads the volume by ChunkProvider (a cache of
  decompressed chunks over the store, filled from the pool), DataProvider (byte ranges over
  chunks), MetaFileSystem (paths, attributes and positions from the meta data) and the callbacks
  of FUSE.

  \<^bold>\<open>How the code is read.\<close> A class is a record of its members, an operation a function that
  passes the state explicitly. Results are layered: \<open>None\<close> is undefined behaviour of the C++
  program (an access outside a buffer, \<open>back()\<close> of an empty list, a wild iterator) or a loop
  that does not end (\<open>partial_function (option)\<close>); \<open>Some (Inl _)\<close> a C++ exception; and the
  \<open>ErrorCode\<close> is part of the result. So "\<open>= Some (OK, _)\<close>" says that the operation is defined,
  returns and succeeds. An output parameter is passed with the value it has at the call and
  returned with the one it has at the end. Unsigned numbers are naturals with \<open>wrap\<close>
  (\<open>Distfs_Prelude\<close>) where the code can wrap around. Bytes are characters.

  \<^bold>\<open>Foundations.\<close>
  \<^item> \<open>Distfs_Prelude\<close> (common/consts.h, common/error_code.h): constants, the error codes, wrapping
    arithmetic, bounded accesses to buffers.
  \<^item> \<open>Posix_Model\<close>: the world of files and directories, with calls that may fail or transfer less.
  \<^item> \<open>Chunk_Map\<close>: the interface of a chunk store as the locale \<open>chunk_map\<close>, interpreted by
    ChunkStore (\<open>chunk_files\<close>), CompressedStore (\<open>compressed_files\<close>) and the store of a mounted
    node (\<open>net_store\<close>).

  \<^bold>\<open>Collections\<close> (src/common).
  \<^item> \<open>Lru_Collector\<close> (lru_collector.cc): the list with its map of iterators; \<open>update\<close> refines a
    list of ids by recency, the eviction is the locale \<open>eviction_cache\<close>.
  \<^item> \<open>Ordered_Set\<close> (ordered_set.cc): \<open>push\<close> refines a bounded queue without duplicates.

  \<^bold>\<open>Chunks\<close> (src/data).
  \<^item> \<open>Chunk_Files\<close>, \<open>Chunk_Store\<close>, \<open>Chunk_Store_Runs\<close> (chunk_store.cc): paths of chunks and their
    parsing, complete reads and writes, the class, and runs of calls: with no fault a run refines
    a bounded LRU map, with faults the store keeps its invariant; a store can be opened again.
  \<^item> \<open>Store_Threads\<close> (chunk_store.cc): any number of threads in \<open>read_chunk\<close> and \<open>write_chunk\<close>, at the
    level of system calls on inodes, since no mutex covers the files. A read gives a beginning of the
    published chunk, with NULs at most; once the writes are done the files are whole; a read may be
    torn, and a chunk may stay listed that has been evicted. \<open>Store_Alone\<close>: a thread that runs alone
    does what the functions of \<open>Chunk_Store\<close> do, whatever fails (\<open>disk_models\<close> relates the states).
  \<^item> \<open>Compressed_Store\<close> (compressed_store.cc, compression_engine.cc): read after write, and the
    loss of a chunk the compressor cannot make smaller.
  \<^item> \<open>Chunk_Builder\<close> (chunk_builder.cc): the volume under construction over any \<open>chunk_map\<close>;
    writes patch it, files are appended to it, the destructor removes what was not built.
  \<^item> \<open>Chunk_Provider\<close> (chunk_provider.cc): \<open>read_chunk\<close> as a function that runs alone.
  \<^item> \<open>Provider_Threads\<close> (chunk_provider.cc): any number of threads in \<open>read_chunk\<close>. A call is a
    program counter over the pieces that a mutex makes atomic; entries are shared, have their own
    mutexes and live as long as a reference to them. Every interleaving gives the published
    bytes; no call gets stuck; a call that runs alone is the function of \<open>Chunk_Provider\<close>.
  \<^item> \<open>Data_Provider\<close> (data_provider.cc): the loop over chunks, over the locale \<open>chunk_reader\<close>,
    which ChunkProvider provides (\<open>provider_reader\<close>, and \<open>remote_reader\<close> over a network).

  \<^bold>\<open>The volume\<close> (src/meta).
  \<^item> \<open>Meta_Image\<close> (types.h): accesses to the image and its meaning, \<open>represents img n t\<close>: the
    node at \<open>n\<close> is the root of the tree \<open>t\<close>.
  \<^item> \<open>Meta_File_System\<close>, \<open>Meta_Read_Back\<close> (meta_file_system.cc): the queries, and their answers
    in terms of the tree; the binary search over names is a linear search.
  \<^item> \<open>Metafs_Builder\<close> (metafs_builder.cc): the builder; \<open>Metafs_Layout\<close>, \<open>Metafs_Scan\<close>: the scan
    writes the image of exactly the tree the system shows (\<open>scanned\<close>); \<open>Metafs_Pack\<close>: the
    contents are appended in level order and each node gets its position; \<open>Packed_Image\<close>,
    \<open>Packed_Volume\<close>: round trips from a directory to its attributes and contents.

  \<^bold>\<open>The network\<close> (src/network).
  \<^item> \<open>Chunk_Availability\<close> (chunk_availability.cc): the set of chunks and its bit mask.
  \<^item> \<open>Distfs_Metadata\<close> (distfs_metadata.cc, checksum_engine.cc): the description of a store.
  \<^item> \<open>Connection_Pool\<close> (connection_pool.cc): the peers, the worker, the requests to the pool; the
    invariant of the pool under all of its steps.
  \<^item> \<open>Chunk_Transfer\<close> (connection_pool.cc \<open>fetch_chunk\<close>, distfs_service.cc \<open>GetChunk\<close>): the stream
    of a chunk and its receiver; a fetch stores nothing but verified chunks, and returns when
    only finitely many answers are bad.
  \<^item> \<open>Distfs_Service\<close> (distfs_service.cc, distfs_bootstrap.cc): the other calls.
  \<^item> \<open>Distfs_Node\<close> (distfs_server.cc): a node as a step relation, whose requests, worker, fetches
    and reads come in any order, and the server that waits meanwhile; what the node hands out
    completely is verified.

  \<^bold>\<open>The mount and the commands\<close> (src/fuse, src/main.cc).
  \<^item> \<open>Fuse_Callbacks\<close>, \<open>Fuse_Session\<close> (fuse_main.cc): the callbacks, the table \<open>run_fuse\<close> fills
    as a dispatcher of requests (\<open>fuse_call\<close>), and the specification of their answers by the
    tree alone (\<open>tree_answer\<close>).
  \<^item> \<open>Remote_Mount\<close>: ChunkProvider over CompressedStore and \<open>ConnectionPool::fetch_chunk\<close> keeps
    the interfaces, so that all of the above holds of it.
  \<^item> \<open>Mounted_Node\<close> (main.cc \<open>mount\<close>): the requests of the kernel, the server and the worker over one
    store and one pool, in any order; every request is answered as the tree says.
  \<^item> \<open>Distfs_Main\<close> (main.cc): the command line and the commands, and the way of a directory from
    \<open>build\<close> over \<open>serve\<close> to a mount on another machine.
\<close>

text \<open>
  \<^bold>\<open>Groups of lemmas.\<close> Each class has an invariant (\<open>lru_inv\<close>, \<open>store_inv\<close>, \<open>cs_inv\<close>, \<open>cb_inv\<close>,
  \<open>pool_inv\<close>, \<open>store_threads_ok\<close>, \<open>threads_ok\<close>, \<open>node_ok\<close>, \<open>mount_ok\<close>) with a lemma for every
  operation, lemmas on what an operation leaves alone, and its results in terms of an abstraction: the list of ids by recency,
  the map from chunk ids to contents, the byte at an address of the volume, the tree of files. The
  clients are proved over the locales and instantiated where the provider is defined. What the
  code does against its intention is proved as well, as properties of kind "error".

  \<^bold>\<open>Termination and fuel.\<close> Loops over data are structural or have a measure: the loops of system
  calls end because a call that succeeds transfers something, the scan of a directory because paths
  are bounded by \<open>PATH_MAX\<close>. Three loops are \<open>partial_function (option)\<close>, since they need not end:
  \<open>reserve_buffer\<close>, which doubles the size of a buffer that may be empty; \<open>create_loop\<close>, which
  follows the offsets in the image; and \<open>fetch_loop\<close>, which tries peers until one answers well.
  That they return is proved: \<open>reserve_buffer\<close> exactly when the buffer is not empty or has room,
  \<open>create_loop\<close> on the image of a tree, \<open>fetch_loop\<close> by the number of bad answers that are still
  to come (\<open>finitely_faulty\<close>). \<open>run_alone\<close> takes the number of steps as fuel; nine are enough, by the
  measure \<open>rank\<close> of a call.

  \<^bold>\<open>What is assumed of code outside of the repository.\<close>
  \<^item> LZ4: \<open>codec_ok\<close>, that a chunk that was compressed is decompressed to itself, within the given
    capacities. CompressedStore gives LZ4 no more room than the chunk has, and reports success
    for a chunk that does not fit, which is lost (\<open>compressed_write_loses_incompressible_chunk\<close>).
    The properties of whole volumes therefore assume that the compressor fits every chunk.
  \<^item> SHA-256: a function; properties that need it assume that it gives 32 bytes, or speak of the
    chunks with the published digest.
  \<^item> gRPC, the clock and the random generator: the record \<open>net\<close> of functions over an
    environment. Peers may refuse, break off and send anything; \<open>serving\<close> says that this happens
    only finitely often and that a peer sends the published chunk otherwise. The states of the
    environment of which it speaks are \<open>good\<close>; the runs of a mounted node are those that stay in them.
    Peers may come, go and claim to have any chunks.
  \<^item> The operating system: \<open>world\<close> for the store; \<open>host\<close> for the tree that is packed, whose
    answers are consistent and do not change meanwhile (\<open>scanned\<close>, \<open>host_ok\<close>); \<open>no_fault\<close> where a
    result needs that the calls on the files of the tree succeed.
  \<^item> FUSE and the kernel: \<open>admissible\<close> says what the kernel keeps to. Paths start with a slash, a
    buffer is as long as its size says, a handle was opened before, and a read starts inside of
    the file. A link gets a buffer with one byte more than its size, as libfuse has it, since
    \<open>get_symlink\<close> writes its end there (\<open>get_symlink_off_by_one\<close>). For a read behind the end see
    \<open>fuse_read_past_end_leaks\<close>. The tree of a mount has no directories with extended attributes
    (\<open>plain_dirs\<close>), since those hide an entry (\<open>dir_with_xattrs_hides_entry\<close>).

  \<^bold>\<open>Bounds.\<close> The volume lies below \<open>STORE_SIZE\<close> chunks, the default size of a store, beyond which
  chunks are evicted while it is packed; the number of a chunk fits in 32 bits and addresses in 64.

  \<^bold>\<open>Not modelled.\<close>
  \<^item> \<open>fuse_main\<close>, \<open>umask\<close>, the option \<open>auto_cache\<close>, the builder of the gRPC server and the texts that
    are printed: they are calls of libraries with no result in the program. Whether the server
    starts is a parameter.
  \<^item> Races inside ConnectionPool, which locks its mutexes for parts of its calls only: a call is one
    step. LruCollector holds its mutex for the whole call. The calls of ChunkStore are taken apart in
    \<open>Store_Threads\<close>; the other theories take each of them as one step, with the file as a whole, so
    that what they show holds as long as no chunk is read while it is being written.
  \<^item> Interleavings inside of a request: a step of a node is a request of the kernel, a request of a peer
    or a round of the worker as a whole, from the download of the image on. The threads of FUSE meet
    in ChunkProvider, whose calls \<open>Provider_Threads\<close> takes apart; the other classes of a mounted volume
    have no state of their own.
\<close>

end
